(* ===== verification/Prelude.thy ===== *)
theory Prelude
  imports Main "HOL-Library.Word"
begin

text \<open>
  Shared vocabulary of the development: the machine types of CSE333.h, the ways a C
  function can fail, the result monad every operation of the model returns in, the
  allocator, and the generic list, map and word facts the components share.
\<close>

unbundle bit_operations_syntax

named_theorems res_simps \<open>evaluation and inversion of the result monad\<close>

section \<open>Machine types\<close>

text \<open>
  \<open>HWSize_t\<close> is \<open>uint32_t\<close> (CSE333.h): sizes and indices wrap at \<open>2 ^ 32\<close>.
  Hash keys and document ids are \<open>uint64_t\<close>.
\<close>

type_synonym HWSize_t = "32 word"
type_synonym HTKey_t = "64 word"
type_synonym byte = "8 word"

section \<open>Failures and results\<close>

text \<open>
  How a call can end without returning a value.  \<open>Verify333_Failed\<close> and
  \<open>Exit_Failure\<close> are the process exits of \<open>VerificationFailure\<close> and of an explicit
  \<open>exit(EXIT_FAILURE)\<close>; \<open>Undefined_Behaviour\<close> is a dereference of \<open>NULL\<close> or of a
  freed cell, an index out of bounds, a division by zero or a signed overflow;
  \<open>Uncaught_Exception\<close> is a C++ exception that nothing catches and \<open>Assertion_Failed\<close> a failed
  \<open>assert\<close>, both of which end the process;
  \<open>Out_Of_Fuel\<close> is a loop of the model that used up its bound, which the termination
  theorems exclude.
\<close>

datatype c_error = Verify333_Failed | Exit_Failure | Undefined_Behaviour | Out_Of_Fuel | Uncaught_Exception | Assertion_Failed

type_synonym 'a res = "c_error + 'a"

definition bindE :: "'a res \<Rightarrow> ('a \<Rightarrow> 'b res) \<Rightarrow> 'b res" where
  "bindE r f = (case r of Inl e \<Rightarrow> Inl e | Inr x \<Rightarrow> f x)"

lemma bindE_Inr [simp, res_simps]: "bindE (Inr x) f = f x"
  by (simp add: bindE_def)

lemma bindE_Inl [simp, res_simps]: "bindE (Inl e) f = Inl e"
  by (simp add: bindE_def)

lemma bindE_eq_Inr [res_simps]:
  "bindE r f = Inr y \<longleftrightarrow> (\<exists>x. r = Inr x \<and> f x = Inr y)"
  by (cases r) auto

lemma bindE_eq_Inl:
  "bindE r f = Inl e \<longleftrightarrow> r = Inl e \<or> (\<exists>x. r = Inr x \<and> f x = Inl e)"
  by (cases r) auto

lemma bindE_cong [fundef_cong]:
  "r = r' \<Longrightarrow> (\<And>x. r' = Inr x \<Longrightarrow> f x = g x) \<Longrightarrow> bindE r f = bindE r' g"
  by (cases r') auto

text \<open>
  The macro \<open>Verify333(exp)\<close>: nothing when the expression is true, a call of
  \<open>VerificationFailure\<close>, which prints and exits, when it is not.
\<close>

definition Verify333 :: "bool \<Rightarrow> unit res" where
  "Verify333 e = (if e then Inr () else Inl Verify333_Failed)"

lemma Verify333_True [simp, res_simps]: "Verify333 True = Inr ()"
  by (simp add: Verify333_def)

lemma Verify333_False [simp, res_simps]: "Verify333 False = Inl Verify333_Failed"
  by (simp add: Verify333_def)

lemma Verify333_eq_Inr [simp]: "Verify333 e = Inr u \<longleftrightarrow> e"
  by (simp add: Verify333_def)

text \<open>Reading an array: out of bounds is undefined behaviour.\<close>

definition index_res :: "'a list \<Rightarrow> nat \<Rightarrow> 'a res" where
  "index_res xs i = (if i < length xs then Inr (xs ! i) else Inl Undefined_Behaviour)"

lemma index_res_in [simp]: "i < length xs \<Longrightarrow> index_res xs i = Inr (xs ! i)"
  by (simp add: index_res_def)

section \<open>The allocator\<close>

text \<open>
  \<open>malloc\<close> may fail at any call.  The allocator is the list of the outcomes of its next
  calls; past the end of the list every call succeeds, so \<open>[]\<close> is the allocator that
  never fails, and every finite run of the program is described by some list.
  Which address a successful call returns is chosen where the object is created.
\<close>

type_synonym allocator = "bool list"

fun malloc :: "allocator \<Rightarrow> bool \<times> allocator" where
  "malloc [] = (True, [])"
| "malloc (ok # m) = (ok, m)"

definition never_fails :: "allocator \<Rightarrow> bool" where
  "never_fails m \<longleftrightarrow> (\<forall>ok \<in> set m. ok)"

lemma never_fails_Nil [simp]: "never_fails []"
  by (simp add: never_fails_def)

lemma never_fails_malloc:
  assumes "never_fails m"
  obtains m' where "malloc m = (True, m')" "never_fails m'"
  using assms by (cases m) (auto simp: never_fails_def)

lemma never_fails_fst [simp]: "never_fails m \<Longrightarrow> fst (malloc m)"
  by (cases m) (auto simp: never_fails_def)

lemma never_fails_snd [simp]: "never_fails m \<Longrightarrow> never_fails (snd (malloc m))"
  by (cases m) (auto simp: never_fails_def)

section \<open>Words and lists\<close>

lemma unat_of_nat32: "n < 2 ^ 32 \<Longrightarrow> unat (of_nat n :: 32 word) = n"
  by (simp add: unsigned_of_nat take_bit_nat_eq_self)

lemma unat32_Suc:
  fixes w :: "32 word"
  assumes "Suc (unat w) < 2 ^ 32"
  shows "unat (w + 1) = Suc (unat w)"
  using assms by (simp add: unat_word_ariths)

lemma unat32_pred:
  fixes w :: "32 word"
  assumes "0 < unat w"
  shows "unat (w - 1) = unat w - 1"
proof -
  have "1 \<le> w" using assms by (simp add: word_le_nat_alt)
  then show ?thesis by (simp add: unat_sub)
qed

lemma word32_eq_0_iff: "(w :: 32 word) = 0 \<longleftrightarrow> unat w = 0"
  by (simp add: unat_eq_0)

lemma word32_eq_1_iff: "(w :: 32 word) = 1 \<longleftrightarrow> unat w = 1"
  by (simp add: word_unat_eq_iff)

lemma length_removed:
  "i < length xs \<Longrightarrow> length (take i xs @ drop (Suc i) xs) = length xs - 1"
  by simp

lemma split_nth:
  assumes "i < length xs"
  shows "xs = take i xs @ xs ! i # drop (Suc i) xs"
  using assms by (simp add: Cons_nth_drop_Suc)

end
