(* ===== verification/LinkedList.thy ===== *)
theory LinkedList
  imports Prelude
begin

text \<open>
  The doubly-linked list of src/hw1/LinkedList.c.

  A list object owns its nodes, so it carries its own store: \<open>ll_nodes\<close> maps the address
  of each live node to the node, and freeing a node removes it, so that reading through a
  stale pointer is undefined behaviour.  \<open>ll_brk\<close> is the bound below which addresses have
  been handed out; a new node gets address \<open>ll_brk\<close>, and addresses are never reused.
  \<open>NULL\<close> is \<open>None\<close>.  The object arguments of the operations are never \<open>NULL\<close>
  by type, so their \<open>Verify333(list != NULL)\<close> is not written out; a node pointer inside an
  iterator may be \<open>NULL\<close> and its checks are.
\<close>

section \<open>Data\<close>

record 'a ll_node =
  node_payload :: 'a
  node_next :: "nat option"
  node_prev :: "nat option"

record 'a linked_list =
  ll_num_elements :: HWSize_t
  ll_head :: "nat option"
  ll_tail :: "nat option"
  ll_nodes :: "nat \<Rightarrow> 'a ll_node option"
  ll_brk :: nat

record ll_iter =
  it_node :: "nat option"

section \<open>The node store\<close>

definition deref :: "'a linked_list \<Rightarrow> nat option \<Rightarrow> (nat \<times> 'a ll_node) res" where
  "deref l p =
     (case p of
        None \<Rightarrow> Inl Undefined_Behaviour
      | Some a \<Rightarrow> (case ll_nodes l a of None \<Rightarrow> Inl Undefined_Behaviour | Some n \<Rightarrow> Inr (a, n)))"

definition set_next :: "'a linked_list \<Rightarrow> nat option \<Rightarrow> nat option \<Rightarrow> 'a linked_list res" where
  "set_next l p v =
     bindE (deref l p) (\<lambda>(a, n). Inr (l\<lparr>ll_nodes := (ll_nodes l)(a \<mapsto> n\<lparr>node_next := v\<rparr>)\<rparr>))"

definition set_prev :: "'a linked_list \<Rightarrow> nat option \<Rightarrow> nat option \<Rightarrow> 'a linked_list res" where
  "set_prev l p v =
     bindE (deref l p) (\<lambda>(a, n). Inr (l\<lparr>ll_nodes := (ll_nodes l)(a \<mapsto> n\<lparr>node_prev := v\<rparr>)\<rparr>))"

definition set_payload :: "'a linked_list \<Rightarrow> nat option \<Rightarrow> 'a \<Rightarrow> 'a linked_list res" where
  "set_payload l p x =
     bindE (deref l p) (\<lambda>(a, n). Inr (l\<lparr>ll_nodes := (ll_nodes l)(a \<mapsto> n\<lparr>node_payload := x\<rparr>)\<rparr>))"

definition free_node :: "'a linked_list \<Rightarrow> nat option \<Rightarrow> 'a linked_list res" where
  "free_node l p = bindE (deref l p) (\<lambda>(a, n). Inr (l\<lparr>ll_nodes := (ll_nodes l)(a := None)\<rparr>))"

text \<open>
  A node fresh from \<open>malloc\<close> whose payload has been set; its links are written by the
  caller before anything reads them.
\<close>

definition new_node :: "'a linked_list \<Rightarrow> 'a \<Rightarrow> nat option \<times> 'a linked_list" where
  "new_node l x =
     (Some (ll_brk l),
      l\<lparr>ll_nodes := (ll_nodes l)(ll_brk l \<mapsto> \<lparr>node_payload = x, node_next = None, node_prev = None\<rparr>),
        ll_brk := Suc (ll_brk l)\<rparr>)"

section \<open>Operations\<close>

definition empty_list :: "'a linked_list" where
  "empty_list =
     \<lparr>ll_num_elements = 0, ll_head = None, ll_tail = None, ll_nodes = Map.empty, ll_brk = 0\<rparr>"

declare empty_list_def [code_unfold]

definition AllocateLinkedList :: "allocator \<Rightarrow> 'a linked_list option \<times> allocator" where
  "AllocateLinkedList m =
     (case malloc m of (ok, m') \<Rightarrow> (if ok then Some empty_list else None, m'))"

definition NumElementsInLinkedList :: "'a linked_list \<Rightarrow> HWSize_t" where
  "NumElementsInLinkedList l = ll_num_elements l"

definition PushLinkedList ::
  "allocator \<Rightarrow> 'a linked_list \<Rightarrow> 'a \<Rightarrow> (bool \<times> allocator \<times> 'a linked_list) res" where
  "PushLinkedList m l x =
     (case malloc m of (ok, m') \<Rightarrow>
      if \<not> ok then Inr (False, m', l)
      else
        (case new_node l x of (ln, l) \<Rightarrow>
         if ll_num_elements l = 0 then
           bindE (Verify333 (ll_head l = None)) (\<lambda>_.
           bindE (Verify333 (ll_tail l = None)) (\<lambda>_.
           bindE (set_prev l ln None) (\<lambda>l.
           bindE (set_next l ln None) (\<lambda>l.
           Inr (True, m', l\<lparr>ll_head := ln, ll_tail := ln, ll_num_elements := 1\<rparr>)))))
         else
           bindE (set_prev l ln None) (\<lambda>l.
           bindE (set_next l ln (ll_head l)) (\<lambda>l.
           bindE (set_prev l (ll_head l) ln) (\<lambda>l.
           Inr (True, m', l\<lparr>ll_head := ln, ll_num_elements := ll_num_elements l + 1\<rparr>))))))"

definition PopLinkedList :: "'a linked_list \<Rightarrow> ('a option \<times> 'a linked_list) res" where
  "PopLinkedList l =
     (if ll_num_elements l = 0 then Inr (None, l)
      else
        let pop_node = ll_head l in
        bindE (if ll_num_elements l = 1 then Inr (l\<lparr>ll_head := None, ll_tail := None\<rparr>)
               else bindE (deref l pop_node) (\<lambda>(a, n).
                    let l = l\<lparr>ll_head := node_next n\<rparr> in set_prev l (ll_head l) None)) (\<lambda>l.
        let l = l\<lparr>ll_num_elements := ll_num_elements l - 1\<rparr> in
        bindE (deref l pop_node) (\<lambda>(a, n).
        bindE (free_node l pop_node) (\<lambda>l. Inr (Some (node_payload n), l)))))"

definition AppendLinkedList ::
  "allocator \<Rightarrow> 'a linked_list \<Rightarrow> 'a \<Rightarrow> (bool \<times> allocator \<times> 'a linked_list) res" where
  "AppendLinkedList m l x =
     (case malloc m of (ok, m') \<Rightarrow>
      if \<not> ok then Inr (False, m', l)
      else
        (case new_node l x of (ln, l) \<Rightarrow>
         if ll_num_elements l = 0 then
           bindE (Verify333 (ll_head l = None)) (\<lambda>_.
           bindE (Verify333 (ll_tail l = None)) (\<lambda>_.
           bindE (set_next l ln None) (\<lambda>l.
           bindE (set_prev l ln None) (\<lambda>l.
           Inr (True, m', l\<lparr>ll_head := ln, ll_tail := ln, ll_num_elements := 1\<rparr>)))))
         else
           let old_tail = ll_tail l in
           bindE (set_next l old_tail ln) (\<lambda>l.
           bindE (set_prev l ln old_tail) (\<lambda>l.
           bindE (set_next l ln None) (\<lambda>l.
           Inr (True, m', l\<lparr>ll_tail := ln, ll_num_elements := ll_num_elements l + 1\<rparr>))))))"

definition SliceLinkedList :: "'a linked_list \<Rightarrow> ('a option \<times> 'a linked_list) res" where
  "SliceLinkedList l =
     (if ll_num_elements l = 0 then Inr (None, l)
      else
        let slice_node = ll_tail l in
        bindE (if ll_num_elements l = 1 then Inr (l\<lparr>ll_head := None, ll_tail := None\<rparr>)
               else bindE (deref l slice_node) (\<lambda>(a, n).
                    let l = l\<lparr>ll_tail := node_prev n\<rparr> in set_next l (ll_tail l) None)) (\<lambda>l.
        let l = l\<lparr>ll_num_elements := ll_num_elements l - 1\<rparr> in
        bindE (deref l slice_node) (\<lambda>(a, n).
        bindE (free_node l slice_node) (\<lambda>l. Inr (Some (node_payload n), l)))))"

text \<open>
  \<open>FreeLinkedList\<close> returns the payloads in the order in which
  \<open>payload_free_function\<close> is called on them.  Each round frees a live node, so a list
  whose addresses are below \<open>ll_brk\<close> needs at most \<open>ll_brk\<close> rounds.
\<close>

fun free_loop :: "nat \<Rightarrow> 'a linked_list \<Rightarrow> ('a list \<times> 'a linked_list) res" where
  "free_loop fuel l =
     (if ll_head l = None then Inr ([], l)
      else case fuel of
        0 \<Rightarrow> Inl Out_Of_Fuel
      | Suc fuel \<Rightarrow>
          let free_node_ptr = ll_head l in
          bindE (deref l free_node_ptr) (\<lambda>(a, n).
          let l = l\<lparr>ll_head := node_next n\<rparr> in
          bindE (free_node l free_node_ptr) (\<lambda>l.
          bindE (free_loop fuel l) (\<lambda>(freed, l). Inr (node_payload n # freed, l)))))"

declare free_loop.simps [simp del]

definition FreeLinkedList :: "'a linked_list \<Rightarrow> 'a list res" where
  "FreeLinkedList l = bindE (free_loop (ll_brk l) l) (\<lambda>(freed, l). Inr freed)"

section \<open>Iterators\<close>

definition LLMakeIterator ::
  "allocator \<Rightarrow> 'a linked_list \<Rightarrow> int \<Rightarrow> (ll_iter option \<times> allocator) res" where
  "LLMakeIterator m l pos =
     bindE (Verify333 (pos = 0 \<or> pos = 1)) (\<lambda>_.
     if NumElementsInLinkedList l = 0 then Inr (None, m)
     else case malloc m of (ok, m') \<Rightarrow>
       if \<not> ok then Inr (None, m')
       else Inr (Some \<lparr>it_node = (if pos = 0 then ll_head l else ll_tail l)\<rparr>, m'))"

definition LLIteratorHasNext :: "'a linked_list \<Rightarrow> ll_iter \<Rightarrow> bool res" where
  "LLIteratorHasNext l it =
     bindE (Verify333 (it_node it \<noteq> None)) (\<lambda>_.
     bindE (deref l (it_node it)) (\<lambda>(a, n). Inr (node_next n \<noteq> None)))"

definition LLIteratorNext :: "'a linked_list \<Rightarrow> ll_iter \<Rightarrow> (bool \<times> ll_iter) res" where
  "LLIteratorNext l it =
     bindE (Verify333 (it_node it \<noteq> None)) (\<lambda>_.
     bindE (LLIteratorHasNext l it) (\<lambda>has.
     if has then bindE (deref l (it_node it)) (\<lambda>(a, n). Inr (True, it\<lparr>it_node := node_next n\<rparr>))
     else Inr (False, it)))"

definition LLIteratorHasPrev :: "'a linked_list \<Rightarrow> ll_iter \<Rightarrow> bool res" where
  "LLIteratorHasPrev l it =
     bindE (Verify333 (it_node it \<noteq> None)) (\<lambda>_.
     bindE (deref l (it_node it)) (\<lambda>(a, n). Inr (node_prev n \<noteq> None)))"

definition LLIteratorPrev :: "'a linked_list \<Rightarrow> ll_iter \<Rightarrow> (bool \<times> ll_iter) res" where
  "LLIteratorPrev l it =
     bindE (Verify333 (it_node it \<noteq> None)) (\<lambda>_.
     bindE (LLIteratorHasPrev l it) (\<lambda>has.
     if has then bindE (deref l (it_node it)) (\<lambda>(a, n). Inr (True, it\<lparr>it_node := node_prev n\<rparr>))
     else Inr (False, it)))"

definition LLIteratorGetPayload :: "'a linked_list \<Rightarrow> ll_iter \<Rightarrow> 'a res" where
  "LLIteratorGetPayload l it =
     bindE (Verify333 (it_node it \<noteq> None)) (\<lambda>_.
     bindE (deref l (it_node it)) (\<lambda>(a, n). Inr (node_payload n)))"

text \<open>
  The result is the code's return value, the payload handed to
  \<open>payload_free_function\<close>, the list and the iterator.
\<close>

definition LLIteratorDelete ::
  "'a linked_list \<Rightarrow> ll_iter \<Rightarrow> (bool \<times> 'a \<times> 'a linked_list \<times> ll_iter) res" where
  "LLIteratorDelete l it =
     bindE (Verify333 (it_node it \<noteq> None)) (\<lambda>_.
     let delete_node = it_node it in
     bindE (deref l delete_node) (\<lambda>(a, dn).
     if ll_num_elements l = 1 then
       let l = l\<lparr>ll_head := None, ll_tail := None, ll_num_elements := 0\<rparr> in
       bindE (free_node l delete_node) (\<lambda>l.
       Inr (False, node_payload dn, l, it\<lparr>it_node := None\<rparr>))
     else
       bindE
        (if node_prev dn = None then
           bindE (deref l (ll_head l)) (\<lambda>(_, hn).
           let l = l\<lparr>ll_head := node_next hn\<rparr> in
           bindE (set_prev l (ll_head l) None) (\<lambda>l.
           Inr (l, it\<lparr>it_node := ll_head l\<rparr>)))
         else if node_next dn = None then
           bindE (deref l (ll_tail l)) (\<lambda>(_, tn).
           let l = l\<lparr>ll_tail := node_prev tn\<rparr> in
           bindE (set_next l (ll_tail l) None) (\<lambda>l.
           Inr (l, it\<lparr>it_node := ll_tail l\<rparr>)))
         else
           let it = it\<lparr>it_node := node_next dn\<rparr> in
           bindE (set_prev l (it_node it) (node_prev dn)) (\<lambda>l.
           bindE (deref l (it_node it)) (\<lambda>(_, nn).
           bindE (deref l delete_node) (\<lambda>(_, dn).
           bindE (set_next l (node_prev nn) (node_next dn)) (\<lambda>l.
           Inr (l, it))))))
       (\<lambda>(l, it).
       let l = l\<lparr>ll_num_elements := ll_num_elements l - 1\<rparr> in
       bindE (free_node l delete_node) (\<lambda>l. Inr (True, node_payload dn, l, it)))))"

definition LLIteratorInsertBefore ::
  "allocator \<Rightarrow> 'a linked_list \<Rightarrow> ll_iter \<Rightarrow> 'a \<Rightarrow> (bool \<times> allocator \<times> 'a linked_list) res" where
  "LLIteratorInsertBefore m l it x =
     bindE (Verify333 (it_node it \<noteq> None)) (\<lambda>_.
     if it_node it = ll_head l then PushLinkedList m l x
     else case malloc m of (ok, m') \<Rightarrow>
       if \<not> ok then Inr (False, m', l)
       else case new_node l x of (newnode, l) \<Rightarrow>
         bindE (set_next l newnode (it_node it)) (\<lambda>l.
         bindE (deref l (it_node it)) (\<lambda>(_, n).
         bindE (set_prev l newnode (node_prev n)) (\<lambda>l.
         bindE (deref l newnode) (\<lambda>(_, nn).
         bindE (set_next l (node_prev nn) newnode) (\<lambda>l.
         bindE (deref l newnode) (\<lambda>(_, nn).
         bindE (set_prev l (node_next nn) newnode) (\<lambda>l.
         Inr (True, m', l\<lparr>ll_num_elements := ll_num_elements l + 1\<rparr>)))))))))"

section \<open>Sorting\<close>

text \<open>
  Bubble sort on the payloads.  The comparator returns a C \<open>int\<close>; negating the smallest
  one overflows.  A pass visits each node once and the outer loop repeats it until nothing
  was swapped; \<open>ll_brk\<close> bounds the number of nodes, and its square the number of passes
  that can swap when the comparator never wants both orders of a pair.
\<close>

definition int_negate :: "int \<Rightarrow> int res" where
  "int_negate c = (if c = - (2 ^ 31) then Inl Undefined_Behaviour else Inr (- c))"

fun sort_pass ::
  "nat \<Rightarrow> ('a \<Rightarrow> 'a \<Rightarrow> int) \<Rightarrow> 32 word \<Rightarrow> 'a linked_list \<Rightarrow> nat option \<Rightarrow> bool \<Rightarrow>
   ('a linked_list \<times> bool) res" where
  "sort_pass fuel cmp ascending l curnode swapped =
     bindE (deref l curnode) (\<lambda>(_, n).
     if node_next n = None then Inr (l, swapped)
     else case fuel of
       0 \<Rightarrow> Inl Out_Of_Fuel
     | Suc fuel \<Rightarrow>
         bindE (deref l (node_next n)) (\<lambda>(_, n').
         bindE (if ascending \<noteq> 0 then int_negate (cmp (node_payload n) (node_payload n'))
                else Inr (cmp (node_payload n) (node_payload n'))) (\<lambda>compare_result.
         bindE (if compare_result < 0 then
                  bindE (set_payload l curnode (node_payload n')) (\<lambda>l.
                  bindE (set_payload l (node_next n) (node_payload n)) (\<lambda>l. Inr (l, True)))
                else Inr (l, swapped)) (\<lambda>(l, swapped).
         bindE (deref l curnode) (\<lambda>(_, n).
         sort_pass fuel cmp ascending l (node_next n) swapped)))))"

declare sort_pass.simps [simp del]

fun sort_loop ::
  "nat \<Rightarrow> ('a \<Rightarrow> 'a \<Rightarrow> int) \<Rightarrow> 32 word \<Rightarrow> 'a linked_list \<Rightarrow> 'a linked_list res" where
  "sort_loop 0 cmp ascending l = Inl Out_Of_Fuel"
| "sort_loop (Suc fuel) cmp ascending l =
     bindE (sort_pass (ll_brk l) cmp ascending l (ll_head l) False) (\<lambda>(l, swapped).
     if swapped then sort_loop fuel cmp ascending l else Inr l)"

definition SortLinkedList ::
  "'a linked_list \<Rightarrow> 32 word \<Rightarrow> ('a \<Rightarrow> 'a \<Rightarrow> int) \<Rightarrow> 'a linked_list res" where
  "SortLinkedList l ascending cmp =
     (if ll_num_elements l < 2 then Inr l
      else sort_loop (Suc (ll_brk l * ll_brk l)) cmp ascending l)"

end
