(* ===== verification/LinkedListRep.thy ===== *)
theory LinkedListRep
  imports LinkedList
begin

text \<open>
  What a list object represents, and how each operation of LinkedList changes it.

  \<open>seg\<close> follows the links of a run of nodes; \<open>ll_rep l ps\<close> says that \<open>l\<close> is a
  well-formed list whose cells, head to tail, are the (address, payload) pairs \<open>ps\<close>.
  The client's view is \<open>ll_list\<close> (the payloads) under the invariant \<open>ll_inv\<close>, and
  \<open>it_at l it i\<close> for an iterator that stands on the \<open>i\<close>-th cell.
\<close>

section \<open>Runs of linked nodes\<close>

definition addrs :: "(nat \<times> 'a) list \<Rightarrow> nat set" where
  "addrs ps = set (map fst ps)"

lemma addrs_simps [simp]:
  "addrs [] = {}" "addrs (c # ps) = insert (fst c) (addrs ps)" "addrs (ps @ qs) = addrs ps \<union> addrs qs"
  by (simp_all add: addrs_def)

definition uniq :: "(nat \<times> 'a) list \<Rightarrow> bool" where
  "uniq ps \<longleftrightarrow> distinct (map fst ps)"

lemma uniq_simps [simp]:
  "uniq []" "uniq (c # ps) \<longleftrightarrow> fst c \<notin> addrs ps \<and> uniq ps"
  "uniq (ps @ qs) \<longleftrightarrow> uniq ps \<and> uniq qs \<and> addrs ps \<inter> addrs qs = {}"
  by (simp_all add: uniq_def addrs_def)

lemma in_addrs: "c \<in> set ps \<Longrightarrow> fst c \<in> addrs ps"
  by (simp add: addrs_def)

text \<open>
  \<open>seg h pv p ps nx lst\<close>: starting at pointer \<open>p\<close>, whose predecessor is \<open>pv\<close>, the cells
  \<open>ps\<close> follow each other through \<open>node_next\<close>, each \<open>node_prev\<close> is the cell before, the
  pointer after the last cell is \<open>nx\<close> and the last cell (or \<open>pv\<close>) is \<open>lst\<close>.
\<close>

fun seg :: "(nat \<Rightarrow> 'a ll_node option) \<Rightarrow> nat option \<Rightarrow> nat option \<Rightarrow> (nat \<times> 'a) list \<Rightarrow>
            nat option \<Rightarrow> nat option \<Rightarrow> bool" where
  "seg h pv p [] nx lst \<longleftrightarrow> p = nx \<and> lst = pv"
| "seg h pv p ((a, x) # ps) nx lst \<longleftrightarrow>
     p = Some a \<and>
     (case h a of
        None \<Rightarrow> False
      | Some n \<Rightarrow> node_payload n = x \<and> node_prev n = pv \<and> seg h (Some a) (node_next n) ps nx lst)"

lemma seg_Cons_iff:
  "seg h pv p (c # ps) nx lst \<longleftrightarrow>
     p = Some (fst c) \<and>
     (\<exists>n. h (fst c) = Some n \<and> node_payload n = snd c \<and> node_prev n = pv \<and>
          seg h (Some (fst c)) (node_next n) ps nx lst)"
  by (cases c) (auto split: option.splits)

lemma seg_append:
  "seg h pv p (ps @ qs) nx lst \<longleftrightarrow> (\<exists>q m. seg h pv p ps q m \<and> seg h m q qs nx lst)"
  by (induction ps arbitrary: pv p) (auto simp: seg_Cons_iff)

lemma seg_cong:
  "(\<And>a. a \<in> addrs ps \<Longrightarrow> h a = h' a) \<Longrightarrow> seg h pv p ps nx lst = seg h' pv p ps nx lst"
  by (induction ps arbitrary: pv p) (auto simp: seg_Cons_iff)

lemma seg_upd [simp]:
  "a \<notin> addrs ps \<Longrightarrow> seg (h(a := v)) pv p ps nx lst = seg h pv p ps nx lst"
  by (rule seg_cong) auto

lemma seg_hd: "seg h pv p ps nx lst \<Longrightarrow> p = (case ps of [] \<Rightarrow> nx | c # _ \<Rightarrow> Some (fst c))"
  by (cases ps) (auto simp: seg_Cons_iff)

lemma seg_last: "seg h pv p ps nx lst \<Longrightarrow> lst = (if ps = [] then pv else Some (fst (last ps)))"
  by (induction ps arbitrary: pv p) (auto simp: seg_Cons_iff)

lemma seg_lookup:
  "seg h pv p ps nx lst \<Longrightarrow> c \<in> set ps \<Longrightarrow> \<exists>n. h (fst c) = Some n \<and> node_payload n = snd c"
  by (induction ps arbitrary: pv p) (auto simp: seg_Cons_iff)

section \<open>The representation\<close>

definition ll_rep :: "'a linked_list \<Rightarrow> (nat \<times> 'a) list \<Rightarrow> bool" where
  "ll_rep l ps \<longleftrightarrow>
     seg (ll_nodes l) None (ll_head l) ps None (ll_tail l) \<and>
     uniq ps \<and>
     dom (ll_nodes l) = addrs ps \<and>
     (\<forall>a \<in> addrs ps. a < ll_brk l) \<and>
     unat (ll_num_elements l) = length ps"

fun walk :: "(nat \<Rightarrow> 'a ll_node option) \<Rightarrow> nat option \<Rightarrow> nat \<Rightarrow> (nat \<times> 'a) list" where
  "walk h p 0 = []"
| "walk h p (Suc n) =
     (case p of
        None \<Rightarrow> []
      | Some a \<Rightarrow> (case h a of None \<Rightarrow> [] | Some nd \<Rightarrow> (a, node_payload nd) # walk h (node_next nd) n))"

definition ll_cells :: "'a linked_list \<Rightarrow> (nat \<times> 'a) list" where
  "ll_cells l = walk (ll_nodes l) (ll_head l) (unat (ll_num_elements l))"

definition ll_list :: "'a linked_list \<Rightarrow> 'a list" where
  "ll_list l = map snd (ll_cells l)"

definition ll_inv :: "'a linked_list \<Rightarrow> bool" where
  "ll_inv l \<longleftrightarrow> ll_rep l (ll_cells l)"

definition it_at :: "'a linked_list \<Rightarrow> ll_iter \<Rightarrow> nat \<Rightarrow> bool" where
  "it_at l it i \<longleftrightarrow> i < length (ll_cells l) \<and> it_node it = Some (fst (ll_cells l ! i))"

lemma walk_seg: "seg h pv p ps None lst \<Longrightarrow> walk h p (length ps) = ps"
  by (induction ps arbitrary: pv p) (auto simp: seg_Cons_iff prod_eq_iff)

lemma ll_rep_cells: "ll_rep l ps \<Longrightarrow> ll_cells l = ps"
  by (auto simp: ll_rep_def ll_cells_def walk_seg)

lemma ll_rep_inv: "ll_rep l ps \<Longrightarrow> ll_inv l"
  by (simp add: ll_inv_def ll_rep_cells)

lemma ll_rep_list: "ll_rep l ps \<Longrightarrow> ll_list l = map snd ps"
  by (simp add: ll_list_def ll_rep_cells)

lemma ll_rep_it_at: "ll_rep l ps \<Longrightarrow> it_at l it i \<longleftrightarrow> i < length ps \<and> it_node it = Some (fst (ps ! i))"
  by (simp add: it_at_def ll_rep_cells)

lemma length_ll_cells: "length (ll_cells l) = length (ll_list l)"
  by (simp add: ll_list_def)

lemma it_at_less: "it_at l it i \<Longrightarrow> i < length (ll_list l)"
  by (simp add: it_at_def length_ll_cells)

lemma ll_num_eq: "ll_inv l \<Longrightarrow> unat (ll_num_elements l) = length (ll_list l)"
  by (auto simp: ll_inv_def ll_rep_def length_ll_cells)

lemma ll_num_0: "ll_inv l \<Longrightarrow> ll_num_elements l = 0 \<longleftrightarrow> ll_list l = []"
  by (simp add: word32_eq_0_iff ll_num_eq)

lemma ll_rep_empty [simp]: "ll_rep empty_list []"
  by (simp add: ll_rep_def empty_list_def)

lemma ll_inv_empty [simp]: "ll_inv empty_list"
  by (rule ll_rep_inv [OF ll_rep_empty])

lemma ll_list_empty [simp]: "ll_list empty_list = []"
  by (simp add: ll_rep_list [OF ll_rep_empty])

lemma deref_Some [simp]: "ll_nodes l a = Some n \<Longrightarrow> deref l (Some a) = Inr (a, n)"
  by (simp add: deref_def)

text \<open>Splitting a represented list at a cell: the shape the in-the-middle cases work on.\<close>

lemma ll_rep_split:
  assumes "ll_rep l (us @ c # vs)"
  obtains n where "ll_nodes l (fst c) = Some n" "node_payload n = snd c"
    "node_prev n = (if us = [] then None else Some (fst (last us)))"
    "node_next n = (if vs = [] then None else Some (fst (hd vs)))"
    "seg (ll_nodes l) None (ll_head l) us (Some (fst c)) (node_prev n)"
    "seg (ll_nodes l) (Some (fst c)) (node_next n) vs None (ll_tail l)"
proof -
  from assms obtain q m where 1: "seg (ll_nodes l) None (ll_head l) us q m"
    and 2: "seg (ll_nodes l) m q (c # vs) None (ll_tail l)"
    by (auto simp: ll_rep_def seg_append)
  from 2 obtain n where n: "ll_nodes l (fst c) = Some n" "node_payload n = snd c" "node_prev n = m"
    "q = Some (fst c)" "seg (ll_nodes l) (Some (fst c)) (node_next n) vs None (ll_tail l)"
    by (auto simp: seg_Cons_iff)
  show ?thesis
    by (rule that [of n]) (use n 1 seg_last [OF 1] seg_hd [OF n(5)] in \<open>auto simp: hd_conv_nth split: list.splits\<close>)
qed

lemma ll_rep_head: "ll_rep l (c # ps) \<Longrightarrow> ll_head l = Some (fst c)"
  by (auto simp: ll_rep_def seg_Cons_iff)

lemma ll_rep_tail: "ll_rep l (ps @ [c]) \<Longrightarrow> ll_tail l = Some (fst c)"
  by (auto simp: ll_rep_def dest: seg_last)

lemma ll_rep_nil:
  assumes "ll_rep l []"
  shows "ll_head l = None" "ll_tail l = None" "ll_num_elements l = 0" "ll_nodes l = Map.empty"
  using assms by (simp_all add: ll_rep_def word32_eq_0_iff)

lemma ll_rep_num: "ll_rep l ps \<Longrightarrow> unat (ll_num_elements l) = length ps"
  by (simp add: ll_rep_def)

section \<open>List operations on the representation\<close>

lemma ll_rep_fresh: "ll_rep l ps \<Longrightarrow> ll_brk l \<notin> addrs ps"
  by (auto simp: ll_rep_def)

lemma ll_rep_in_nodes: "ll_rep l ps \<Longrightarrow> c \<in> set ps \<Longrightarrow> \<exists>n. ll_nodes l (fst c) = Some n \<and> node_payload n = snd c"
  unfolding ll_rep_def using seg_lookup by fastforce


lemma Push_rep:
  assumes rep: "ll_rep l ps" and room: "Suc (length ps) < 2 ^ 32" and m: "malloc m = (True, m')"
  shows "\<exists>l'. PushLinkedList m l x = Inr (True, m', l') \<and> ll_rep l' ((ll_brk l, x) # ps)"
proof (cases ps)
  case Nil
  note nil = ll_rep_nil [OF rep [unfolded Nil]]
  let ?nodes = "(ll_nodes l)(ll_brk l \<mapsto> \<lparr>node_payload = x, node_next = None, node_prev = None\<rparr>)"
  let ?l = "l\<lparr>ll_nodes := ?nodes, ll_brk := Suc (ll_brk l), ll_head := Some (ll_brk l),
              ll_tail := Some (ll_brk l), ll_num_elements := 1\<rparr>"
  have "PushLinkedList m l x = Inr (True, m', ?l)"
    using m nil by (simp add: PushLinkedList_def new_node_def set_prev_def set_next_def deref_def)
  moreover have "ll_rep ?l ((ll_brk l, x) # ps)"
    using nil Nil by (simp add: ll_rep_def)
  ultimately show ?thesis by blast
next
  case (Cons c qs)
  have brk: "ll_brk l \<notin> addrs ps" using rep by (rule ll_rep_fresh)
  have n0: "ll_num_elements l \<noteq> 0" using ll_rep_num [OF rep] Cons by (auto simp: word32_eq_0_iff)
  obtain n where n: "ll_nodes l (fst c) = Some n" "node_payload n = snd c" "node_prev n = None"
    "seg (ll_nodes l) (Some (fst c)) (node_next n) qs None (ll_tail l)"
    using rep Cons by (auto simp: ll_rep_def seg_Cons_iff)
  have hd: "ll_head l = Some (fst c)" using ll_rep_head [OF rep [unfolded Cons]] .
  have num: "unat (ll_num_elements l + 1) = Suc (length ps)"
    using ll_rep_num [OF rep] room by (simp add: unat32_Suc)
  have ne: "fst c \<noteq> ll_brk l" using brk Cons by auto
  let ?nodes = "(ll_nodes l)(ll_brk l \<mapsto> \<lparr>node_payload = x, node_next = Some (fst c), node_prev = None\<rparr>,
                             fst c \<mapsto> n\<lparr>node_prev := Some (ll_brk l)\<rparr>)"
  let ?l = "l\<lparr>ll_nodes := ?nodes, ll_brk := Suc (ll_brk l), ll_head := Some (ll_brk l),
              ll_num_elements := ll_num_elements l + 1\<rparr>"
  have "PushLinkedList m l x = Inr (True, m', ?l)"
    using m n0 n(1) hd ne
    by (simp add: PushLinkedList_def new_node_def set_prev_def set_next_def deref_def)
  moreover have "ll_rep ?l ((ll_brk l, x) # ps)"
    using rep n num brk ne unfolding ll_rep_def Cons
    by (auto simp: seg_Cons_iff)
  ultimately show ?thesis by blast
qed

lemma Append_rep:
  assumes rep: "ll_rep l ps" and room: "Suc (length ps) < 2 ^ 32" and m: "malloc m = (True, m')"
  shows "\<exists>l'. AppendLinkedList m l x = Inr (True, m', l') \<and> ll_rep l' (ps @ [(ll_brk l, x)])"
proof (cases ps rule: rev_cases)
  case Nil
  note nil = ll_rep_nil [OF rep [unfolded Nil]]
  let ?nodes = "(ll_nodes l)(ll_brk l \<mapsto> \<lparr>node_payload = x, node_next = None, node_prev = None\<rparr>)"
  let ?l = "l\<lparr>ll_nodes := ?nodes, ll_brk := Suc (ll_brk l), ll_head := Some (ll_brk l),
              ll_tail := Some (ll_brk l), ll_num_elements := 1\<rparr>"
  have "AppendLinkedList m l x = Inr (True, m', ?l)"
    using m nil by (simp add: AppendLinkedList_def new_node_def set_prev_def set_next_def deref_def)
  moreover have "ll_rep ?l (ps @ [(ll_brk l, x)])"
    using nil Nil by (simp add: ll_rep_def)
  ultimately show ?thesis by blast
next
  case (snoc qs c)
  have brk: "ll_brk l \<notin> addrs ps" using rep by (rule ll_rep_fresh)
  have n0: "ll_num_elements l \<noteq> 0" using ll_rep_num [OF rep] snoc by (auto simp: word32_eq_0_iff)
  obtain n where n: "ll_nodes l (fst c) = Some n" "node_payload n = snd c" "node_next n = None"
    "seg (ll_nodes l) None (ll_head l) qs (Some (fst c)) (node_prev n)"
    using ll_rep_split [OF rep [unfolded snoc], of thesis] by auto
  have tl: "ll_tail l = Some (fst c)" using ll_rep_tail [OF rep [unfolded snoc]] .
  have num: "unat (ll_num_elements l + 1) = Suc (length ps)"
    using ll_rep_num [OF rep] room by (simp add: unat32_Suc)
  have ne: "fst c \<noteq> ll_brk l" using brk snoc by auto
  let ?nodes = "(ll_nodes l)(fst c \<mapsto> n\<lparr>node_next := Some (ll_brk l)\<rparr>,
      ll_brk l \<mapsto> \<lparr>node_payload = x, node_next = None, node_prev = Some (fst c)\<rparr>)"
  let ?l = "l\<lparr>ll_nodes := ?nodes, ll_brk := Suc (ll_brk l), ll_tail := Some (ll_brk l),
              ll_num_elements := ll_num_elements l + 1\<rparr>"
  have "AppendLinkedList m l x = Inr (True, m', ?l)"
    using m n0 n(1) tl ne
    by (simp add: AppendLinkedList_def new_node_def set_prev_def set_next_def deref_def Let_def fun_upd_twist)
  moreover have "ll_rep ?l (ps @ [(ll_brk l, x)])"
    using rep n num brk ne unfolding ll_rep_def snoc
    by (auto simp: seg_Cons_iff seg_append)
  ultimately show ?thesis by blast
qed

lemma Pop_rep:
  assumes rep: "ll_rep l (c # ps)"
  shows "\<exists>l'. PopLinkedList l = Inr (Some (snd c), l') \<and> ll_rep l' ps"
proof (cases ps)
  case Nil
  then show ?thesis using rep
    by (auto simp: PopLinkedList_def deref_def free_node_def ll_rep_def word32_eq_0_iff word32_eq_1_iff seg_Cons_iff
         unat32_pred fun_eq_iff domIff)
next
  case (Cons d qs)
  then show ?thesis using rep
    by (auto simp: PopLinkedList_def deref_def free_node_def set_prev_def ll_rep_def word32_eq_0_iff word32_eq_1_iff
         seg_Cons_iff unat32_pred Let_def)
qed

lemma Slice_rep:
  assumes rep: "ll_rep l (ps @ [c])"
  shows "\<exists>l'. SliceLinkedList l = Inr (Some (snd c), l') \<and> ll_rep l' ps"
proof (cases ps rule: rev_cases)
  case Nil
  then show ?thesis using rep
    by (auto simp: SliceLinkedList_def deref_def free_node_def ll_rep_def word32_eq_0_iff word32_eq_1_iff seg_Cons_iff
         unat32_pred fun_eq_iff domIff)
next
  case (snoc qs d)
  then show ?thesis using rep
    by (auto simp: SliceLinkedList_def deref_def free_node_def set_next_def ll_rep_def word32_eq_0_iff word32_eq_1_iff
         seg_Cons_iff seg_append unat32_pred Let_def)
qed

section \<open>Iterators and freeing on the representation\<close>

text \<open>A cell of a represented list: the node behind the \<open>i\<close>-th address and its links.\<close>

lemma ll_rep_node:
  assumes rep: "ll_rep l ps" and i: "i < length ps"
  obtains n where "ll_nodes l (fst (ps ! i)) = Some n" "node_payload n = snd (ps ! i)"
    "node_prev n = (if i = 0 then None else Some (fst (ps ! (i - 1))))"
    "node_next n = (if Suc i < length ps then Some (fst (ps ! Suc i)) else None)"
proof -
  have "ps = take i ps @ ps ! i # drop (Suc i) ps" using i by (rule split_nth)
  with rep have "ll_rep l (take i ps @ ps ! i # drop (Suc i) ps)" by simp
  then obtain n where n: "ll_nodes l (fst (ps ! i)) = Some n" "node_payload n = snd (ps ! i)"
    "node_prev n = (if take i ps = [] then None else Some (fst (last (take i ps))))"
    "node_next n = (if drop (Suc i) ps = [] then None else Some (fst (hd (drop (Suc i) ps))))"
    by (rule ll_rep_split)
  show ?thesis
    by (rule that [of n]) (use n i in \<open>auto simp: last_conv_nth hd_drop_conv_nth min_def\<close>)
qed

lemma Next_rep:
  assumes "ll_rep l ps" "i < length ps" "it_node it = Some (fst (ps ! i))"
  shows "LLIteratorNext l it =
           Inr (if Suc i < length ps then (True, \<lparr>it_node = Some (fst (ps ! Suc i))\<rparr>) else (False, it))"
proof -
  obtain n where "ll_nodes l (fst (ps ! i)) = Some n"
    "node_next n = (if Suc i < length ps then Some (fst (ps ! Suc i)) else None)"
    using ll_rep_node [OF assms(1,2)] by metis
  then show ?thesis using assms(3)
    by (simp add: LLIteratorNext_def LLIteratorHasNext_def)
qed

lemma Prev_rep:
  assumes "ll_rep l ps" "i < length ps" "it_node it = Some (fst (ps ! i))"
  shows "LLIteratorPrev l it =
           Inr (if 0 < i then (True, \<lparr>it_node = Some (fst (ps ! (i - 1)))\<rparr>) else (False, it))"
proof -
  obtain n where "ll_nodes l (fst (ps ! i)) = Some n"
    "node_prev n = (if i = 0 then None else Some (fst (ps ! (i - 1))))"
    using ll_rep_node [OF assms(1,2)] by metis
  then show ?thesis using assms(3)
    by (simp add: LLIteratorPrev_def LLIteratorHasPrev_def)
qed

lemma GetPayload_rep:
  assumes "ll_rep l ps" "i < length ps" "it_node it = Some (fst (ps ! i))"
  shows "LLIteratorGetPayload l it = Inr (snd (ps ! i))"
proof -
  obtain n where "ll_nodes l (fst (ps ! i)) = Some n" "node_payload n = snd (ps ! i)"
    using ll_rep_node [OF assms(1,2)] by metis
  then show ?thesis using assms(3) by (simp add: LLIteratorGetPayload_def)
qed

lemma MakeIterator_rep:
  assumes rep: "ll_rep l ps" and pos: "pos = 0 \<or> pos = 1"
  shows "LLMakeIterator m l pos =
     (if ps = [] then Inr (None, m)
      else if fst (malloc m)
      then Inr (Some \<lparr>it_node = Some (fst (if pos = 0 then hd ps else last ps))\<rparr>, snd (malloc m))
      else Inr (None, snd (malloc m)))"
proof (cases "ps = []")
  case True
  then show ?thesis using pos ll_rep_num [OF rep]
    by (simp add: LLMakeIterator_def NumElementsInLinkedList_def word32_eq_0_iff)
next
  case False
  have "ll_head l = Some (fst (hd ps))" "ll_tail l = Some (fst (last ps))"
    using ll_rep_head [of l "hd ps" "tl ps"] ll_rep_tail [of l "butlast ps" "last ps"] rep False
    by simp_all
  moreover have "ll_num_elements l \<noteq> 0"
    using ll_rep_num [OF rep] False by (auto simp: word32_eq_0_iff)
  ultimately show ?thesis using pos False
    by (auto simp: LLMakeIterator_def NumElementsInLinkedList_def split: prod.splits)
qed

lemma Delete_single_rep:
  assumes rep: "ll_rep l [c]" and it: "it_node it = Some (fst c)"
  shows "\<exists>l'. LLIteratorDelete l it = Inr (False, snd c, l', \<lparr>it_node = None\<rparr>) \<and> ll_rep l' []"
proof -
  obtain n where n: "ll_nodes l (fst c) = Some n" "node_payload n = snd c"
    using rep by (auto simp: ll_rep_def seg_Cons_iff)
  let ?l = "l\<lparr>ll_head := None, ll_tail := None, ll_num_elements := 0,
              ll_nodes := (ll_nodes l)(fst c := None)\<rparr>"
  have "ll_num_elements l = 1" using ll_rep_num [OF rep] by (simp add: word32_eq_1_iff)
  then have "LLIteratorDelete l it = Inr (False, snd c, ?l, \<lparr>it_node = None\<rparr>)"
    using n it by (simp add: LLIteratorDelete_def free_node_def)
  moreover have "ll_rep ?l []"
    using rep by (auto simp: ll_rep_def fun_eq_iff domIff)
  ultimately show ?thesis by blast
qed

lemma Delete_head_rep:
  assumes rep: "ll_rep l (c # d # ps)" and it: "it_node it = Some (fst c)"
  shows "\<exists>l'. LLIteratorDelete l it = Inr (True, snd c, l', \<lparr>it_node = Some (fst d)\<rparr>) \<and> ll_rep l' (d # ps)"
proof -
  obtain n where n: "ll_nodes l (fst c) = Some n" "node_payload n = snd c" "node_prev n = None"
    "node_next n = Some (fst d)"
    using rep by (auto simp: ll_rep_def seg_Cons_iff)
  obtain k where k: "ll_nodes l (fst d) = Some k" "node_payload k = snd d"
    "seg (ll_nodes l) (Some (fst d)) (node_next k) ps None (ll_tail l)"
    using rep by (auto simp: ll_rep_def seg_Cons_iff)
  have hd: "ll_head l = Some (fst c)" using rep by (rule ll_rep_head)
  have num: "unat (ll_num_elements l) = Suc (Suc (length ps))" using ll_rep_num [OF rep] by simp
  have ne: "fst c \<noteq> fst d" using rep by (simp add: ll_rep_def)
  let ?l = "l\<lparr>ll_head := Some (fst d), ll_num_elements := ll_num_elements l - 1,
              ll_nodes := (ll_nodes l)(fst d \<mapsto> k\<lparr>node_prev := None\<rparr>, fst c := None)\<rparr>"
  have "LLIteratorDelete l it = Inr (True, snd c, ?l, \<lparr>it_node = Some (fst d)\<rparr>)"
    using n it k hd ne num
    by (simp add: LLIteratorDelete_def free_node_def set_prev_def deref_def word32_eq_1_iff Let_def)
  moreover have "ll_rep ?l (d # ps)"
    using rep k ne num by (auto simp: ll_rep_def seg_Cons_iff unat32_pred)
  ultimately show ?thesis by blast
qed

lemma Delete_tail_rep:
  assumes rep: "ll_rep l (ps @ [d, c])" and it: "it_node it = Some (fst c)"
  shows "\<exists>l'. LLIteratorDelete l it = Inr (True, snd c, l', \<lparr>it_node = Some (fst d)\<rparr>) \<and> ll_rep l' (ps @ [d])"
proof -
  obtain n k where n: "ll_nodes l (fst c) = Some n" "node_payload n = snd c" "node_prev n = Some (fst d)"
    "node_next n = None"
    and k: "ll_nodes l (fst d) = Some k" "node_payload k = snd d"
    "seg (ll_nodes l) None (ll_head l) ps (Some (fst d)) (node_prev k)"
    using rep by (auto simp: ll_rep_def seg_append seg_Cons_iff)
  have tl: "ll_tail l = Some (fst c)" using ll_rep_tail [of l "ps @ [d]" c] rep by simp
  have num: "unat (ll_num_elements l) = Suc (Suc (length ps))" using ll_rep_num [OF rep] by simp
  have ne: "fst c \<noteq> fst d" using rep by (auto simp: ll_rep_def)
  let ?l = "l\<lparr>ll_tail := Some (fst d), ll_num_elements := ll_num_elements l - 1,
              ll_nodes := (ll_nodes l)(fst d \<mapsto> k\<lparr>node_next := None\<rparr>, fst c := None)\<rparr>"
  have "LLIteratorDelete l it = Inr (True, snd c, ?l, \<lparr>it_node = Some (fst d)\<rparr>)"
    using n it k tl ne num
    by (simp add: LLIteratorDelete_def free_node_def set_next_def deref_def word32_eq_1_iff Let_def)
  moreover have "ll_rep ?l (ps @ [d])"
    using rep k ne num by (auto simp: ll_rep_def seg_append seg_Cons_iff unat32_pred)
  ultimately show ?thesis by blast
qed

lemma Delete_mid_rep:
  assumes rep: "ll_rep l (us @ b # c # d # vs)" and it: "it_node it = Some (fst c)"
  shows "\<exists>l'. LLIteratorDelete l it = Inr (True, snd c, l', \<lparr>it_node = Some (fst d)\<rparr>) \<and>
              ll_rep l' (us @ b # d # vs)"
proof -
  obtain n k j where n: "ll_nodes l (fst c) = Some n" "node_payload n = snd c"
      "node_prev n = Some (fst b)" "node_next n = Some (fst d)"
    and k: "ll_nodes l (fst b) = Some k" "node_payload k = snd b"
      "seg (ll_nodes l) None (ll_head l) us (Some (fst b)) (node_prev k)"
    and j: "ll_nodes l (fst d) = Some j" "node_payload j = snd d"
      "seg (ll_nodes l) (Some (fst d)) (node_next j) vs None (ll_tail l)"
    using rep by (auto simp: ll_rep_def seg_append seg_Cons_iff)
  have num: "unat (ll_num_elements l) = Suc (Suc (Suc (length us + length vs)))"
    using ll_rep_num [OF rep] by simp
  have ne: "fst b \<noteq> fst c" "fst b \<noteq> fst d" "fst c \<noteq> fst d" using rep by (auto simp: ll_rep_def)
  let ?l = "l\<lparr>ll_num_elements := ll_num_elements l - 1,
              ll_nodes := (ll_nodes l)(fst d \<mapsto> j\<lparr>node_prev := Some (fst b)\<rparr>,
                            fst b \<mapsto> k\<lparr>node_next := Some (fst d)\<rparr>, fst c := None)\<rparr>"
  have "LLIteratorDelete l it = Inr (True, snd c, ?l, \<lparr>it_node = Some (fst d)\<rparr>)"
    using n it k j ne num
    by (simp add: LLIteratorDelete_def free_node_def set_next_def set_prev_def deref_def word32_eq_1_iff Let_def)
  moreover have "ll_rep ?l (us @ b # d # vs)"
    using rep k j ne num by (auto simp: ll_rep_def seg_append seg_Cons_iff unat32_pred)
  ultimately show ?thesis by blast
qed

lemma Delete_rep:
  assumes rep: "ll_rep l ps" and i: "i < length ps" and it: "it_node it = Some (fst (ps ! i))"
  shows "\<exists>l' it'. LLIteratorDelete l it = Inr (length ps \<noteq> 1, snd (ps ! i), l', it') \<and>
           ll_rep l' (take i ps @ drop (Suc i) ps) \<and>
           it_node it' = (if length ps = 1 then None
                          else Some (fst (ps ! (if Suc i < length ps then Suc i else i - 1))))"
proof -
  have split: "ps = take i ps @ ps ! i # drop (Suc i) ps" using i by (rule split_nth)
  consider (single) "length ps = 1" | (head) "i = 0" "1 < length ps"
    | (tail) "0 < i" "Suc i = length ps" | (mid) "0 < i" "Suc i < length ps"
    using i by linarith
  then show ?thesis
  proof cases
    case single
    then obtain c where "ps = [c]" by (auto simp: length_Suc_conv)
    with i rep it have "ll_rep l [c]" "it_node it = Some (fst c)" "i = 0" by auto
    then obtain l' where "LLIteratorDelete l it = Inr (False, snd c, l', \<lparr>it_node = None\<rparr>)" "ll_rep l' []"
      using Delete_single_rep by blast
    then show ?thesis using \<open>ps = [c]\<close> \<open>i = 0\<close> by simp
  next
    case head
    then obtain c d qs where "ps = c # d # qs"
      by (cases ps; cases "tl ps") auto
    with head rep it obtain l' where
      "LLIteratorDelete l it = Inr (True, snd c, l', \<lparr>it_node = Some (fst d)\<rparr>)" "ll_rep l' (d # qs)"
      using Delete_head_rep [of l c d qs it] by auto
    then show ?thesis using head \<open>ps = c # d # qs\<close> by simp
  next
    case tail
    define us where "us = take (i - 1) ps"
    have take: "take i ps = us @ [ps ! (i - 1)]"
      using tail take_Suc_conv_app_nth [of "i - 1" ps] unfolding us_def by simp
    have "ps = take i ps @ [ps ! i]"
      using tail take_Suc_conv_app_nth [of i ps] by simp
    with take have ps: "ps = us @ [ps ! (i - 1), ps ! i]" by simp
    from Delete_tail_rep [of l us "ps ! (i - 1)" "ps ! i" it] rep it ps
    obtain l' where "LLIteratorDelete l it = Inr (True, snd (ps ! i), l', \<lparr>it_node = Some (fst (ps ! (i - 1)))\<rparr>)"
      "ll_rep l' (us @ [ps ! (i - 1)])" by auto
    moreover have "take i ps @ drop (Suc i) ps = us @ [ps ! (i - 1)]"
      using tail take by simp
    ultimately show ?thesis using tail by auto
  next
    case mid
    define us where "us = take (i - 1) ps"
    define vs where "vs = drop (Suc (Suc i)) ps"
    have take: "take i ps = us @ [ps ! (i - 1)]"
      using mid take_Suc_conv_app_nth [of "i - 1" ps] unfolding us_def by simp
    have drop: "drop (Suc i) ps = ps ! Suc i # vs"
      using mid Cons_nth_drop_Suc [of "Suc i" ps] unfolding vs_def by simp
    have ps: "ps = us @ ps ! (i - 1) # ps ! i # ps ! Suc i # vs"
      using split unfolding take drop by simp
    from Delete_mid_rep [of l us "ps ! (i - 1)" "ps ! i" "ps ! Suc i" vs it] rep it ps
    obtain l' where "LLIteratorDelete l it = Inr (True, snd (ps ! i), l', \<lparr>it_node = Some (fst (ps ! Suc i))\<rparr>)"
      "ll_rep l' (us @ ps ! (i - 1) # ps ! Suc i # vs)" by auto
    moreover have "take i ps @ drop (Suc i) ps = us @ ps ! (i - 1) # ps ! Suc i # vs"
      using take drop by simp
    ultimately show ?thesis using mid by auto
  qed
qed

lemma InsertBefore_mid_rep:
  assumes rep: "ll_rep l (us @ b # c # vs)" and it: "it_node it = Some (fst c)"
    and room: "Suc (length (us @ b # c # vs)) < 2 ^ 32" and m: "malloc m = (True, m')"
  shows "\<exists>l'. LLIteratorInsertBefore m l it x = Inr (True, m', l') \<and>
              ll_rep l' (us @ b # (ll_brk l, x) # c # vs)"
proof -
  let ?a = "ll_brk l"
  obtain n k where n: "ll_nodes l (fst c) = Some n" "node_payload n = snd c" "node_prev n = Some (fst b)"
      "seg (ll_nodes l) (Some (fst c)) (node_next n) vs None (ll_tail l)"
    and k: "ll_nodes l (fst b) = Some k" "node_payload k = snd b" "node_next k = Some (fst c)"
      "seg (ll_nodes l) None (ll_head l) us (Some (fst b)) (node_prev k)"
    using rep by (auto simp: ll_rep_def seg_append seg_Cons_iff)
  have brk: "?a \<notin> addrs (us @ b # c # vs)" using rep by (rule ll_rep_fresh)
  then have ne: "fst b \<noteq> fst c" "fst b \<noteq> ?a" "fst c \<noteq> ?a" "?a \<notin> addrs us" "?a \<notin> addrs vs"
    using rep by (auto simp: ll_rep_def)
  have hd: "ll_head l \<noteq> Some (fst c)"
  proof (cases us)
    case Nil
    with ll_rep_head [of l b "c # vs"] rep ne show ?thesis by simp
  next
    case (Cons u us')
    with ll_rep_head [of l u "us' @ b # c # vs"] rep show ?thesis by (auto simp: ll_rep_def)
  qed
  have num: "unat (ll_num_elements l + 1) = Suc (length (us @ b # c # vs))"
    using ll_rep_num [OF rep] room by (simp add: unat32_Suc)
  let ?l = "l\<lparr>ll_num_elements := ll_num_elements l + 1, ll_brk := Suc ?a,
              ll_nodes := (ll_nodes l)
                (?a \<mapsto> \<lparr>node_payload = x, node_next = Some (fst c), node_prev = Some (fst b)\<rparr>,
                 fst b \<mapsto> k\<lparr>node_next := Some ?a\<rparr>, fst c \<mapsto> n\<lparr>node_prev := Some ?a\<rparr>)\<rparr>"
  have "LLIteratorInsertBefore m l it x = Inr (True, m', ?l)"
    using n k it hd ne m
    by (simp add: LLIteratorInsertBefore_def new_node_def set_next_def set_prev_def deref_def)
  moreover have "ll_rep ?l (us @ b # (?a, x) # c # vs)"
    using rep n k ne num by (auto simp: ll_rep_def seg_append seg_Cons_iff intro!: less_SucI)
  ultimately show ?thesis by blast
qed

lemma InsertBefore_rep:
  assumes rep: "ll_rep l ps" and i: "i < length ps" and it: "it_node it = Some (fst (ps ! i))"
    and room: "Suc (length ps) < 2 ^ 32" and m: "malloc m = (True, m')"
  shows "\<exists>l'. LLIteratorInsertBefore m l it x = Inr (True, m', l') \<and>
              ll_rep l' (take i ps @ (ll_brk l, x) # drop i ps)"
proof (cases i)
  case 0
  with i obtain c qs where ps: "ps = c # qs" by (cases ps) auto
  then have "it_node it = Some (fst c)" "ll_head l = Some (fst c)"
    using it 0 ll_rep_head [of l c qs] rep by simp_all
  then have "LLIteratorInsertBefore m l it x = PushLinkedList m l x"
    by (simp add: LLIteratorInsertBefore_def)
  then show ?thesis using Push_rep [OF rep room m] 0 by simp
next
  case (Suc j)
  define us where "us = take j ps"
  define vs where "vs = drop (Suc i) ps"
  have td: "take i ps = us @ [ps ! j]" "drop i ps = ps ! i # vs"
    using Suc i unfolding us_def vs_def by (simp_all add: take_Suc_conv_app_nth Cons_nth_drop_Suc)
  have ps: "ps = us @ ps ! j # ps ! i # vs"
    using append_take_drop_id [of i ps, unfolded td] by simp
  from td InsertBefore_mid_rep [of l us "ps ! j" "ps ! i" vs it m m' x] rep it room m ps
  show ?thesis by simp
qed

lemma free_loop_rep:
  assumes "seg (ll_nodes l) pv (ll_head l) ps None lst" "uniq ps" "length ps \<le> fuel"
  shows "\<exists>l'. free_loop fuel l = Inr (map snd ps, l')"
  using assms
proof (induction ps arbitrary: l pv fuel)
  case Nil
  then show ?case by (simp add: free_loop.simps)
next
  case (Cons c ps)
  then obtain k where fuel: "fuel = Suc k" by (cases fuel) auto
  obtain n where n: "ll_nodes l (fst c) = Some n" "node_payload n = snd c" "ll_head l = Some (fst c)"
    "seg (ll_nodes l) (Some (fst c)) (node_next n) ps None lst"
    using Cons.prems(1) by (auto simp: seg_Cons_iff)
  let ?l = "l\<lparr>ll_head := node_next n, ll_nodes := (ll_nodes l)(fst c := None)\<rparr>"
  have "seg (ll_nodes ?l) (Some (fst c)) (ll_head ?l) ps None lst"
    using n(4) Cons.prems(2) by simp
  from Cons.IH [OF this, of k] Cons.prems(2,3) fuel
  obtain l' where "free_loop k ?l = Inr (map snd ps, l')" by auto
  then show ?case using n fuel
    by (simp add: free_loop.simps [of "Suc k" l] free_node_def Let_def)
qed

lemma addrs_card: "uniq ps \<Longrightarrow> card (addrs ps) = length ps"
  using distinct_card [of "map fst ps"] by (simp add: uniq_def addrs_def)

lemma ll_rep_length_brk: "ll_rep l ps \<Longrightarrow> length ps \<le> ll_brk l"
proof -
  assume rep: "ll_rep l ps"
  then have "addrs ps \<subseteq> {..<ll_brk l}" by (auto simp: ll_rep_def)
  then have "card (addrs ps) \<le> card {..<ll_brk l}" by (rule card_mono [rotated]) simp
  with rep show ?thesis by (simp add: ll_rep_def addrs_card)
qed

lemma Free_rep: "ll_rep l ps \<Longrightarrow> FreeLinkedList l = Inr (map snd ps)"
  using free_loop_rep [of l None ps "ll_tail l" "ll_brk l"] ll_rep_length_brk [of l ps]
  by (auto simp: FreeLinkedList_def ll_rep_def)

end
