(* ===== verification/LinkedListOps.thy ===== *)
theory LinkedListOps
  imports LinkedListRep
begin

text \<open>
  The client's view of LinkedList: what every operation does to \<open>ll_list\<close>, to the
  invariant and to the position of an iterator, whether or not the allocation succeeds;
  an abstract machine for a client that holds a list and an iterator, which the operations
  refine command by command; and the contract \<open>list_store\<close> that the clients of the module
  rely on, with its interpretation.
\<close>

section \<open>Operations and \<open>ll_list\<close>\<close>

lemma it_at_rep: "it_at l it i \<Longrightarrow> ll_inv l \<Longrightarrow>
  ll_rep l (ll_cells l) \<and> i < length (ll_cells l) \<and> it_node it = Some (fst (ll_cells l ! i))"
  by (simp add: it_at_def ll_inv_def)

lemma ll_list_nth: "i < length (ll_list l) \<Longrightarrow> ll_list l ! i = snd (ll_cells l ! i)"
  by (simp add: ll_list_def)

lemma Push_list:
  assumes "ll_inv l" "Suc (length (ll_list l)) < 2 ^ 32"
  obtains l' where "PushLinkedList m l x = Inr (fst (malloc m), snd (malloc m), l')" "ll_inv l'"
    "ll_list l' = (if fst (malloc m) then x # ll_list l else ll_list l)"
    "\<And>it i. it_at l it i \<Longrightarrow> it_at l' it (if fst (malloc m) then Suc i else i)"
proof (cases "fst (malloc m)")
  case False
  then have "PushLinkedList m l x = Inr (False, snd (malloc m), l)"
    by (cases "malloc m") (simp add: PushLinkedList_def)
  with False assms show ?thesis by (intro that [of l]) auto
next
  case True
  have rep: "ll_rep l (ll_cells l)" using assms(1) by (simp add: ll_inv_def)
  have "malloc m = (True, snd (malloc m))" using True by (simp add: prod_eq_iff)
  from Push_rep [OF rep _ this] assms(2) [folded length_ll_cells] obtain l' where l':
    "PushLinkedList m l x = Inr (True, snd (malloc m), l')" "ll_rep l' ((ll_brk l, x) # ll_cells l)"
    by auto
  show ?thesis
    by (rule that [of l'])
      (use l' True in \<open>auto simp: ll_rep_inv ll_rep_list ll_list_def [of l] it_at_def ll_rep_cells\<close>)
qed

lemma Append_list:
  assumes "ll_inv l" "Suc (length (ll_list l)) < 2 ^ 32"
  obtains l' where "AppendLinkedList m l x = Inr (fst (malloc m), snd (malloc m), l')" "ll_inv l'"
    "ll_list l' = (if fst (malloc m) then ll_list l @ [x] else ll_list l)"
    "\<And>it i. it_at l it i \<Longrightarrow> it_at l' it i"
proof (cases "fst (malloc m)")
  case False
  then have "AppendLinkedList m l x = Inr (False, snd (malloc m), l)"
    by (cases "malloc m") (simp add: AppendLinkedList_def)
  with False assms show ?thesis by (intro that [of l]) auto
next
  case True
  have rep: "ll_rep l (ll_cells l)" using assms(1) by (simp add: ll_inv_def)
  have "malloc m = (True, snd (malloc m))" using True by (simp add: prod_eq_iff)
  from Append_rep [OF rep _ this] assms(2) [folded length_ll_cells] obtain l' where l':
    "AppendLinkedList m l x = Inr (True, snd (malloc m), l')" "ll_rep l' (ll_cells l @ [(ll_brk l, x)])"
    by auto
  show ?thesis
    by (rule that [of l'])
      (use l' True in \<open>auto simp: ll_rep_inv ll_rep_list ll_list_def [of l] it_at_def ll_rep_cells nth_append\<close>)
qed

lemma Pop_list:
  assumes "ll_inv l"
  obtains l' where
    "PopLinkedList l = Inr (case ll_list l of [] \<Rightarrow> None | x # _ \<Rightarrow> Some x, l')"
    "ll_inv l'" "ll_list l' = tl (ll_list l)"
    "\<And>it i. it_at l it (Suc i) \<Longrightarrow> it_at l' it i"
proof (cases "ll_cells l")
  case Nil
  then have "PopLinkedList l = Inr (None, l)"
    using ll_num_0 [OF assms] by (simp add: PopLinkedList_def ll_list_def)
  with Nil assms show ?thesis by (intro that [of l]) (auto simp: ll_list_def it_at_def)
next
  case (Cons c cs)
  have rep: "ll_rep l (c # cs)" using assms Cons by (simp add: ll_inv_def)
  then obtain l' where l': "PopLinkedList l = Inr (Some (snd c), l')" "ll_rep l' cs"
    using Pop_rep by blast
  show ?thesis
    by (rule that [of l'])
      (use l' Cons in \<open>auto simp: ll_rep_inv ll_rep_list ll_list_def [of l] it_at_def ll_rep_cells [OF l'(2)]\<close>)
qed

lemma Slice_list:
  assumes "ll_inv l"
  obtains l' where
    "SliceLinkedList l = Inr (if ll_list l = [] then None else Some (last (ll_list l)), l')"
    "ll_inv l'" "ll_list l' = butlast (ll_list l)"
    "\<And>it i. it_at l it i \<Longrightarrow> Suc i < length (ll_list l) \<Longrightarrow> it_at l' it i"
proof (cases "ll_cells l" rule: rev_cases)
  case Nil
  then have "SliceLinkedList l = Inr (None, l)"
    using ll_num_0 [OF assms] by (simp add: SliceLinkedList_def ll_list_def)
  with Nil assms show ?thesis by (intro that [of l]) (auto simp: ll_list_def it_at_def)
next
  case (snoc cs c)
  have rep: "ll_rep l (cs @ [c])" using assms snoc by (simp add: ll_inv_def)
  then obtain l' where l': "SliceLinkedList l = Inr (Some (snd c), l')" "ll_rep l' cs"
    using Slice_rep by blast
  show ?thesis
    by (rule that [of l'])
      (use l' snoc in \<open>auto simp: ll_rep_inv ll_rep_list ll_list_def [of l] it_at_def
          ll_rep_cells [OF l'(2)] nth_append butlast_append\<close>)
qed

lemma MakeIterator_list:
  assumes "ll_inv l" "pos = 0 \<or> pos = 1"
  shows "\<exists>it. LLMakeIterator m l pos =
     (if ll_list l = [] then Inr (None, m)
      else if fst (malloc m) then Inr (Some it, snd (malloc m)) else Inr (None, snd (malloc m))) \<and>
     (ll_list l \<noteq> [] \<longrightarrow> it_at l it (if pos = 0 then 0 else length (ll_list l) - 1))"
proof -
  have rep: "ll_rep l (ll_cells l)" using assms(1) by (simp add: ll_inv_def)
  have "ll_list l = [] \<longleftrightarrow> ll_cells l = []" by (simp add: ll_list_def)
  then show ?thesis
    unfolding MakeIterator_rep [OF rep assms(2)]
    by (intro exI [of _ "\<lparr>it_node = Some (fst (if pos = 0 then hd (ll_cells l) else last (ll_cells l)))\<rparr>"])
      (auto simp: it_at_def hd_conv_nth last_conv_nth length_ll_cells)
qed

lemma Next_list:
  assumes "ll_inv l" "it_at l it i"
  shows "\<exists>it'. LLIteratorNext l it = Inr (Suc i < length (ll_list l), it') \<and>
     it_at l it' (if Suc i < length (ll_list l) then Suc i else i)"
  using Next_rep [of l "ll_cells l" i it] assms by (auto simp: it_at_def ll_inv_def length_ll_cells)

lemma Prev_list:
  assumes "ll_inv l" "it_at l it i"
  shows "\<exists>it'. LLIteratorPrev l it = Inr (0 < i, it') \<and> it_at l it' (i - 1)"
  using Prev_rep [of l "ll_cells l" i it] assms by (auto simp: it_at_def ll_inv_def)

lemma GetPayload_list:
  assumes "ll_inv l" "it_at l it i"
  shows "LLIteratorGetPayload l it = Inr (ll_list l ! i)"
  using GetPayload_rep [of l "ll_cells l" i it] assms by (auto simp: it_at_def ll_inv_def ll_list_def)

lemma HasNext_list:
  assumes "ll_inv l" "it_at l it i"
  shows "LLIteratorHasNext l it = Inr (Suc i < length (ll_list l))"
proof -
  have *: "ll_rep l (ll_cells l)" "i < length (ll_cells l)" "it_node it = Some (fst (ll_cells l ! i))"
    using assms by (auto simp: it_at_def ll_inv_def)
  obtain n where "ll_nodes l (fst (ll_cells l ! i)) = Some n"
    "node_next n = (if Suc i < length (ll_cells l) then Some (fst (ll_cells l ! Suc i)) else None)"
    using ll_rep_node [OF *(1,2)] by metis
  with *(3) show ?thesis by (simp add: LLIteratorHasNext_def length_ll_cells)
qed

lemma HasPrev_list:
  assumes "ll_inv l" "it_at l it i"
  shows "LLIteratorHasPrev l it = Inr (0 < i)"
proof -
  have *: "ll_rep l (ll_cells l)" "i < length (ll_cells l)" "it_node it = Some (fst (ll_cells l ! i))"
    using assms by (auto simp: it_at_def ll_inv_def)
  obtain n where "ll_nodes l (fst (ll_cells l ! i)) = Some n"
    "node_prev n = (if i = 0 then None else Some (fst (ll_cells l ! (i - 1))))"
    using ll_rep_node [OF *(1,2)] by metis
  with *(3) show ?thesis by (simp add: LLIteratorHasPrev_def)
qed

lemma Delete_list:
  assumes "ll_inv l" "it_at l it i"
  obtains l' it' where
    "LLIteratorDelete l it = Inr (length (ll_list l) \<noteq> 1, ll_list l ! i, l', it')" "ll_inv l'"
    "ll_list l' = take i (ll_list l) @ drop (Suc i) (ll_list l)"
    "length (ll_list l) \<noteq> 1 \<Longrightarrow> it_at l' it' (if Suc i < length (ll_list l) then i else i - 1)"
    "length (ll_list l) = 1 \<Longrightarrow> it_node it' = None"
    "\<And>jt j. it_at l jt j \<Longrightarrow> j \<noteq> i \<Longrightarrow> it_at l' jt (if j < i then j else j - 1)"
proof -
  have *: "ll_rep l (ll_cells l)" "i < length (ll_cells l)" "it_node it = Some (fst (ll_cells l ! i))"
    using assms by (auto simp: it_at_def ll_inv_def)
  obtain l' it' where d: "LLIteratorDelete l it = Inr (length (ll_cells l) \<noteq> 1, snd (ll_cells l ! i), l', it')"
    "ll_rep l' (take i (ll_cells l) @ drop (Suc i) (ll_cells l))"
    "it_node it' = (if length (ll_cells l) = 1 then None
       else Some (fst (ll_cells l ! (if Suc i < length (ll_cells l) then Suc i else i - 1))))"
    using Delete_rep [OF *] by auto
  show ?thesis
  proof (rule that [of l' it'])
    show "LLIteratorDelete l it = Inr (length (ll_list l) \<noteq> 1, ll_list l ! i, l', it')"
      using d(1) *(2) by (simp add: ll_list_nth length_ll_cells)
    show "ll_inv l'" by (rule ll_rep_inv [OF d(2)])
    show "ll_list l' = take i (ll_list l) @ drop (Suc i) (ll_list l)"
      using ll_rep_list [OF d(2)] by (simp add: ll_list_def [of l] take_map drop_map)
    show "it_node it' = None" if "length (ll_list l) = 1" using d(3) that by (simp add: length_ll_cells)
    show "it_at l' it' (if Suc i < length (ll_list l) then i else i - 1)" if "length (ll_list l) \<noteq> 1"
      using d(3) that *(2) unfolding it_at_def ll_rep_cells [OF d(2)] length_ll_cells [symmetric]
      by (auto simp: nth_append)
    show "it_at l' jt (if j < i then j else j - 1)" if "it_at l jt j" "j \<noteq> i" for jt j
      using that *(2) unfolding it_at_def ll_rep_cells [OF d(2)] by (auto simp: nth_append)
  qed
qed

lemma InsertBefore_list:
  assumes "ll_inv l" "it_at l it i" "Suc (length (ll_list l)) < 2 ^ 32"
  obtains l' where "LLIteratorInsertBefore m l it x = Inr (fst (malloc m), snd (malloc m), l')" "ll_inv l'"
    "ll_list l' = (if fst (malloc m) then take i (ll_list l) @ x # drop i (ll_list l) else ll_list l)"
    "it_at l' it (if fst (malloc m) then Suc i else i)"
proof -
  have *: "ll_rep l (ll_cells l)" "i < length (ll_cells l)" "it_node it = Some (fst (ll_cells l ! i))"
    using assms by (auto simp: it_at_def ll_inv_def)
  show ?thesis
  proof (cases "fst (malloc m)")
    case False
    then have "LLIteratorInsertBefore m l it x = Inr (False, snd (malloc m), l)"
      using *(3) by (cases "malloc m") (simp add: LLIteratorInsertBefore_def PushLinkedList_def)
    with False assms show ?thesis by (intro that [of l]) auto
  next
    case True
    have "malloc m = (True, snd (malloc m))" using True by (simp add: prod_eq_iff)
    from InsertBefore_rep [OF * _ this] assms(3) [folded length_ll_cells] obtain l' where l':
      "LLIteratorInsertBefore m l it x = Inr (True, snd (malloc m), l')"
      "ll_rep l' (take i (ll_cells l) @ (ll_brk l, x) # drop i (ll_cells l))"
      by auto
    show ?thesis
    proof (rule that [of l'])
      show "LLIteratorInsertBefore m l it x = Inr (fst (malloc m), snd (malloc m), l')" using l'(1) True by simp
      show "ll_inv l'" by (rule ll_rep_inv [OF l'(2)])
      show "ll_list l' = (if fst (malloc m) then take i (ll_list l) @ x # drop i (ll_list l) else ll_list l)"
        using ll_rep_list [OF l'(2)] True by (simp add: ll_list_def [of l] take_map drop_map)
      show "it_at l' it (if fst (malloc m) then Suc i else i)"
        using True *(2,3) unfolding it_at_def ll_rep_cells [OF l'(2)] by (auto simp: nth_append)
    qed
  qed
qed

lemma Free_list: "ll_inv l \<Longrightarrow> FreeLinkedList l = Inr (ll_list l)"
  using Free_rep [of l "ll_cells l"] by (simp add: ll_inv_def ll_list_def)

lemma ll_list_room: "ll_inv l \<Longrightarrow> length (ll_list l) < 2 ^ 32"
  using ll_num_eq [of l] unsigned_less [of "ll_num_elements l", where ?'a = nat] by simp

section \<open>An abstract client and the refinement\<close>

datatype 'a ll_cmd = Push 'a | Append 'a | Pop | Slice | Num | MakeIter int | HasNext | Next | HasPrev | Prev
  | Get | Delete | InsertBefore 'a

datatype 'a ll_reply = Flag bool | Elem "'a option" | Count nat

type_synonym 'a ll_session = "allocator \<times> 'a linked_list \<times> ll_iter option"
type_synonym 'a spec_session = "allocator \<times> 'a list \<times> nat option"

text \<open>A client that holds a list and at most one iterator, on the code's operations.\<close>

definition with_iter ::
  "'a ll_session \<Rightarrow> (ll_iter \<Rightarrow> ('a ll_reply \<times> 'a ll_session) res) \<Rightarrow> ('a ll_reply \<times> 'a ll_session) res" where
  "with_iter s f = (case s of (m, l, None) \<Rightarrow> Inl Undefined_Behaviour | (m, l, Some it) \<Rightarrow> f it)"

fun ll_step :: "'a ll_cmd \<Rightarrow> 'a ll_session \<Rightarrow> ('a ll_reply \<times> 'a ll_session) res" where
  "ll_step (Push x) (m, l, c) =
     bindE (PushLinkedList m l x) (\<lambda>(ok, m, l). Inr (Flag ok, m, l, c))"
| "ll_step (Append x) (m, l, c) =
     bindE (AppendLinkedList m l x) (\<lambda>(ok, m, l). Inr (Flag ok, m, l, c))"
| "ll_step Pop (m, l, c) = bindE (PopLinkedList l) (\<lambda>(x, l). Inr (Elem x, m, l, c))"
| "ll_step Slice (m, l, c) = bindE (SliceLinkedList l) (\<lambda>(x, l). Inr (Elem x, m, l, c))"
| "ll_step Num (m, l, c) = Inr (Count (unat (NumElementsInLinkedList l)), m, l, c)"
| "ll_step (MakeIter pos) (m, l, c) =
     bindE (LLMakeIterator m l pos) (\<lambda>(it, m). Inr (Flag (it \<noteq> None), m, l, it))"
| "ll_step HasNext (m, l, c) = with_iter (m, l, c) (\<lambda>it.
     bindE (LLIteratorHasNext l it) (\<lambda>b. Inr (Flag b, m, l, Some it)))"
| "ll_step Next (m, l, c) = with_iter (m, l, c) (\<lambda>it.
     bindE (LLIteratorNext l it) (\<lambda>(b, it). Inr (Flag b, m, l, Some it)))"
| "ll_step HasPrev (m, l, c) = with_iter (m, l, c) (\<lambda>it.
     bindE (LLIteratorHasPrev l it) (\<lambda>b. Inr (Flag b, m, l, Some it)))"
| "ll_step Prev (m, l, c) = with_iter (m, l, c) (\<lambda>it.
     bindE (LLIteratorPrev l it) (\<lambda>(b, it). Inr (Flag b, m, l, Some it)))"
| "ll_step Get (m, l, c) = with_iter (m, l, c) (\<lambda>it.
     bindE (LLIteratorGetPayload l it) (\<lambda>x. Inr (Elem (Some x), m, l, Some it)))"
| "ll_step Delete (m, l, c) = with_iter (m, l, c) (\<lambda>it.
     bindE (LLIteratorDelete l it) (\<lambda>(b, x, l, it). Inr (Flag b, m, l, Some it)))"
| "ll_step (InsertBefore x) (m, l, c) = with_iter (m, l, c) (\<lambda>it.
     bindE (LLIteratorInsertBefore m l it x) (\<lambda>(ok, m, l). Inr (Flag ok, m, l, Some it)))"

fun ll_run :: "'a ll_cmd list \<Rightarrow> 'a ll_session \<Rightarrow> ('a ll_reply list \<times> 'a ll_session) res" where
  "ll_run [] s = Inr ([], s)"
| "ll_run (c # cs) s =
     bindE (ll_step c s) (\<lambda>(r, s). bindE (ll_run cs s) (\<lambda>(rs, s). Inr (r # rs, s)))"

text \<open>
  The same client on a plain list and a position in it.  \<open>None\<close> as the result: the client
  broke the module's contract (an iterator operation without a live iterator, a position
  other than 0 and 1, or more elements than the 32-bit counter holds).  A \<open>None\<close> position is
  no iterator or a dead one; removing the element under the iterator by other means than
  \<open>LLIteratorDelete\<close> kills it.
\<close>

definition alloc_insert :: "allocator \<Rightarrow> 'a list \<Rightarrow> nat option \<Rightarrow> 'a list \<Rightarrow> nat option \<Rightarrow>
    ('a ll_reply \<times> 'a spec_session) option" where
  "alloc_insert m xs p xs' p' =
     (if 2 ^ 32 \<le> Suc (length xs) then None
      else if fst (malloc m) then Some (Flag True, snd (malloc m), xs', p')
      else Some (Flag False, snd (malloc m), xs, p))"

definition spec_push :: "'a \<Rightarrow> 'a spec_session \<Rightarrow> ('a ll_reply \<times> 'a spec_session) option" where
  "spec_push x = (\<lambda>(m, xs, p). alloc_insert m xs p (x # xs) (map_option Suc p))"

definition spec_append :: "'a \<Rightarrow> 'a spec_session \<Rightarrow> ('a ll_reply \<times> 'a spec_session) option" where
  "spec_append x = (\<lambda>(m, xs, p). alloc_insert m xs p (xs @ [x]) p)"

definition spec_pop :: "'a spec_session \<Rightarrow> ('a ll_reply \<times> 'a spec_session) option" where
  "spec_pop = (\<lambda>(m, xs, p).
     Some (Elem (case xs of [] \<Rightarrow> None | x # _ \<Rightarrow> Some x), m, tl xs,
           (case p of Some (Suc i) \<Rightarrow> Some i | _ \<Rightarrow> None)))"

definition spec_slice :: "'a spec_session \<Rightarrow> ('a ll_reply \<times> 'a spec_session) option" where
  "spec_slice = (\<lambda>(m, xs, p).
     Some (Elem (if xs = [] then None else Some (last xs)), m, butlast xs,
           (case p of Some i \<Rightarrow> if Suc i < length xs then Some i else None | None \<Rightarrow> None)))"

definition spec_num :: "'a spec_session \<Rightarrow> ('a ll_reply \<times> 'a spec_session) option" where
  "spec_num = (\<lambda>(m, xs, p). Some (Count (length xs), m, xs, p))"

definition spec_make_iter :: "int \<Rightarrow> 'a spec_session \<Rightarrow> ('a ll_reply \<times> 'a spec_session) option" where
  "spec_make_iter pos = (\<lambda>(m, xs, p).
     if pos \<noteq> 0 \<and> pos \<noteq> 1 then None
     else if xs = [] then Some (Flag False, m, xs, None)
     else if fst (malloc m)
     then Some (Flag True, snd (malloc m), xs, Some (if pos = 0 then 0 else length xs - 1))
     else Some (Flag False, snd (malloc m), xs, None))"

definition spec_has_next :: "'a spec_session \<Rightarrow> ('a ll_reply \<times> 'a spec_session) option" where
  "spec_has_next = (\<lambda>(m, xs, p). case p of None \<Rightarrow> None
     | Some i \<Rightarrow> Some (Flag (Suc i < length xs), m, xs, Some i))"

definition spec_next :: "'a spec_session \<Rightarrow> ('a ll_reply \<times> 'a spec_session) option" where
  "spec_next = (\<lambda>(m, xs, p). case p of None \<Rightarrow> None
     | Some i \<Rightarrow> Some (Flag (Suc i < length xs), m, xs, Some (if Suc i < length xs then Suc i else i)))"

definition spec_has_prev :: "'a spec_session \<Rightarrow> ('a ll_reply \<times> 'a spec_session) option" where
  "spec_has_prev = (\<lambda>(m, xs, p). case p of None \<Rightarrow> None | Some i \<Rightarrow> Some (Flag (0 < i), m, xs, Some i))"

definition spec_prev :: "'a spec_session \<Rightarrow> ('a ll_reply \<times> 'a spec_session) option" where
  "spec_prev = (\<lambda>(m, xs, p). case p of None \<Rightarrow> None | Some i \<Rightarrow> Some (Flag (0 < i), m, xs, Some (i - 1)))"

definition spec_get :: "'a spec_session \<Rightarrow> ('a ll_reply \<times> 'a spec_session) option" where
  "spec_get = (\<lambda>(m, xs, p). case p of None \<Rightarrow> None | Some i \<Rightarrow> Some (Elem (Some (xs ! i)), m, xs, Some i))"

definition spec_delete :: "'a spec_session \<Rightarrow> ('a ll_reply \<times> 'a spec_session) option" where
  "spec_delete = (\<lambda>(m, xs, p). case p of None \<Rightarrow> None
     | Some i \<Rightarrow> Some (Flag (length xs \<noteq> 1), m, take i xs @ drop (Suc i) xs,
         (if length xs = 1 then None else Some (if Suc i < length xs then i else i - 1))))"

definition spec_insert_before :: "'a \<Rightarrow> 'a spec_session \<Rightarrow> ('a ll_reply \<times> 'a spec_session) option" where
  "spec_insert_before x = (\<lambda>(m, xs, p). case p of None \<Rightarrow> None
     | Some i \<Rightarrow> alloc_insert m xs (Some i) (take i xs @ x # drop i xs) (Some (Suc i)))"

lemmas spec_defs [simp] = spec_push_def spec_append_def spec_pop_def spec_slice_def spec_num_def
  spec_make_iter_def spec_has_next_def spec_next_def spec_has_prev_def spec_prev_def spec_get_def
  spec_delete_def spec_insert_before_def

fun spec_step :: "'a ll_cmd \<Rightarrow> 'a spec_session \<Rightarrow> ('a ll_reply \<times> 'a spec_session) option" where
  "spec_step (Push x) s = spec_push x s"
| "spec_step (Append x) s = spec_append x s"
| "spec_step Pop s = spec_pop s"
| "spec_step Slice s = spec_slice s"
| "spec_step Num s = spec_num s"
| "spec_step (MakeIter pos) s = spec_make_iter pos s"
| "spec_step HasNext s = spec_has_next s"
| "spec_step Next s = spec_next s"
| "spec_step HasPrev s = spec_has_prev s"
| "spec_step Prev s = spec_prev s"
| "spec_step Get s = spec_get s"
| "spec_step Delete s = spec_delete s"
| "spec_step (InsertBefore x) s = spec_insert_before x s"

fun spec_run :: "'a ll_cmd list \<Rightarrow> 'a spec_session \<Rightarrow> ('a ll_reply list \<times> 'a spec_session) option" where
  "spec_run [] s = Some ([], s)"
| "spec_run (c # cs) s =
     (case spec_step c s of
        None \<Rightarrow> None
      | Some (r, s) \<Rightarrow> (case spec_run cs s of None \<Rightarrow> None | Some (rs, s) \<Rightarrow> Some (r # rs, s)))"

text \<open>The refinement relation: same allocator, same elements, same position while one is live.\<close>

fun session_rel :: "'a ll_session \<Rightarrow> 'a spec_session \<Rightarrow> bool" where
  "session_rel (m, l, c) (m', xs, p) \<longleftrightarrow>
     m = m' \<and> ll_inv l \<and> ll_list l = xs \<and>
     (case p of None \<Rightarrow> True | Some i \<Rightarrow> (case c of None \<Rightarrow> False | Some it \<Rightarrow> it_at l it i))"

lemma session_relE:
  assumes "session_rel s a"
  obtains m l it p where "s = (m, l, it)" "a = (m, ll_list l, p)" "ll_inv l"
    "\<And>i. p = Some i \<Longrightarrow> \<exists>jt. it = Some jt \<and> it_at l jt i"
proof -
  obtain m l it m' xs p where "s = (m, l, it)" "a = (m', xs, p)" by (cases s; cases a) auto
  with assms show ?thesis by (intro that [of m l it p]) (auto split: option.splits)
qed

lemma step_Push:
  assumes "session_rel s a" "spec_step (Push x) a = Some (r, a')"
  shows "\<exists>s'. ll_step (Push x) s = Inr (r, s') \<and> session_rel s' a'"
  using assms(1)
proof (rule session_relE)
  fix m l it p
  assume *: "s = (m, l, it)" "a = (m, ll_list l, p)" "ll_inv l"
    "\<And>i. p = Some i \<Longrightarrow> \<exists>jt. it = Some jt \<and> it_at l jt i"
  have room: "Suc (length (ll_list l)) < 2 ^ 32"
    using assms(2) * by (auto simp: alloc_insert_def split: if_splits)
  obtain l' where "PushLinkedList m l x = Inr (fst (malloc m), snd (malloc m), l')" "ll_inv l'"
    "ll_list l' = (if fst (malloc m) then x # ll_list l else ll_list l)"
    "\<And>it i. it_at l it i \<Longrightarrow> it_at l' it (if fst (malloc m) then Suc i else i)"
    using Push_list [OF *(3) room] by metis
  then show ?thesis using assms(2) * room
    by (cases p) (fastforce simp: alloc_insert_def split: if_splits)+
qed

lemma step_Append:
  assumes "session_rel s a" "spec_step (Append x) a = Some (r, a')"
  shows "\<exists>s'. ll_step (Append x) s = Inr (r, s') \<and> session_rel s' a'"
  using assms(1)
proof (rule session_relE)
  fix m l it p
  assume *: "s = (m, l, it)" "a = (m, ll_list l, p)" "ll_inv l"
    "\<And>i. p = Some i \<Longrightarrow> \<exists>jt. it = Some jt \<and> it_at l jt i"
  have room: "Suc (length (ll_list l)) < 2 ^ 32"
    using assms(2) * by (auto simp: alloc_insert_def split: if_splits)
  obtain l' where "AppendLinkedList m l x = Inr (fst (malloc m), snd (malloc m), l')" "ll_inv l'"
    "ll_list l' = (if fst (malloc m) then ll_list l @ [x] else ll_list l)"
    "\<And>it i. it_at l it i \<Longrightarrow> it_at l' it i"
    using Append_list [OF *(3) room] by metis
  then show ?thesis using assms(2) * room
    by (cases p) (fastforce simp: alloc_insert_def split: if_splits)+
qed

lemma step_Pop:
  assumes "session_rel s a" "spec_step Pop a = Some (r, a')"
  shows "\<exists>s'. ll_step Pop s = Inr (r, s') \<and> session_rel s' a'"
  using assms(1)
proof (rule session_relE)
  fix m l it p
  assume *: "s = (m, l, it)" "a = (m, ll_list l, p)" "ll_inv l"
    "\<And>i. p = Some i \<Longrightarrow> \<exists>jt. it = Some jt \<and> it_at l jt i"
  obtain l' where "PopLinkedList l = Inr (case ll_list l of [] \<Rightarrow> None | x # _ \<Rightarrow> Some x, l')"
    "ll_inv l'" "ll_list l' = tl (ll_list l)" "\<And>it i. it_at l it (Suc i) \<Longrightarrow> it_at l' it i"
    using Pop_list [OF *(3)] by metis
  then show ?thesis using assms(2) * by (auto split: option.splits nat.splits)
qed

lemma step_Slice:
  assumes "session_rel s a" "spec_step Slice a = Some (r, a')"
  shows "\<exists>s'. ll_step Slice s = Inr (r, s') \<and> session_rel s' a'"
  using assms(1)
proof (rule session_relE)
  fix m l it p
  assume *: "s = (m, l, it)" "a = (m, ll_list l, p)" "ll_inv l"
    "\<And>i. p = Some i \<Longrightarrow> \<exists>jt. it = Some jt \<and> it_at l jt i"
  obtain l' where "SliceLinkedList l = Inr (if ll_list l = [] then None else Some (last (ll_list l)), l')"
    "ll_inv l'" "ll_list l' = butlast (ll_list l)"
    "\<And>it i. it_at l it i \<Longrightarrow> Suc i < length (ll_list l) \<Longrightarrow> it_at l' it i"
    using Slice_list [OF *(3)] by metis
  then show ?thesis using assms(2) * by (auto split: option.splits if_splits)
qed

lemma step_MakeIter:
  assumes "session_rel s a" "spec_step (MakeIter pos) a = Some (r, a')"
  shows "\<exists>s'. ll_step (MakeIter pos) s = Inr (r, s') \<and> session_rel s' a'"
  using assms(1)
proof (rule session_relE)
  fix m l it p
  assume *: "s = (m, l, it)" "a = (m, ll_list l, p)" "ll_inv l"
  then have "pos = 0 \<or> pos = 1" using assms(2) by (auto split: if_splits)
  from MakeIterator_list [OF *(3) this, of m] show ?thesis
    using assms(2) * by (auto split: if_splits)
qed

text \<open>The operations that take an iterator.\<close>

lemma step_iter:
  assumes "session_rel s a" "spec_step c a = Some (r, a')"
    "\<And>m l it i. ll_inv l \<Longrightarrow> it_at l it i \<Longrightarrow> spec_step c (m, ll_list l, Some i) = Some (r, a') \<Longrightarrow>
       \<exists>s'. ll_step c (m, l, Some it) = Inr (r, s') \<and> session_rel s' a'"
    "\<And>m xs. spec_step c (m, xs, None) = None"
  shows "\<exists>s'. ll_step c s = Inr (r, s') \<and> session_rel s' a'"
  using assms(1)
proof (rule session_relE)
  fix m l it p
  assume *: "s = (m, l, it)" "a = (m, ll_list l, p)" "ll_inv l"
    "\<And>i. p = Some i \<Longrightarrow> \<exists>jt. it = Some jt \<and> it_at l jt i"
  with assms(2,4) obtain i where "p = Some i" by (cases p) auto
  moreover from this *(4) obtain jt where "it = Some jt" "it_at l jt i" by blast
  ultimately show ?thesis using assms(2) * assms(3) [of l jt i m] by simp
qed

lemma step_InsertBefore:
  assumes "ll_inv l" "it_at l it i" "spec_step (InsertBefore x) (m, ll_list l, Some i) = Some (r, a')"
  shows "\<exists>s'. ll_step (InsertBefore x) (m, l, Some it) = Inr (r, s') \<and> session_rel s' a'"
proof -
  have room: "Suc (length (ll_list l)) < 2 ^ 32"
    using assms(3) by (auto simp: alloc_insert_def split: if_splits)
  obtain l' where "LLIteratorInsertBefore m l it x = Inr (fst (malloc m), snd (malloc m), l')" "ll_inv l'"
    "ll_list l' = (if fst (malloc m) then take i (ll_list l) @ x # drop i (ll_list l) else ll_list l)"
    "it_at l' it (if fst (malloc m) then Suc i else i)"
    using InsertBefore_list [OF assms(1,2) room] by metis
  then show ?thesis using assms room by (auto simp: alloc_insert_def with_iter_def split: if_splits)
qed

lemma step_Delete:
  assumes "ll_inv l" "it_at l it i" "spec_step Delete (m, ll_list l, Some i) = Some (r, a')"
  shows "\<exists>s'. ll_step Delete (m, l, Some it) = Inr (r, s') \<and> session_rel s' a'"
proof -
  obtain l' it' where
    "LLIteratorDelete l it = Inr (length (ll_list l) \<noteq> 1, ll_list l ! i, l', it')" "ll_inv l'"
    "ll_list l' = take i (ll_list l) @ drop (Suc i) (ll_list l)"
    "length (ll_list l) \<noteq> 1 \<Longrightarrow> it_at l' it' (if Suc i < length (ll_list l) then i else i - 1)"
    using Delete_list [OF assms(1,2)] by metis
  then show ?thesis using assms(3) by (auto simp: with_iter_def)
qed

lemma step_Next:
  assumes "ll_inv l" "it_at l it i" "spec_step Next (m, ll_list l, Some i) = Some (r, a')"
  shows "\<exists>s'. ll_step Next (m, l, Some it) = Inr (r, s') \<and> session_rel s' a'"
  using Next_list [OF assms(1,2)] assms by (auto simp: with_iter_def)

lemma step_Prev:
  assumes "ll_inv l" "it_at l it i" "spec_step Prev (m, ll_list l, Some i) = Some (r, a')"
  shows "\<exists>s'. ll_step Prev (m, l, Some it) = Inr (r, s') \<and> session_rel s' a'"
  using Prev_list [OF assms(1,2)] assms by (auto simp: with_iter_def)

lemma ll_step_refines:
  assumes rel: "session_rel s a" and step: "spec_step c a = Some (r, a')"
  shows "\<exists>s'. ll_step c s = Inr (r, s') \<and> session_rel s' a'"
proof (cases c)
  case Num
  from rel show ?thesis
    by (rule session_relE)
      (use step rel Num in \<open>auto simp: NumElementsInLinkedList_def ll_num_eq\<close>)
next
  case InsertBefore
  show ?thesis unfolding InsertBefore
    by (rule step_iter [OF rel step [unfolded InsertBefore]]) (erule (2) step_InsertBefore, simp)
next
  case Delete
  show ?thesis unfolding Delete
    by (rule step_iter [OF rel step [unfolded Delete]]) (erule (2) step_Delete, simp)
next
  case HasNext
  show ?thesis by (rule step_iter [OF rel step]) (use HasNext in \<open>auto simp: with_iter_def HasNext_list\<close>)
next
  case Next
  show ?thesis unfolding Next
    by (rule step_iter [OF rel step [unfolded Next]]) (erule (2) step_Next, simp)
next
  case HasPrev
  show ?thesis by (rule step_iter [OF rel step]) (use HasPrev in \<open>auto simp: with_iter_def HasPrev_list\<close>)
next
  case Prev
  show ?thesis unfolding Prev
    by (rule step_iter [OF rel step [unfolded Prev]]) (erule (2) step_Prev, simp)
next
  case Get
  show ?thesis by (rule step_iter [OF rel step]) (use Get in \<open>auto simp: with_iter_def GetPayload_list\<close>)
qed (use rel step in \<open>blast intro: step_Push step_Append step_Pop step_Slice step_MakeIter\<close>)+

lemma ll_run_refines:
  "session_rel s a \<Longrightarrow> spec_run cs a = Some (rs, a') \<Longrightarrow>
   \<exists>s'. ll_run cs s = Inr (rs, s') \<and> session_rel s' a'"
proof (induction cs arbitrary: s a rs)
  case (Cons c cs)
  from Cons.prems(2) obtain r a1 rs1 where 1: "spec_step c a = Some (r, a1)"
    "spec_run cs a1 = Some (rs1, a')" "rs = r # rs1"
    by (auto split: option.splits)
  from ll_step_refines [OF Cons.prems(1) 1(1)] obtain s1 where 2: "ll_step c s = Inr (r, s1)" "session_rel s1 a1"
    by blast
  from Cons.IH [OF 2(2) 1(2)] 2(1) 1(3) show ?case by auto
qed simp

section \<open>The contract of a list that is used as a queue or a stack\<close>

text \<open>
  What the clients of the module rely on when allocation does not fail: \<open>push\<close> and
  \<open>append\<close> add at the two ends, \<open>pop\<close> and \<open>slice\<close> take from them.
\<close>

locale list_store =
  fixes inv :: "'l \<Rightarrow> bool" and elems :: "'l \<Rightarrow> 'a list"
    and push append :: "allocator \<Rightarrow> 'l \<Rightarrow> 'a \<Rightarrow> (bool \<times> allocator \<times> 'l) res"
    and pop slice :: "'l \<Rightarrow> ('a option \<times> 'l) res"
  assumes push: "inv l \<Longrightarrow> Suc (length (elems l)) < 2 ^ 32 \<Longrightarrow> never_fails m \<Longrightarrow>
      \<exists>m' l'. push m l x = Inr (True, m', l') \<and> never_fails m' \<and> inv l' \<and> elems l' = x # elems l"
    and append: "inv l \<Longrightarrow> Suc (length (elems l)) < 2 ^ 32 \<Longrightarrow> never_fails m \<Longrightarrow>
      \<exists>m' l'. append m l x = Inr (True, m', l') \<and> never_fails m' \<and> inv l' \<and> elems l' = elems l @ [x]"
    and pop: "inv l \<Longrightarrow> elems l = x # xs \<Longrightarrow> \<exists>l'. pop l = Inr (Some x, l') \<and> inv l' \<and> elems l' = xs"
    and slice: "inv l \<Longrightarrow> elems l = xs @ [x] \<Longrightarrow> \<exists>l'. slice l = Inr (Some x, l') \<and> inv l' \<and> elems l' = xs"

fun add_all :: "(allocator \<Rightarrow> 'l \<Rightarrow> 'a \<Rightarrow> (bool \<times> allocator \<times> 'l) res) \<Rightarrow> allocator \<Rightarrow> 'l \<Rightarrow> 'a list \<Rightarrow>
    (bool \<times> allocator \<times> 'l) res" where
  "add_all add m l [] = Inr (True, m, l)"
| "add_all add m l (x # xs) =
     bindE (add m l x) (\<lambda>(ok, m, l). if ok then add_all add m l xs else Inr (False, m, l))"

fun take_all :: "('l \<Rightarrow> ('a option \<times> 'l) res) \<Rightarrow> nat \<Rightarrow> 'l \<Rightarrow> ('a list \<times> 'l) res" where
  "take_all get 0 l = Inr ([], l)"
| "take_all get (Suc n) l =
     bindE (get l) (\<lambda>(x, l). case x of None \<Rightarrow> Inr ([], l)
       | Some x \<Rightarrow> bindE (take_all get n l) (\<lambda>(xs, l). Inr (x # xs, l)))"

context list_store
begin

lemma append_all:
  assumes "inv l" "length (elems l) + length xs < 2 ^ 32" "never_fails m"
  shows "\<exists>m' l'. add_all append m l xs = Inr (True, m', l') \<and> never_fails m' \<and> inv l' \<and> elems l' = elems l @ xs"
  using assms
proof (induction xs arbitrary: l m)
  case (Cons x xs)
  obtain m1 l1 where 1: "append m l x = Inr (True, m1, l1)" "never_fails m1" "inv l1" "elems l1 = elems l @ [x]"
    using append [of l m x] Cons.prems by auto
  from Cons.IH [OF 1(3) _ 1(2)] Cons.prems(2) 1 show ?case by auto
qed simp

lemma push_all:
  assumes "inv l" "length (elems l) + length xs < 2 ^ 32" "never_fails m"
  shows "\<exists>m' l'. add_all push m l xs = Inr (True, m', l') \<and> never_fails m' \<and> inv l' \<and> elems l' = rev xs @ elems l"
  using assms
proof (induction xs arbitrary: l m)
  case (Cons x xs)
  obtain m1 l1 where 1: "push m l x = Inr (True, m1, l1)" "never_fails m1" "inv l1" "elems l1 = x # elems l"
    using push [of l m x] Cons.prems by auto
  from Cons.IH [OF 1(3) _ 1(2)] Cons.prems(2) 1 show ?case by auto
qed simp

lemma pop_all:
  assumes "inv l" "elems l = xs @ ys"
  shows "\<exists>l'. take_all pop (length xs) l = Inr (xs, l') \<and> inv l' \<and> elems l' = ys"
  using assms
proof (induction xs arbitrary: l)
  case (Cons x xs)
  obtain l1 where 1: "pop l = Inr (Some x, l1)" "inv l1" "elems l1 = xs @ ys"
    using pop [of l x "xs @ ys"] Cons.prems by auto
  from Cons.IH [OF 1(2,3)] 1 show ?case by auto
qed simp

lemma queue_fifo:
  assumes "inv l" "elems l = []" "length xs < 2 ^ 32" "never_fails m"
  shows "\<exists>m' l' l''. add_all append m l xs = Inr (True, m', l') \<and>
           take_all pop (length xs) l' = Inr (xs, l'') \<and> inv l'' \<and> elems l'' = []"
proof -
  obtain m' l' where 1: "add_all append m l xs = Inr (True, m', l')" "inv l'" "elems l' = xs"
    using append_all [of l xs m] assms by auto
  with pop_all [OF 1(2), of xs "[]"] show ?thesis by auto
qed

lemma stack_lifo:
  assumes "inv l" "elems l = []" "length xs < 2 ^ 32" "never_fails m"
  shows "\<exists>m' l' l''. add_all push m l xs = Inr (True, m', l') \<and>
           take_all pop (length xs) l' = Inr (rev xs, l'') \<and> inv l'' \<and> elems l'' = []"
proof -
  obtain m' l' where 1: "add_all push m l xs = Inr (True, m', l')" "inv l'" "elems l' = rev xs"
    using push_all [of l xs m] assms by auto
  with pop_all [OF 1(2), of "rev xs" "[]"] show ?thesis by auto
qed

end

interpretation ll: list_store ll_inv ll_list PushLinkedList AppendLinkedList PopLinkedList SliceLinkedList
proof
  fix l :: "'a linked_list" and m x
  assume *: "ll_inv l" "Suc (length (ll_list l)) < 2 ^ 32" "never_fails m"
  show "\<exists>m' l'. PushLinkedList m l x = Inr (True, m', l') \<and> never_fails m' \<and> ll_inv l' \<and> ll_list l' = x # ll_list l"
    by (rule Push_list [OF *(1,2), of m x]) (use *(3) in auto)
  show "\<exists>m' l'. AppendLinkedList m l x = Inr (True, m', l') \<and> never_fails m' \<and> ll_inv l' \<and> ll_list l' = ll_list l @ [x]"
    by (rule Append_list [OF *(1,2), of m x]) (use *(3) in auto)
next
  fix l :: "'a linked_list" and x xs
  assume *: "ll_inv l"
  show "\<exists>l'. PopLinkedList l = Inr (Some x, l') \<and> ll_inv l' \<and> ll_list l' = xs" if "ll_list l = x # xs"
    by (rule Pop_list [OF *]) (use that in auto)
  show "\<exists>l'. SliceLinkedList l = Inr (Some x, l') \<and> ll_inv l' \<and> ll_list l' = xs" if "ll_list l = xs @ [x]"
    by (rule Slice_list [OF *]) (use that in auto)
qed

end
