(* ===== verification/LinkedListSort.thy ===== *)
theory LinkedListSort
  imports LinkedListRep "HOL-Library.Multiset"
begin

text \<open>
  The bubble sort of \<open>SortLinkedList\<close>.  One pass is related to \<open>bubble\<close> on plain lists;
  a pass that swaps removes an inversion, so the outer loop stops; a pass that does not
  swap leaves a sorted list.  The comparator is the interface \<open>payload_comparator\<close>.
\<close>

section \<open>One bubble pass, on plain lists\<close>

fun bubble :: "('a \<Rightarrow> 'a \<Rightarrow> bool) \<Rightarrow> 'a list \<Rightarrow> 'a list" where
  "bubble sw (x # y # zs) = (if sw x y then y # bubble sw (x # zs) else x # bubble sw (y # zs))"
| "bubble sw xs = xs"

fun bubble_swaps :: "('a \<Rightarrow> 'a \<Rightarrow> bool) \<Rightarrow> 'a list \<Rightarrow> bool" where
  "bubble_swaps sw (x # y # zs) = (if sw x y then True else bubble_swaps sw (y # zs))"
| "bubble_swaps sw xs = False"

fun inversions :: "('a \<Rightarrow> 'a \<Rightarrow> bool) \<Rightarrow> 'a list \<Rightarrow> nat" where
  "inversions sw [] = 0"
| "inversions sw (x # xs) = length (filter (sw x) xs) + inversions sw xs"

lemma mset_bubble [simp]: "mset (bubble sw xs) = mset xs"
  by (induction sw xs rule: bubble.induct) auto

lemma length_bubble [simp]: "length (bubble sw xs) = length xs"
  by (metis mset_bubble size_mset)

lemma set_bubble [simp]: "set (bubble sw xs) = set xs"
  by (metis mset_bubble set_mset_mset)

lemma length_filter_bubble [simp]: "length (filter P (bubble sw xs)) = length (filter P xs)"
  by (metis mset_bubble mset_filter size_mset)

lemma inversions_bound: "inversions sw xs \<le> length xs * length xs"
proof (induction xs)
  case (Cons x xs)
  have "length (filter (sw x) xs) \<le> length xs" by (rule length_filter_le)
  with Cons show ?case unfolding inversions.simps length_Cons mult_Suc mult_Suc_right by linarith
qed simp

lemma inversions_bubble_le:
  assumes "\<And>x y. sw x y \<Longrightarrow> \<not> sw y x"
  shows "inversions sw (bubble sw xs) \<le> inversions sw xs"
  using assms by (induction sw xs rule: bubble.induct) auto

lemma inversions_bubble_less:
  assumes "\<And>x y. sw x y \<Longrightarrow> \<not> sw y x" "bubble_swaps sw xs"
  shows "inversions sw (bubble sw xs) < inversions sw xs"
  using assms
proof (induction sw xs rule: bubble.induct)
  case (1 sw x y zs)
  show ?case
  proof (cases "sw x y")
    case True
    have "inversions sw (bubble sw (x # zs)) \<le> inversions sw (x # zs)"
      using "1.prems"(1) by (rule inversions_bubble_le)
    with True "1.prems"(1) show ?thesis by simp
  next
    case False
    with "1.IH"(2) "1.prems" show ?thesis by simp
  qed
qed auto

lemma bubble_no_swap: "\<not> bubble_swaps sw xs \<Longrightarrow> bubble sw xs = xs"
  by (induction sw xs rule: bubble.induct) (auto split: if_splits)

lemma no_swap_sorted:
  "(\<And>x y z. \<not> sw x y \<Longrightarrow> \<not> sw y z \<Longrightarrow> \<not> sw x z) \<Longrightarrow> \<not> bubble_swaps sw xs \<Longrightarrow>
   sorted_wrt (\<lambda>x y. \<not> sw x y) xs"
proof (induction xs rule: induct_list012)
  case (3 x y zs)
  from "3.prems"(2) have xy: "\<not> sw x y" and "\<not> bubble_swaps sw (y # zs)"
    by (simp_all split: if_splits)
  from "3.IH"(2) [OF "3.prems"(1) this(2)]
  have sorted: "sorted_wrt (\<lambda>x y. \<not> sw x y) (y # zs)" .
  have "\<not> sw x z" if "z \<in> set zs" for z
  proof -
    have "\<not> sw y z" using sorted that by simp
    with xy show ?thesis by (rule "3.prems"(1))
  qed
  with xy sorted show ?case by simp
qed simp_all

lemma bubble_stable:
  "(\<And>x y. P x \<Longrightarrow> P y \<Longrightarrow> \<not> sw x y) \<Longrightarrow> filter P (bubble sw xs) = filter P xs"
proof (induction sw xs rule: bubble.induct)
  case (1 sw x y zs)
  then have "sw x y \<Longrightarrow> \<not> (P x \<and> P y)" by blast
  with "1.IH"(1,2) [OF _ "1.prems"] show ?case by (cases "sw x y") auto
qed auto

section \<open>The pass of the code\<close>

text \<open>Which neighbours the code exchanges, for each direction.\<close>

definition wants_swap :: "('a \<Rightarrow> 'a \<Rightarrow> int) \<Rightarrow> 32 word \<Rightarrow> 'a \<Rightarrow> 'a \<Rightarrow> bool" where
  "wants_swap cmp ascending x y \<longleftrightarrow> (if ascending \<noteq> 0 then 0 < cmp x y else cmp x y < 0)"

fun bubble_cells :: "('a \<Rightarrow> 'a \<Rightarrow> bool) \<Rightarrow> (nat \<times> 'a) list \<Rightarrow> (nat \<times> 'a) list" where
  "bubble_cells sw (c # d # ps) =
     (if sw (snd c) (snd d) then (fst c, snd d) # bubble_cells sw ((fst d, snd c) # ps)
      else c # bubble_cells sw (d # ps))"
| "bubble_cells sw ps = ps"

lemma bubble_cells_snd: "map snd (bubble_cells sw ps) = bubble sw (map snd ps)"
  by (induction sw ps rule: bubble_cells.induct) auto

lemma set_payload_rep:
  assumes rep: "ll_rep l (us @ c # vs)"
  shows "\<exists>l'. set_payload l (Some (fst c)) x = Inr l' \<and> ll_rep l' (us @ (fst c, x) # vs) \<and>
              ll_brk l' = ll_brk l \<and> ll_head l' = ll_head l"
proof -
  obtain n where n: "ll_nodes l (fst c) = Some n" "node_payload n = snd c"
    "seg (ll_nodes l) None (ll_head l) us (Some (fst c)) (node_prev n)"
    "seg (ll_nodes l) (Some (fst c)) (node_next n) vs None (ll_tail l)"
    using ll_rep_split [OF rep] by metis
  let ?l = "l\<lparr>ll_nodes := (ll_nodes l)(fst c \<mapsto> n\<lparr>node_payload := x\<rparr>)\<rparr>"
  have "set_payload l (Some (fst c)) x = Inr ?l"
    using n by (simp add: set_payload_def)
  moreover have "ll_rep ?l (us @ (fst c, x) # vs)"
    using rep n by (auto simp: ll_rep_def seg_append seg_Cons_iff)
  ultimately show ?thesis by auto
qed

lemma sort_pass_rep:
  assumes "ll_rep l (us @ c # vs)" and "\<And>x y. cmp x y \<noteq> - (2 ^ 31)" and "length vs \<le> fuel"
  shows "\<exists>l'. sort_pass fuel cmp asc l (Some (fst c)) s =
            Inr (l', s \<or> bubble_swaps (wants_swap cmp asc) (map snd (c # vs))) \<and>
          ll_rep l' (us @ bubble_cells (wants_swap cmp asc) (c # vs)) \<and>
          ll_brk l' = ll_brk l \<and> ll_head l' = ll_head l"
  using assms(1,3)
proof (induction vs arbitrary: us c l s fuel)
  case Nil
  obtain n where "ll_nodes l (fst c) = Some n" "node_next n = None"
    using ll_rep_split [OF Nil.prems(1)] by (metis (full_types))
  then show ?case using Nil.prems by (simp add: sort_pass.simps)
next
  case (Cons d vs)
  then obtain k where fuel: "fuel = Suc k" "length vs \<le> k" by (cases fuel) auto
  let ?sw = "wants_swap cmp asc"
  obtain n where n: "ll_nodes l (fst c) = Some n" "node_payload n = snd c" "node_next n = Some (fst d)"
    using ll_rep_split [OF Cons.prems(1)] by (metis list.sel(1) list.discI)
  obtain n' where n': "ll_nodes l (fst d) = Some n'" "node_payload n' = snd d"
    using ll_rep_split [of l "us @ [c]" d vs] Cons.prems(1) by auto
  obtain r where cmp: "(if asc \<noteq> 0 then int_negate (cmp (snd c) (snd d)) else Inr (cmp (snd c) (snd d))) = Inr r"
    and r: "r < 0 \<longleftrightarrow> ?sw (snd c) (snd d)"
    using assms(2) by (cases "asc = 0") (auto simp: int_negate_def wants_swap_def)
  show ?case
  proof (cases "?sw (snd c) (snd d)")
    case True
    obtain l1 where l1: "set_payload l (Some (fst c)) (snd d) = Inr l1"
      "ll_rep l1 (us @ (fst c, snd d) # d # vs)" "ll_brk l1 = ll_brk l" "ll_head l1 = ll_head l"
      using set_payload_rep [OF Cons.prems(1)] by blast
    then obtain l2 where l2: "set_payload l1 (Some (fst d)) (snd c) = Inr l2"
      "ll_rep l2 ((us @ [(fst c, snd d)]) @ (fst d, snd c) # vs)" "ll_brk l2 = ll_brk l" "ll_head l2 = ll_head l"
      using set_payload_rep [of l1 "us @ [(fst c, snd d)]" d vs "snd c"] by auto
    obtain m where m: "ll_nodes l2 (fst c) = Some m" "node_next m = Some (fst d)"
      using ll_rep_split [of l2 us "(fst c, snd d)" "(fst d, snd c) # vs"] l2(2) by auto
    from Cons.IH [OF l2(2) fuel(2), of True] True show ?thesis
      using n n' cmp r fuel l1(1) l2(1,3,4) m
      by (subst sort_pass.simps) auto
  next
    case False
    have "ll_rep l ((us @ [c]) @ d # vs)" using Cons.prems(1) by simp
    from Cons.IH [OF this fuel(2), of s] False show ?thesis
      using n n' cmp r fuel
      by (subst sort_pass.simps) auto
  qed
qed

section \<open>The whole sort\<close>

text \<open>
  The contract of the comparator in LinkedList.h (negative, zero or positive as the first
  argument is smaller, equal or larger), with the sign of the result only, and no result
  that the negation for ascending order would overflow on.
\<close>

locale payload_comparator =
  fixes cmp :: "'a \<Rightarrow> 'a \<Rightarrow> int"
  assumes cmp_flip: "cmp x y < 0 \<longleftrightarrow> 0 < cmp y x"
    and cmp_trans: "cmp x y \<le> 0 \<Longrightarrow> cmp y z \<le> 0 \<Longrightarrow> cmp x z \<le> 0"
    and cmp_range: "cmp x y \<noteq> - (2 ^ 31)"
begin

lemma swap_asym: "wants_swap cmp asc x y \<Longrightarrow> \<not> wants_swap cmp asc y x"
  using cmp_flip [of x y] cmp_flip [of y x] by (auto simp: wants_swap_def split: if_splits)

lemma no_swap_iff: "\<not> wants_swap cmp asc x y \<longleftrightarrow> (if asc \<noteq> 0 then cmp x y \<le> 0 else cmp y x \<le> 0)"
  using cmp_flip [of x y] by (auto simp: wants_swap_def)

lemma no_swap_trans:
  "\<not> wants_swap cmp asc x y \<Longrightarrow> \<not> wants_swap cmp asc y z \<Longrightarrow> \<not> wants_swap cmp asc x z"
  using cmp_trans [of x y z] cmp_trans [of z y x] by (auto simp: no_swap_iff split: if_splits)

lemma cmp_zero_no_swap:
  assumes "cmp x k = 0" "cmp y k = 0"
  shows "\<not> wants_swap cmp asc x y"
proof -
  have "cmp k x \<le> 0" "cmp k y \<le> 0" using assms cmp_flip [of x k] cmp_flip [of y k] by auto
  then have "cmp x y \<le> 0" "cmp y x \<le> 0"
    using assms cmp_trans [of x k y] cmp_trans [of y k x] by auto
  then show ?thesis by (auto simp: no_swap_iff)
qed

lemma sort_loop_rep:
  assumes "ll_rep l (c # ps)" "inversions (wants_swap cmp asc) (map snd (c # ps)) < fuel"
  shows "\<exists>l' qs. sort_loop fuel cmp asc l = Inr l' \<and> ll_rep l' qs \<and>
            mset (map snd qs) = mset (map snd (c # ps)) \<and>
            sorted_wrt (\<lambda>x y. \<not> wants_swap cmp asc x y) (map snd qs) \<and>
            (\<forall>k. filter (\<lambda>x. cmp x k = 0) (map snd qs) = filter (\<lambda>x. cmp x k = 0) (map snd (c # ps)))"
  using assms
proof (induction fuel arbitrary: l c ps)
  case 0
  then show ?case by simp
next
  case (Suc fuel)
  let ?sw = "wants_swap cmp asc" and ?xs = "map snd (c # ps)"
  let ?cs = "bubble_cells ?sw (c # ps)"
  have snd_cs: "map snd ?cs = bubble ?sw ?xs" by (rule bubble_cells_snd)
  have len: "length ps \<le> ll_brk l" using ll_rep_length_brk [OF Suc.prems(1)] by simp
  have hd: "ll_head l = Some (fst c)" using Suc.prems(1) by (rule ll_rep_head)
  obtain l' where l': "sort_pass (ll_brk l) cmp asc l (Some (fst c)) False = Inr (l', bubble_swaps ?sw ?xs)"
    "ll_rep l' ?cs"
    using sort_pass_rep [of l "[]" c ps cmp "ll_brk l" asc False] Suc.prems(1) cmp_range len by auto
  show ?case
  proof (cases "bubble_swaps ?sw ?xs")
    case True
    have "?cs \<noteq> []" by (cases ps) auto
    then obtain d qs where dqs: "?cs = d # qs" by (cases ?cs) auto
    have "inversions ?sw (bubble ?sw ?xs) < inversions ?sw ?xs"
      using swap_asym True by (intro inversions_bubble_less) auto
    with Suc.prems(2) snd_cs dqs have "inversions ?sw (map snd (d # qs)) < fuel" by simp
    from Suc.IH [OF l'(2) [unfolded dqs] this] obtain l2 rs where rs:
      "sort_loop fuel cmp asc l' = Inr l2" "ll_rep l2 rs" "mset (map snd rs) = mset (map snd ?cs)"
      "sorted_wrt (\<lambda>x y. \<not> ?sw x y) (map snd rs)"
      "\<forall>k. filter (\<lambda>x. cmp x k = 0) (map snd rs) = filter (\<lambda>x. cmp x k = 0) (map snd ?cs)"
      unfolding dqs by auto
    have "\<forall>k. filter (\<lambda>x. cmp x k = 0) (bubble ?sw ?xs) = filter (\<lambda>x. cmp x k = 0) ?xs"
      using cmp_zero_no_swap by (intro allI bubble_stable) blast
    with rs snd_cs show ?thesis
      using l'(1) hd True by (intro exI [of _ l2] exI [of _ rs]) simp
  next
    case False
    have "bubble ?sw ?xs = ?xs" using False by (rule bubble_no_swap)
    moreover have "sorted_wrt (\<lambda>x y. \<not> ?sw x y) ?xs"
      using no_swap_trans False by (intro no_swap_sorted) auto
    ultimately show ?thesis
      using l' hd False snd_cs by (intro exI [of _ l'] exI [of _ ?cs]) simp
  qed
qed

text \<open>The sort returns, with the payloads in order, none lost, and equal ones in their old order.\<close>

lemma sort_correct:
  assumes "ll_inv l"
  shows "\<exists>l'. SortLinkedList l asc cmp = Inr l' \<and> ll_inv l' \<and> mset (ll_list l') = mset (ll_list l) \<and>
            sorted_wrt (\<lambda>x y. if asc \<noteq> 0 then cmp x y \<le> 0 else cmp y x \<le> 0) (ll_list l') \<and>
            (\<forall>k. filter (\<lambda>x. cmp x k = 0) (ll_list l') = filter (\<lambda>x. cmp x k = 0) (ll_list l))"
proof (cases "ll_num_elements l < 2")
  case True
  then have "length (ll_list l) < 2"
    using ll_num_eq [OF assms] by (simp add: word_less_nat_alt)
  then have "sorted_wrt P (ll_list l)" for P
    by (cases "ll_list l"; cases "tl (ll_list l)") auto
  with True assms show ?thesis by (auto simp: SortLinkedList_def)
next
  case False
  have rep: "ll_rep l (ll_cells l)" using assms by (simp add: ll_inv_def)
  have "2 \<le> length (ll_cells l)"
    using False ll_num_eq [OF assms] by (simp add: word_less_nat_alt length_ll_cells)
  then obtain c ps where cs: "ll_cells l = c # ps" by (cases "ll_cells l") auto
  let ?n = "length (c # ps)"
  have "inversions (wants_swap cmp asc) (map snd (c # ps)) \<le> ?n * ?n"
    using inversions_bound [of _ "map snd (c # ps)"] by simp
  also have "\<dots> \<le> ll_brk l * ll_brk l"
    using ll_rep_length_brk [OF rep] unfolding cs by (intro mult_le_mono) simp_all
  finally have "inversions (wants_swap cmp asc) (map snd (c # ps)) < Suc (ll_brk l * ll_brk l)" by simp
  from sort_loop_rep [OF rep [unfolded cs] this] obtain l' qs where
    "sort_loop (Suc (ll_brk l * ll_brk l)) cmp asc l = Inr l'" "ll_rep l' qs"
    "mset (map snd qs) = mset (map snd (c # ps))"
    "sorted_wrt (\<lambda>x y. \<not> wants_swap cmp asc x y) (map snd qs)"
    "\<forall>k. filter (\<lambda>x. cmp x k = 0) (map snd qs) = filter (\<lambda>x. cmp x k = 0) (map snd (c # ps))"
    by blast
  with False cs show ?thesis
    by (auto simp: SortLinkedList_def ll_rep_inv ll_rep_list ll_list_def [of l] no_swap_iff)
qed

end

end
