(* ===== verification/LinkedListSpec.thy ===== *)
theory LinkedListSpec
  imports LinkedListOps LinkedListSort
begin

text \<open>
  The properties of the linked list, for its clients.
\<close>

section \<open>Any sequence of calls\<close>

text \<open>
  Property C12: starting from a new list, any sequence of calls that keeps to the contract of
  LinkedList.h gives, call by call, the answers of the same client on a plain list with a
  position in it, whatever calls of \<open>malloc\<close> fail; no call reads a freed or a null node, no
  check fails, and the representation invariant holds at the end.
\<close>

theorem linked_list_refines_list:
  assumes "spec_run cs (m, [], None) = Some (rs, m', xs, p)"
  shows "\<exists>l c. ll_run cs (m, empty_list, None) = Inr (rs, m', l, c) \<and> ll_inv l \<and> ll_list l = xs \<and>
    (\<forall>i. p = Some i \<longrightarrow> (\<exists>it. c = Some it \<and> it_at l it i))"
proof -
  have "session_rel (m, empty_list, None) (m, [], None)" by simp
  from ll_run_refines [OF this assms] obtain s' where
    s: "ll_run cs (m, empty_list, None) = Inr (rs, s')" "session_rel s' (m', xs, p)" by blast
  then show ?thesis by (cases s') (auto split: option.splits)
qed

definition demo_session :: "nat ll_cmd list" where
  "demo_session = [Push 2, Append 3, Push 1, MakeIter 1, Prev, InsertBefore 9, Delete, Get, Slice, Pop, Append 7, Num]"

lemma linked_list_refines_list_witness:
  "\<exists>l c. ll_run demo_session ([True, True, True, True, True, False], empty_list, None) =
     Inr ([Flag True, Flag True, Flag True, Flag True, Flag True, Flag True, Flag True, Elem (Some 3),
           Elem (Some 3), Elem (Some 1), Flag False, Count 1], [], l, c) \<and> ll_inv l \<and> ll_list l = [9]"
proof -
  have "spec_run demo_session ([True, True, True, True, True, False], [], None) =
     Some ([Flag True, Flag True, Flag True, Flag True, Flag True, Flag True, Flag True, Elem (Some 3),
            Elem (Some 3), Elem (Some 1), Flag False, Count 1], [], [9], None)"
    by (simp add: demo_session_def alloc_insert_def)
  from linked_list_refines_list [OF this] show ?thesis by auto
qed

section \<open>Sorting\<close>

text \<open>
  Property C27: for a comparator that orders its arguments as LinkedList.h asks,
  \<open>SortLinkedList\<close> returns with a well-formed list that holds the same payloads, in
  ascending order when \<open>ascending\<close> is not zero and in descending order otherwise, and
  payloads that compare equal keep their order.
\<close>

theorem SortLinkedList_sorts:
  assumes "payload_comparator cmp" "ll_inv l"
  shows "\<exists>l'. SortLinkedList l asc cmp = Inr l' \<and> ll_inv l' \<and> mset (ll_list l') = mset (ll_list l) \<and>
            sorted_wrt (\<lambda>x y. if asc \<noteq> 0 then cmp x y \<le> 0 else cmp y x \<le> 0) (ll_list l') \<and>
            (\<forall>k. filter (\<lambda>x. cmp x k = 0) (ll_list l') = filter (\<lambda>x. cmp x k = 0) (ll_list l))"
  using assms by (rule payload_comparator.sort_correct)

text \<open>The comparator of example_program_ll.c.\<close>

definition ExamplePayloadComparator :: "int \<Rightarrow> int \<Rightarrow> int" where
  "ExamplePayloadComparator p1 p2 = (if p1 < p2 then - 1 else if p1 > p2 then 1 else 0)"

interpretation example: payload_comparator ExamplePayloadComparator
  by unfold_locales (auto simp: ExamplePayloadComparator_def split: if_splits)

definition demo_list :: "int linked_list" where
  "demo_list = (case add_all AppendLinkedList [] empty_list [3, 1, 2] of Inr (_, _, l) \<Rightarrow> l | Inl _ \<Rightarrow> empty_list)"

lemma demo_list: "ll_inv demo_list" "ll_list demo_list = [3, 1, 2]"
  using ll.append_all [of "empty_list :: int linked_list" "[3, 1, 2]" "[]"] by (auto simp: demo_list_def)

lemma SortLinkedList_sorts_witness:
  "\<exists>l'. SortLinkedList demo_list 1 ExamplePayloadComparator = Inr l' \<and> mset (ll_list l') = {#1, 2, 3#} \<and>
     sorted_wrt (\<lambda>x y. ExamplePayloadComparator x y \<le> 0) (ll_list l')"
  using SortLinkedList_sorts [OF example.payload_comparator_axioms demo_list(1), of 1]
  by (auto simp: demo_list(2) add_mset_commute)

section \<open>Queues and stacks\<close>

text \<open>
  Payloads appended to a new list and popped come back in the order they were
  appended, as many as there were, and leave the list empty.
\<close>

theorem append_pop_fifo:
  assumes "length xs < 2 ^ 32" "never_fails m"
  shows "\<exists>m' l' l''. add_all AppendLinkedList m empty_list xs = Inr (True, m', l') \<and>
     take_all PopLinkedList (length xs) l' = Inr (xs, l'') \<and> ll_inv l'' \<and> ll_list l'' = []"
  by (rule ll.queue_fifo) (use assms in simp_all)

lemma append_pop_fifo_witness:
  "\<exists>m' l' l''. add_all AppendLinkedList [] empty_list [4, 5, 6 :: nat] = Inr (True, m', l') \<and>
     take_all PopLinkedList (length [4, 5, 6 :: nat]) l' = Inr ([4, 5, 6], l'') \<and> ll_inv l'' \<and> ll_list l'' = []"
  by (rule append_pop_fifo) simp_all

text \<open>
  Freeing a well-formed list returns and hands every payload to the caller's
  free function once, head to tail.
\<close>

theorem FreeLinkedList_frees_all:
  assumes "ll_inv l"
  shows "FreeLinkedList l = Inr (ll_list l)"
  using assms by (rule Free_list)

lemma FreeLinkedList_frees_all_witness: "FreeLinkedList demo_list = Inr [3, 1, 2]"
  using FreeLinkedList_frees_all [OF demo_list(1)] by (simp add: demo_list(2))

end
