(* ===== verification/HashTable.thy ===== *)
theory HashTable
  imports LinkedList
begin

text \<open>
  The chained hash table of src/hw1/HashTable.c: the FNV hash, the table and its iterator.

  A bucket is a list object of LinkedList whose payloads are the \<open>HTKeyValue\<close> records the
  code allocates for it; a record is reachable only through its node, so it is the payload
  itself.  The table argument is never \<open>NULL\<close> by type.  An iterator's \<open>bucket_it\<close> is
  dereferenced only while the iterator is valid, and then it walks the chain of
  \<open>bucket_num\<close>, which is how the model finds the list it points into.
\<close>

section \<open>Hashing\<close>

definition FNV1_64_INIT :: "64 word" where
  "FNV1_64_INIT = 0xcbf29ce484222325"

definition FNV_64_PRIME :: "64 word" where
  "FNV_64_PRIME = 0x100000001b3"

text \<open>The loop over the buffer; the caller passes a buffer of at least \<open>len\<close> bytes.\<close>

fun FNV_loop :: "byte list \<Rightarrow> nat \<Rightarrow> 64 word \<Rightarrow> 64 word res" where
  "FNV_loop bp 0 hval = Inr hval"
| "FNV_loop [] (Suc n) hval = Inl Undefined_Behaviour"
| "FNV_loop (b # bp) (Suc n) hval = FNV_loop bp n ((hval XOR ucast b) * FNV_64_PRIME)"

definition FNVHash64 :: "byte list \<Rightarrow> HWSize_t \<Rightarrow> HTKey_t res" where
  "FNVHash64 buffer len = FNV_loop buffer (unat len) FNV1_64_INIT"

fun FNVHashInt64_bytes :: "nat \<Rightarrow> 64 word \<Rightarrow> byte list" where
  "FNVHashInt64_bytes 0 hashme = []"
| "FNVHashInt64_bytes (Suc n) hashme =
     ucast (hashme AND 0x00000000000000FF) # FNVHashInt64_bytes n (drop_bit 8 hashme)"

definition FNVHashInt64 :: "64 word \<Rightarrow> HTKey_t res" where
  "FNVHashInt64 hashval = FNVHash64 (FNVHashInt64_bytes 8 hashval) 8"

section \<open>Data\<close>

record 'v ht_kv =
  kv_key :: HTKey_t
  kv_value :: 'v

type_synonym 'v chain = "'v ht_kv linked_list"

record 'v hash_table =
  ht_num_buckets :: HWSize_t
  ht_num_elements :: HWSize_t
  ht_buckets :: "'v chain list"

record ht_iter =
  hti_valid :: bool
  hti_bucket_num :: HWSize_t
  hti_bucket_it :: "ll_iter option"

definition NumElementsInHashTable :: "'v hash_table \<Rightarrow> HWSize_t" where
  "NumElementsInHashTable t = ht_num_elements t"

definition HashKeyToBucketNum :: "'v hash_table \<Rightarrow> HTKey_t \<Rightarrow> HWSize_t res" where
  "HashKeyToBucketNum t key =
     (if ht_num_buckets t = 0 then Inl Undefined_Behaviour
      else Inr (ucast (key mod ucast (ht_num_buckets t))))"

definition set_bucket :: "'v hash_table \<Rightarrow> HWSize_t \<Rightarrow> 'v chain \<Rightarrow> 'v hash_table" where
  "set_bucket t b l = t\<lparr>ht_buckets := (ht_buckets t)[unat b := l]\<rparr>"

section \<open>Allocation and freeing\<close>

text \<open>
  \<open>LLNullFree\<close> and \<open>HTNullFree\<close> do nothing: the payloads a call hands to them are dropped.
\<close>

fun free_chains :: "'v chain list \<Rightarrow> unit res" where
  "free_chains [] = Inr ()"
| "free_chains (l # ls) = bindE (FreeLinkedList l) (\<lambda>_. free_chains ls)"

fun alloc_buckets :: "nat \<Rightarrow> allocator \<Rightarrow> 'v chain list \<Rightarrow> ('v chain list option \<times> allocator) res" where
  "alloc_buckets 0 m bs = Inr (Some bs, m)"
| "alloc_buckets (Suc n) m bs =
     (case AllocateLinkedList m of
        (None, m') \<Rightarrow> bindE (free_chains bs) (\<lambda>_. Inr (None, m'))
      | (Some l, m') \<Rightarrow> alloc_buckets n m' (bs @ [l]))"

definition AllocateHashTable :: "allocator \<Rightarrow> HWSize_t \<Rightarrow> ('v hash_table option \<times> allocator) res" where
  "AllocateHashTable m num_buckets =
     (if num_buckets = 0 then Inr (None, m)
      else case malloc m of (ok, m) \<Rightarrow>
      if \<not> ok then Inr (None, m)
      else case malloc m of (ok, m) \<Rightarrow>
      if \<not> ok then Inr (None, m)
      else bindE (alloc_buckets (unat num_buckets) m []) (\<lambda>(bs, m).
        Inr (map_option (\<lambda>bs. \<lparr>ht_num_buckets = num_buckets, ht_num_elements = 0, ht_buckets = bs\<rparr>) bs, m)))"

text \<open>
  Popping every pair off one chain; each pop lowers \<open>num_elements\<close> by one, which bounds
  the loop.  The result is the values handed to \<open>value_free_function\<close>.
\<close>

fun drain_chain :: "nat \<Rightarrow> 'v chain \<Rightarrow> ('v list \<times> 'v chain) res" where
  "drain_chain fuel bl =
     (if NumElementsInLinkedList bl = 0 then Inr ([], bl)
      else case fuel of
        0 \<Rightarrow> Inl Out_Of_Fuel
      | Suc fuel \<Rightarrow>
          bindE (PopLinkedList bl) (\<lambda>(kv, bl).
          case kv of
            None \<Rightarrow> Inl Verify333_Failed
          | Some kv \<Rightarrow> bindE (drain_chain fuel bl) (\<lambda>(vs, bl). Inr (kv_value kv # vs, bl))))"

declare drain_chain.simps [simp del]

fun free_buckets :: "'v chain list \<Rightarrow> 'v list res" where
  "free_buckets [] = Inr []"
| "free_buckets (bl # bls) =
     bindE (drain_chain (unat (ll_num_elements bl)) bl) (\<lambda>(vs, bl).
     bindE (FreeLinkedList bl) (\<lambda>_.
     bindE (free_buckets bls) (\<lambda>vs'. Inr (vs @ vs'))))"

definition FreeHashTable :: "'v hash_table \<Rightarrow> 'v list res" where
  "FreeHashTable t = free_buckets (take (unat (ht_num_buckets t)) (ht_buckets t))"

section \<open>Searching a chain, lookup and removal\<close>

text \<open>
  The result carries the pair last read through \<open>oldkeyvalue\<close> and the iterator, which the
  loop moves.  A walk visits each node at most once, and \<open>ll_brk\<close> bounds their number.
\<close>

fun chain_search :: "nat \<Rightarrow> 'v chain \<Rightarrow> ll_iter \<Rightarrow> HTKey_t \<Rightarrow> (bool \<times> 'v ht_kv \<times> ll_iter) res" where
  "chain_search fuel l it newkey =
     bindE (LLIteratorGetPayload l it) (\<lambda>kv.
     if kv_key kv = newkey then Inr (True, kv, it)
     else bindE (LLIteratorNext l it) (\<lambda>(more, it).
       if \<not> more then Inr (False, kv, it)
       else case fuel of 0 \<Rightarrow> Inl Out_Of_Fuel | Suc fuel \<Rightarrow> chain_search fuel l it newkey))"

declare chain_search.simps [simp del]

definition ChainContainsKey :: "'v chain \<Rightarrow> ll_iter \<Rightarrow> HTKey_t \<Rightarrow> (bool \<times> 'v ht_kv \<times> ll_iter) res" where
  "ChainContainsKey l it newkey = chain_search (ll_brk l) l it newkey"

definition LookupHashTable ::
  "allocator \<Rightarrow> 'v hash_table \<Rightarrow> HTKey_t \<Rightarrow> (int \<times> 'v ht_kv option \<times> allocator) res" where
  "LookupHashTable m t key =
     bindE (HashKeyToBucketNum t key) (\<lambda>b.
     bindE (index_res (ht_buckets t) (unat b)) (\<lambda>check_chain.
     if NumElementsInLinkedList check_chain = 0 then Inr (0, None, m)
     else bindE (LLMakeIterator m check_chain 0) (\<lambda>(it, m).
       case it of
         None \<Rightarrow> Inr (- 1, None, m)
       | Some it \<Rightarrow>
           bindE (ChainContainsKey check_chain it key) (\<lambda>(found, kv, it).
           if found then Inr (1, Some kv, m) else Inr (0, None, m)))))"

definition RemoveFromHashTable ::
  "allocator \<Rightarrow> 'v hash_table \<Rightarrow> HTKey_t \<Rightarrow> (int \<times> 'v ht_kv option \<times> allocator \<times> 'v hash_table) res" where
  "RemoveFromHashTable m t key =
     bindE (HashKeyToBucketNum t key) (\<lambda>b.
     bindE (index_res (ht_buckets t) (unat b)) (\<lambda>check_chain.
     if NumElementsInLinkedList check_chain = 0 then Inr (0, None, m, t)
     else bindE (LLMakeIterator m check_chain 0) (\<lambda>(it, m).
       case it of
         None \<Rightarrow> Inr (- 1, None, m, t)
       | Some it \<Rightarrow>
           bindE (ChainContainsKey check_chain it key) (\<lambda>(found, kv, it).
           if found then
             bindE (LLIteratorDelete check_chain it) (\<lambda>(_, _, chain, it).
             Inr (1, Some kv, m,
                  (set_bucket t b chain)\<lparr>ht_num_elements := ht_num_elements t - 1\<rparr>))
           else Inr (0, None, m, t)))))"

section \<open>Iterators\<close>

fun find_bucket :: "nat \<Rightarrow> nat \<Rightarrow> 'v chain list \<Rightarrow> nat option res" where
  "find_bucket 0 i bs = Inr None"
| "find_bucket (Suc n) i bs =
     bindE (index_res bs i) (\<lambda>l.
     if 0 < NumElementsInLinkedList l then Inr (Some i) else find_bucket n (Suc i) bs)"

definition HashTableMakeIterator ::
  "allocator \<Rightarrow> 'v hash_table \<Rightarrow> (ht_iter option \<times> allocator) res" where
  "HashTableMakeIterator m t =
     (case malloc m of (ok, m) \<Rightarrow>
      if \<not> ok then Inr (None, m)
      else if ht_num_elements t = 0 then
        Inr (Some \<lparr>hti_valid = False, hti_bucket_num = 0, hti_bucket_it = None\<rparr>, m)
      else
        bindE (find_bucket (unat (ht_num_buckets t)) 0 (ht_buckets t)) (\<lambda>found.
        case found of
          None \<Rightarrow> Inl Verify333_Failed
        | Some i \<Rightarrow>
            bindE (index_res (ht_buckets t) i) (\<lambda>l.
            bindE (LLMakeIterator m l 0) (\<lambda>(bucket_it, m).
            case bucket_it of
              None \<Rightarrow> Inr (None, m)
            | Some llit \<Rightarrow>
                Inr (Some \<lparr>hti_valid = True, hti_bucket_num = of_nat i, hti_bucket_it = Some llit\<rparr>, m)))))"

definition HTIteratorFree :: "ht_iter \<Rightarrow> ht_iter" where
  "HTIteratorFree it = it\<lparr>hti_bucket_it := None, hti_valid := False\<rparr>"

fun find_next_bucket :: "nat \<Rightarrow> 'v hash_table \<Rightarrow> HWSize_t \<Rightarrow> (bool \<times> HWSize_t \<times> 'v chain) res" where
  "find_next_bucket fuel t bucket_num =
     (let bucket_num = bucket_num + 1 in
      bindE (index_res (ht_buckets t) (unat bucket_num)) (\<lambda>l.
      if NumElementsInLinkedList l = 0 \<and> bucket_num < ht_num_buckets t - 1 then
        (case fuel of 0 \<Rightarrow> Inl Out_Of_Fuel | Suc fuel \<Rightarrow> find_next_bucket fuel t bucket_num)
      else Inr (0 < NumElementsInLinkedList l, bucket_num, l)))"

declare find_next_bucket.simps [simp del]

definition FindNextNonEmptyBucket ::
  "'v hash_table \<Rightarrow> ht_iter \<Rightarrow> (bool \<times> ht_iter \<times> 'v chain) res" where
  "FindNextNonEmptyBucket t it =
     bindE (find_next_bucket (unat (ht_num_buckets t)) t (hti_bucket_num it)) (\<lambda>(found, b, l).
     Inr (found, it\<lparr>hti_bucket_num := b\<rparr>, l))"

text \<open>The chain iterator of a valid iterator; a \<open>NULL\<close> one fails the check of the callee.\<close>

definition hti_chain :: "'v hash_table \<Rightarrow> ht_iter \<Rightarrow> ('v chain \<times> ll_iter) res" where
  "hti_chain t it =
     (case hti_bucket_it it of
        None \<Rightarrow> Inl Verify333_Failed
      | Some llit \<Rightarrow> bindE (index_res (ht_buckets t) (unat (hti_bucket_num it))) (\<lambda>l. Inr (l, llit)))"

definition HTIteratorNext ::
  "allocator \<Rightarrow> 'v hash_table \<Rightarrow> ht_iter \<Rightarrow> (int \<times> allocator \<times> ht_iter) res" where
  "HTIteratorNext m t it =
     (if \<not> hti_valid it then Inr (0, m, it)
      else
        bindE (hti_chain t it) (\<lambda>(l, llit).
        bindE (LLIteratorNext l llit) (\<lambda>(moved, llit).
        if moved then Inr (1, m, it\<lparr>hti_bucket_it := Some llit\<rparr>)
        else if hti_bucket_num it = ht_num_buckets t - 1 then
          Inr (0, m, it\<lparr>hti_valid := False\<rparr>)
        else
          bindE (FindNextNonEmptyBucket t it) (\<lambda>(found, it, next_bucket).
          if \<not> found then Inr (0, m, it\<lparr>hti_valid := False\<rparr>)
          else
            bindE (LLMakeIterator m next_bucket 0) (\<lambda>(new_bit, m).
            case new_bit of
              None \<Rightarrow> Inr (0, m, it\<lparr>hti_valid := False\<rparr>)
            | Some new_bit \<Rightarrow> Inr (1, m, it\<lparr>hti_bucket_it := Some new_bit\<rparr>))))))"

definition HTIteratorPastEnd :: "'v hash_table \<Rightarrow> ht_iter \<Rightarrow> int" where
  "HTIteratorPastEnd t it =
     (if \<not> hti_valid it \<or> NumElementsInHashTable t = 0 then 1 else 0)"

text \<open>\<open>None\<close> is the return value 0, \<open>Some kv\<close> the value 1 with the pair.\<close>

definition HTIteratorGet :: "'v hash_table \<Rightarrow> ht_iter \<Rightarrow> 'v ht_kv option res" where
  "HTIteratorGet t it =
     (if \<not> hti_valid it \<or> ht_num_elements t = 0 then Inr None
      else bindE (hti_chain t it) (\<lambda>(l, llit).
           bindE (LLIteratorGetPayload l llit) (\<lambda>kv. Inr (Some kv))))"

definition HTIteratorDelete ::
  "allocator \<Rightarrow> 'v hash_table \<Rightarrow> ht_iter \<Rightarrow>
   (int \<times> 'v ht_kv option \<times> allocator \<times> 'v hash_table \<times> ht_iter) res" where
  "HTIteratorDelete m t it =
     bindE (HTIteratorGet t it) (\<lambda>kv.
     case kv of
       None \<Rightarrow> Inr (0, None, m, t, it)
     | Some kv \<Rightarrow>
         bindE (HTIteratorNext m t it) (\<lambda>(res, m, it).
         let retval = (if res = 0 then 2 else 1) in
         bindE (RemoveFromHashTable m t (kv_key kv)) (\<lambda>(res, keyvalue, m, t).
         bindE (Verify333 (res = 1)) (\<lambda>_.
         case keyvalue of
           None \<Rightarrow> Inl Undefined_Behaviour
         | Some keyvalue \<Rightarrow>
             bindE (Verify333 (kv_key kv = kv_key keyvalue)) (\<lambda>_.
             bindE (Verify333 (kv_value kv = kv_value keyvalue)) (\<lambda>_.
             Inr (retval, Some keyvalue, m, t, it)))))))"

section \<open>Insertion and resizing\<close>

text \<open>The body of \<open>InsertHashTable\<close> after the call of \<open>ResizeHashtable\<close>.\<close>

definition insert_chain ::
  "allocator \<Rightarrow> 'v hash_table \<Rightarrow> 'v ht_kv \<Rightarrow>
   (int \<times> 'v ht_kv option \<times> allocator \<times> 'v hash_table) res" where
  "insert_chain m t newkeyvalue =
     bindE (HashKeyToBucketNum t (kv_key newkeyvalue)) (\<lambda>b.
     bindE (index_res (ht_buckets t) (unat b)) (\<lambda>insertchain.
     case malloc m of (ok, m) \<Rightarrow>
     if \<not> ok then Inr (0, None, m, t)
     else if NumElementsInLinkedList insertchain = 0 then
       bindE (PushLinkedList m insertchain newkeyvalue) (\<lambda>(ok, m, chain).
       if \<not> ok then Inr (0, None, m, t)
       else Inr (1, None, m, (set_bucket t b chain)\<lparr>ht_num_elements := ht_num_elements t + 1\<rparr>))
     else
       bindE (LLMakeIterator m insertchain 0) (\<lambda>(it, m).
       case it of
         None \<Rightarrow> Inr (0, None, m, t)
       | Some it \<Rightarrow>
           bindE (ChainContainsKey insertchain it (kv_key newkeyvalue)) (\<lambda>(found, old_pair, it).
           if found then
             bindE (LLIteratorDelete insertchain it) (\<lambda>(_, _, chain, it).
             bindE (PushLinkedList m chain newkeyvalue) (\<lambda>(_, m, chain).
             Inr (2, Some old_pair, m, set_bucket t b chain)))
           else
             bindE (PushLinkedList m insertchain newkeyvalue) (\<lambda>(ok, m, chain).
             if \<not> ok then Inr (0, None, m, t)
             else Inr (1, None, m,
                       (set_bucket t b chain)\<lparr>ht_num_elements := ht_num_elements t + 1\<rparr>))))))"

type_synonym 'v ht_insert =
  "allocator \<Rightarrow> 'v hash_table \<Rightarrow> 'v ht_kv \<Rightarrow>
   (int \<times> 'v ht_kv option \<times> allocator \<times> 'v hash_table) res"

text \<open>
  The loop of \<open>ResizeHashtable\<close> that copies the entries: \<open>False\<close> when an insertion did not
  return 1.  \<open>ins\<close> is \<open>InsertHashTable\<close>, which the loop calls recursively.
\<close>

fun copy_entries ::
  "nat \<Rightarrow> 'v ht_insert \<Rightarrow> allocator \<Rightarrow> 'v hash_table \<Rightarrow> ht_iter \<Rightarrow> 'v hash_table \<Rightarrow>
   (bool \<times> allocator \<times> 'v hash_table) res" where
  "copy_entries fuel ins m ht it newht =
     (if HTIteratorPastEnd ht it \<noteq> 0 then Inr (True, m, newht)
      else case fuel of
        0 \<Rightarrow> Inl Out_Of_Fuel
      | Suc fuel \<Rightarrow>
          bindE (HTIteratorGet ht it) (\<lambda>item.
          case item of
            None \<Rightarrow> Inl Verify333_Failed
          | Some item \<Rightarrow>
              bindE (ins m newht item) (\<lambda>(r, _, m, newht).
              if r \<noteq> 1 then Inr (False, m, newht)
              else bindE (HTIteratorNext m ht it) (\<lambda>(_, m, it).
                   copy_entries fuel ins m ht it newht))))"

declare copy_entries.simps [simp del]

definition ResizeHashtable ::
  "'v ht_insert \<Rightarrow> allocator \<Rightarrow> 'v hash_table \<Rightarrow> (allocator \<times> 'v hash_table) res" where
  "ResizeHashtable ins m ht =
     (if ht_num_elements ht < 3 * ht_num_buckets ht then Inr (m, ht)
      else
        bindE (AllocateHashTable m (ht_num_buckets ht * 9)) (\<lambda>(newht, m).
        case newht of
          None \<Rightarrow> Inr (m, ht)
        | Some newht \<Rightarrow>
            bindE (HashTableMakeIterator m ht) (\<lambda>(it, m).
            case it of
              None \<Rightarrow> bindE (FreeHashTable newht) (\<lambda>_. Inr (m, ht))
            | Some it \<Rightarrow>
                bindE (copy_entries (unat (ht_num_elements ht)) ins m ht it newht)
                  (\<lambda>(copied, m, newht).
                if \<not> copied then bindE (FreeHashTable newht) (\<lambda>_. Inr (m, ht))
                else bindE (FreeHashTable ht) (\<lambda>_. Inr (m, newht))))))"

text \<open>
  \<open>InsertHashTable\<close> and \<open>ResizeHashtable\<close> call each other: the copy of a table that is
  being resized may itself be resized.  The first argument bounds the nesting; a copy holds
  fewer elements than its original, so the number of elements bounds it.
\<close>

primrec InsertHashTable_nested :: "nat \<Rightarrow> 'v ht_insert" where
  "InsertHashTable_nested 0 = (\<lambda>m t kv. Inl Out_Of_Fuel)"
| "InsertHashTable_nested (Suc n) =
     (\<lambda>m t kv.
        bindE (ResizeHashtable (InsertHashTable_nested n) m t) (\<lambda>(m, t). insert_chain m t kv))"

definition InsertHashTable :: "'v ht_insert" where
  "InsertHashTable m t kv = InsertHashTable_nested (Suc (unat (ht_num_elements t))) m t kv"

end
