(* ===== verification/HashTableRep.thy ===== *)
theory HashTableRep
  imports HashTable LinkedListOps
begin

text \<open>
  What a hash table represents, and how each operation of HashTable changes it.

  \<open>ht_inv\<close> is the invariant of the table (every chain well formed, its keys distinct and
  hashed to it, the element counter exact); \<open>ht_map\<close> is the finite map it stands for and
  \<open>hti_at t it kvs\<close> says that the iterator \<open>it\<close> still has the entries \<open>kvs\<close> to visit.
\<close>

section \<open>Keys, chains and tables\<close>

abbreviation keys :: "'v ht_kv list \<Rightarrow> HTKey_t list" where
  "keys kvs \<equiv> map kv_key kvs"

definition kv_map :: "'v ht_kv list \<Rightarrow> HTKey_t \<Rightarrow> 'v option" where
  "kv_map kvs = map_of (map (\<lambda>kv. (kv_key kv, kv_value kv)) kvs)"

lemma kv_map_Nil [simp]: "kv_map [] k = None"
  by (simp add: kv_map_def)

lemma kv_map_Cons [simp]: "kv_map (kv # kvs) k = (if kv_key kv = k then Some (kv_value kv) else kv_map kvs k)"
  by (simp add: kv_map_def)

lemma kv_map_append: "kv_map (xs @ ys) k = (case kv_map xs k of None \<Rightarrow> kv_map ys k | Some v \<Rightarrow> Some v)"
  by (simp add: kv_map_def map_add_def split: option.splits)

lemma kv_map_None_iff: "kv_map kvs k = None \<longleftrightarrow> k \<notin> set (keys kvs)"
  by (induction kvs) auto

lemma kv_map_nth: "distinct (keys kvs) \<Longrightarrow> j < length kvs \<Longrightarrow> kv_map kvs (kv_key (kvs ! j)) = Some (kv_value (kvs ! j))"
proof (induction kvs arbitrary: j)
  case (Cons kv kvs)
  then show ?case by (cases j) force+
qed simp

lemma kv_map_Some: "kv_map kvs k = Some v \<Longrightarrow> \<lparr>kv_key = k, kv_value = v\<rparr> \<in> set kvs"
  by (induction kvs) (auto split: if_splits)

text \<open>A chain of the table: every key in it is new to it and hashes to its index.\<close>

definition chain_ok :: "nat \<Rightarrow> nat \<Rightarrow> 'v chain \<Rightarrow> bool" where
  "chain_ok n i l \<longleftrightarrow>
     ll_inv l \<and> distinct (keys (ll_list l)) \<and> (\<forall>kv \<in> set (ll_list l). unat (kv_key kv) mod n = i)"

definition ht_entries :: "'v hash_table \<Rightarrow> 'v ht_kv list" where
  "ht_entries t = concat (map ll_list (ht_buckets t))"

definition ht_map :: "'v hash_table \<Rightarrow> HTKey_t \<Rightarrow> 'v option" where
  "ht_map t = kv_map (ht_entries t)"

definition ht_inv :: "'v hash_table \<Rightarrow> bool" where
  "ht_inv t \<longleftrightarrow>
     0 < unat (ht_num_buckets t) \<and> length (ht_buckets t) = unat (ht_num_buckets t) \<and>
     (\<forall>i < length (ht_buckets t). chain_ok (unat (ht_num_buckets t)) i (ht_buckets t ! i)) \<and>
     unat (ht_num_elements t) = length (ht_entries t)"

definition bucket_of :: "'v hash_table \<Rightarrow> HTKey_t \<Rightarrow> nat" where
  "bucket_of t k = unat k mod unat (ht_num_buckets t)"

lemma HashKeyToBucketNum_ok:
  assumes "ht_inv t"
  shows "\<exists>b. HashKeyToBucketNum t k = Inr b \<and> unat b = bucket_of t k \<and> bucket_of t k < length (ht_buckets t)"
proof -
  have nb: "0 < unat (ht_num_buckets t)" "length (ht_buckets t) = unat (ht_num_buckets t)"
    using assms by (simp_all add: ht_inv_def)
  have lt32: "unat (ht_num_buckets t) < 2 ^ 32"
    using unsigned_less [of "ht_num_buckets t", where ?'a = nat] by simp
  have "unat (ucast (ht_num_buckets t) :: 64 word) = unat (ht_num_buckets t)"
    using lt32 by (simp add: unsigned_ucast_eq take_bit_nat_eq_self)
  then have u: "unat (k mod ucast (ht_num_buckets t)) = unat k mod unat (ht_num_buckets t)"
    by (simp add: unat_mod_distrib)
  have less: "unat k mod unat (ht_num_buckets t) < unat (ht_num_buckets t)" using nb by simp
  then have "unat (ucast (k mod ucast (ht_num_buckets t)) :: 32 word) = unat k mod unat (ht_num_buckets t)"
    using lt32 u less by (simp add: unsigned_ucast_eq take_bit_nat_eq_self)
  with nb less show ?thesis
    by (auto simp: HashKeyToBucketNum_def bucket_of_def word32_eq_0_iff)
qed

lemma kv_map_concat:
  assumes "\<And>i kv. i < length ls \<Longrightarrow> kv \<in> set (ls ! i) \<Longrightarrow> f (kv_key kv) = i"
  shows "kv_map (concat ls) k = (if f k < length ls then kv_map (ls ! f k) k else None)"
  using assms
proof (induction ls rule: rev_induct)
  case (snoc l ls)
  have IH: "kv_map (concat ls) k = (if f k < length ls then kv_map (ls ! f k) k else None)"
  proof (rule snoc.IH)
    fix i kv assume "i < length ls" "kv \<in> set (ls ! i)"
    then show "f (kv_key kv) = i" using snoc.prems [of i kv] by (simp add: nth_append)
  qed
  have l: "kv_map l k = None" if "f k \<noteq> length ls"
    using snoc.prems [of "length ls"] that by (auto simp: kv_map_None_iff)
  show ?case using IH l by (auto simp: kv_map_append nth_append less_Suc_eq split: option.splits)
qed simp

lemma ht_map_bucket:
  assumes "ht_inv t"
  shows "ht_map t k = kv_map (ll_list (ht_buckets t ! bucket_of t k)) k"
proof -
  let ?ls = "map ll_list (ht_buckets t)"
  have lt: "bucket_of t k < length (ht_buckets t)" using HashKeyToBucketNum_ok [OF assms] by blast
  have "kv_map (concat ?ls) k = (if bucket_of t k < length ?ls then kv_map (?ls ! bucket_of t k) k else None)"
    by (rule kv_map_concat) (use assms in \<open>auto simp: ht_inv_def chain_ok_def bucket_of_def\<close>)
  with lt show ?thesis by (simp add: ht_map_def ht_entries_def)
qed

lemma ht_inv_bucket:
  "ht_inv t \<Longrightarrow> i < length (ht_buckets t) \<Longrightarrow> chain_ok (unat (ht_num_buckets t)) i (ht_buckets t ! i)"
  by (simp add: ht_inv_def)

lemma length_concat_upd:
  "i < length ls \<Longrightarrow> length (concat (ls[i := l])) + length (ls ! i) = length (concat ls) + length l"
  by (induction ls arbitrary: i) (auto split: nat.splits)

text \<open>Replacing one chain: what the single-bucket updates of the table rest on.\<close>

lemma set_bucket_ok:
  assumes inv: "ht_inv t" and b: "unat b = i" "i < length (ht_buckets t)"
    and l: "chain_ok (unat (ht_num_buckets t)) i l"
    and num: "unat n + length (ll_list (ht_buckets t ! i)) = unat (ht_num_elements t) + length (ll_list l)"
  shows "ht_inv ((set_bucket t b l)\<lparr>ht_num_elements := n\<rparr>)"
    "ht_map ((set_bucket t b l)\<lparr>ht_num_elements := n\<rparr>) k =
       (if bucket_of t k = i then kv_map (ll_list l) k else ht_map t k)"
proof -
  let ?t = "(set_bucket t b l)\<lparr>ht_num_elements := n\<rparr>"
  have e: "length (ht_entries ?t) + length (ll_list (ht_buckets t ! i)) = length (ht_entries t) + length (ll_list l)"
    using length_concat_upd [of i "map ll_list (ht_buckets t)" "ll_list l"] b
    by (simp add: ht_entries_def set_bucket_def map_update)
  have "chain_ok (unat (ht_num_buckets t)) j ((ht_buckets t)[i := l] ! j)" if "j < length (ht_buckets t)" for j
    using inv that l b by (cases "j = i") (auto simp: ht_inv_def)
  then show i: "ht_inv ?t"
    using inv e num b(1) by (simp add: ht_inv_def set_bucket_def)
  have "bucket_of ?t k = bucket_of t k" by (simp add: bucket_of_def set_bucket_def)
  then show "ht_map ?t k = (if bucket_of t k = i then kv_map (ll_list l) k else ht_map t k)"
    using ht_map_bucket [OF i, of k] ht_map_bucket [OF inv, of k] b by (simp add: set_bucket_def)
qed

lemma set_bucket_same_num: "(set_bucket t b l)\<lparr>ht_num_elements := ht_num_elements t\<rparr> = set_bucket t b l"
  by (simp add: set_bucket_def)

lemma length_bucket_le: "ht_inv t \<Longrightarrow> i < length (ht_buckets t) \<Longrightarrow>
    length (ll_list (ht_buckets t ! i)) \<le> unat (ht_num_elements t)"
  using split_nth [of i "map ll_list (ht_buckets t)"]
  by (metis (no_types, lifting) ht_inv_def ht_entries_def concat_append concat.simps(2) length_append le_add1 le_add2 le_trans length_map nth_map)

section \<open>Searching a chain\<close>

lemma chain_search_ok:
  assumes "ll_inv l" "it_at l it i" "length (ll_list l) \<le> Suc (i + fuel)"
  shows "(\<exists>j it'. i \<le> j \<and> j < length (ll_list l) \<and> kv_key (ll_list l ! j) = k \<and> it_at l it' j \<and>
            chain_search fuel l it k = Inr (True, ll_list l ! j, it')) \<or>
         (k \<notin> set (keys (drop i (ll_list l))) \<and>
          (\<exists>kv it'. chain_search fuel l it k = Inr (False, kv, it')))"
  using assms
proof (induction fuel arbitrary: it i)
  case 0
  then have i: "i < length (ll_list l)" "drop i (ll_list l) = [ll_list l ! i]"
    using it_at_less [OF 0(2)] Cons_nth_drop_Suc [of i "ll_list l"] by auto
  obtain it' where "LLIteratorNext l it = Inr (False, it')"
    using Next_list [OF 0(1,2)] i 0(3) by auto
  with i 0 show ?case
    by (cases "kv_key (ll_list l ! i) = k")
      (auto simp: chain_search.simps GetPayload_list)
next
  case (Suc fuel)
  have i: "i < length (ll_list l)" "drop i (ll_list l) = ll_list l ! i # drop (Suc i) (ll_list l)"
    using it_at_less [OF Suc.prems(2)] Cons_nth_drop_Suc [of i "ll_list l"] by auto
  show ?case
  proof (cases "kv_key (ll_list l ! i) = k")
    case True
    then show ?thesis using i Suc.prems by (auto simp: chain_search.simps GetPayload_list)
  next
    case False
    obtain it' where it': "LLIteratorNext l it = Inr (Suc i < length (ll_list l), it')"
      "it_at l it' (if Suc i < length (ll_list l) then Suc i else i)"
      using Next_list [OF Suc.prems(1,2)] by auto
    have unf: "chain_search (Suc fuel) l it k =
        (if \<not> Suc i < length (ll_list l) then Inr (False, ll_list l ! i, it') else chain_search fuel l it' k)"
      using False it'(1) Suc.prems by (subst chain_search.simps) (simp add: GetPayload_list)
    show ?thesis
    proof (cases "Suc i < length (ll_list l)")
      case True
      with Suc.IH [OF Suc.prems(1), of it' "Suc i"] it'(2) Suc.prems(3) unf False i(2)
      show ?thesis by (auto intro: Suc_leD)
    next
      case False
      with unf i \<open>kv_key (ll_list l ! i) \<noteq> k\<close> show ?thesis by auto
    qed
  qed
qed

lemma ll_list_le_brk: "ll_inv l \<Longrightarrow> length (ll_list l) \<le> ll_brk l"
  using ll_rep_length_brk [of l "ll_cells l"] by (simp add: ll_inv_def ll_list_def)

lemma ChainContainsKey_ok:
  assumes "ll_inv l" "it_at l it 0"
  obtains (found) j it' where "j < length (ll_list l)" "kv_key (ll_list l ! j) = k" "it_at l it' j"
      "ChainContainsKey l it k = Inr (True, ll_list l ! j, it')"
    | (absent) kv it' where "k \<notin> set (keys (ll_list l))" "ChainContainsKey l it k = Inr (False, kv, it')"
proof -
  have "length (ll_list l) \<le> Suc (0 + ll_brk l)" using ll_list_le_brk [OF assms(1)] by simp
  from chain_search_ok [OF assms this, of k] found absent show ?thesis
    unfolding ChainContainsKey_def by auto
qed

section \<open>Lookup and removal\<close>

definition as_kv :: "HTKey_t \<Rightarrow> 'v \<Rightarrow> 'v ht_kv" where
  "as_kv k v = \<lparr>kv_key = k, kv_value = v\<rparr>"

lemma kv_eta: "kv_key kv = k \<Longrightarrow> as_kv k (kv_value kv) = kv"
  by (cases kv) (simp add: as_kv_def)

lemma kv_key_as_kv [simp]: "kv_key (as_kv k v) = k" "kv_value (as_kv k v) = v"
  by (simp_all add: as_kv_def)

lemma kv_map_at:
  "distinct (keys kvs) \<Longrightarrow> j < length kvs \<Longrightarrow> kv_key (kvs ! j) = k \<Longrightarrow>
   \<exists>v. kv_map kvs k = Some v \<and> kvs ! j = as_kv k v"
  using kv_map_nth [of kvs j] kv_eta [of "kvs ! j"] by auto

lemma ChainContainsKey_map:
  assumes "ll_inv l" "it_at l it 0" "distinct (keys (ll_list l))"
  obtains (found) v j it' where "kv_map (ll_list l) k = Some v" "j < length (ll_list l)"
      "ll_list l ! j = as_kv k v" "it_at l it' j" "ChainContainsKey l it k = Inr (True, as_kv k v, it')"
    | (absent) kv it' where "kv_map (ll_list l) k = None" "ChainContainsKey l it k = Inr (False, kv, it')"
  using assms(1,2)
proof (rule ChainContainsKey_ok [of l it k])
  fix j it' assume "j < length (ll_list l)" "kv_key (ll_list l ! j) = k" "it_at l it' j"
    "ChainContainsKey l it k = Inr (True, ll_list l ! j, it')"
  then show ?thesis using kv_map_at [OF assms(3)] found by metis
next
  fix kv it' assume "k \<notin> set (keys (ll_list l))" "ChainContainsKey l it k = Inr (False, kv, it')"
  then show ?thesis using absent by (simp add: kv_map_None_iff)
qed

lemma bucket_empty:
  assumes "ht_inv t"
  shows "NumElementsInLinkedList (ht_buckets t ! bucket_of t k) = 0 \<longleftrightarrow> ll_list (ht_buckets t ! bucket_of t k) = []"
proof -
  obtain b where "bucket_of t k < length (ht_buckets t)" using HashKeyToBucketNum_ok [OF assms] by blast
  then have "ll_inv (ht_buckets t ! bucket_of t k)" using ht_inv_bucket [OF assms] by (simp add: chain_ok_def)
  then show ?thesis by (simp add: NumElementsInLinkedList_def ll_num_0)
qed

lemma Lookup_ok:
  assumes inv: "ht_inv t"
  shows "LookupHashTable m t k =
     (if ll_list (ht_buckets t ! bucket_of t k) = [] then Inr (0, None, m)
      else if \<not> fst (malloc m) then Inr (- 1, None, snd (malloc m))
      else Inr (if ht_map t k = None then 0 else 1, map_option (as_kv k) (ht_map t k), snd (malloc m)))"
proof -
  obtain b where b: "HashKeyToBucketNum t k = Inr b" "unat b = bucket_of t k" "bucket_of t k < length (ht_buckets t)"
    using HashKeyToBucketNum_ok [OF inv] by blast
  let ?l = "ht_buckets t ! bucket_of t k"
  have l: "ll_inv ?l" "distinct (keys (ll_list ?l))"
    using ht_inv_bucket [OF inv b(3)] by (simp_all add: chain_ok_def)
  have map: "ht_map t k = kv_map (ll_list ?l) k" using inv by (rule ht_map_bucket)
  obtain it where it: "LLMakeIterator m ?l 0 =
      (if ll_list ?l = [] then Inr (None, m)
       else if fst (malloc m) then Inr (Some it, snd (malloc m)) else Inr (None, snd (malloc m)))"
    "ll_list ?l \<noteq> [] \<longrightarrow> it_at ?l it 0"
    using MakeIterator_list [OF l(1), of 0 m] by auto
  show ?thesis
  proof (cases "ll_list ?l = []")
    case True
    then show ?thesis using b bucket_empty [OF inv, of k] by (simp add: LookupHashTable_def)
  next
    case False
    then have at: "it_at ?l it 0" using it by simp
    from l(1) at l(2) show ?thesis
      by (rule ChainContainsKey_map [of _ _ k])
        (use b bucket_empty [OF inv, of k] it(1) False map in \<open>auto simp: LookupHashTable_def\<close>)
  qed
qed

lemma kv_map_removed:
  assumes "distinct (keys kvs)" "j < length kvs"
  shows "kv_map (take j kvs @ drop (Suc j) kvs) k = (if k = kv_key (kvs ! j) then None else kv_map kvs k)"
proof -
  have s: "kvs = take j kvs @ kvs ! j # drop (Suc j) kvs" using assms(2) by (rule split_nth)
  then have "distinct (keys (take j kvs @ kvs ! j # drop (Suc j) kvs))" using assms(1) by simp
  then have "kv_map (take j kvs) (kv_key (kvs ! j)) = None" "kv_map (drop (Suc j) kvs) (kv_key (kvs ! j)) = None"
    by (auto simp: kv_map_None_iff)
  moreover have "kv_map kvs k = kv_map (take j kvs @ kvs ! j # drop (Suc j) kvs) k"
    using arg_cong [OF s, of "\<lambda>x. kv_map x k"] .
  ultimately show ?thesis
    by (auto simp: kv_map_append split: option.splits)
qed

lemma chain_ok_removed:
  assumes "chain_ok n i l" "ll_inv l'" "ll_list l' = take j (ll_list l) @ drop (Suc j) (ll_list l)"
  shows "chain_ok n i l'"
proof -
  have "set (ll_list l') \<subseteq> set (ll_list l)" using assms(3) by (auto dest: in_set_takeD in_set_dropD)
  moreover have "distinct (keys (ll_list l'))"
  proof (cases "j < length (ll_list l)")
    case True
    have "distinct (keys (take j (ll_list l) @ ll_list l ! j # drop (Suc j) (ll_list l)))"
      using assms(1) split_nth [OF True] by (metis chain_ok_def)
    then show ?thesis using assms(3) by auto
  next
    case False
    then show ?thesis using assms by (simp add: chain_ok_def)
  qed
  ultimately show ?thesis using assms by (auto simp: chain_ok_def)
qed

text \<open>\<open>l'\<close> is \<open>l\<close> without its entry for \<open>k\<close>, and iterators elsewhere in it stay where they are.\<close>

definition chain_without :: "'v chain \<Rightarrow> HTKey_t \<Rightarrow> 'v chain \<Rightarrow> bool" where
  "chain_without l k l' \<longleftrightarrow>
     (\<exists>j < length (ll_list l). kv_key (ll_list l ! j) = k \<and> ll_inv l' \<and>
        ll_list l' = take j (ll_list l) @ drop (Suc j) (ll_list l) \<and>
        (\<forall>jt i. it_at l jt i \<longrightarrow> i \<noteq> j \<longrightarrow> it_at l' jt (if i < j then i else i - 1)))"

lemma Remove_ok:
  assumes inv: "ht_inv t"
  shows "if ll_list (ht_buckets t ! bucket_of t k) = [] then RemoveFromHashTable m t k = Inr (0, None, m, t)
     else if \<not> fst (malloc m) then RemoveFromHashTable m t k = Inr (- 1, None, snd (malloc m), t)
     else if ht_map t k = None then RemoveFromHashTable m t k = Inr (0, None, snd (malloc m), t)
     else \<exists>l' b. RemoveFromHashTable m t k = Inr (1, map_option (as_kv k) (ht_map t k), snd (malloc m),
            (set_bucket t b l')\<lparr>ht_num_elements := ht_num_elements t - 1\<rparr>) \<and> unat b = bucket_of t k \<and>
          chain_without (ht_buckets t ! bucket_of t k) k l'"
proof -
  obtain b where b: "HashKeyToBucketNum t k = Inr b" "unat b = bucket_of t k" "bucket_of t k < length (ht_buckets t)"
    using HashKeyToBucketNum_ok [OF inv] by blast
  let ?l = "ht_buckets t ! bucket_of t k"
  have l: "ll_inv ?l" "distinct (keys (ll_list ?l))"
    using ht_inv_bucket [OF inv b(3)] by (simp_all add: chain_ok_def)
  have map: "ht_map t k = kv_map (ll_list ?l) k" using inv by (rule ht_map_bucket)
  obtain it where it: "LLMakeIterator m ?l 0 =
      (if ll_list ?l = [] then Inr (None, m)
       else if fst (malloc m) then Inr (Some it, snd (malloc m)) else Inr (None, snd (malloc m)))"
    "ll_list ?l \<noteq> [] \<longrightarrow> it_at ?l it 0"
    using MakeIterator_list [OF l(1), of 0 m] by auto
  show ?thesis
  proof (cases "ll_list ?l = [] \<or> \<not> fst (malloc m)")
    case True
    then show ?thesis using b bucket_empty [OF inv, of k] it(1) by (auto simp: RemoveFromHashTable_def)
  next
    case False
    then have at: "it_at ?l it 0" using it by simp
    from l(1) at l(2) show ?thesis
    proof (rule ChainContainsKey_map [of _ _ k])
      fix kv it' assume "kv_map (ll_list ?l) k = None" "ChainContainsKey ?l it k = Inr (False, kv, it')"
      then show ?thesis using b bucket_empty [OF inv, of k] it(1) False map
        by (auto simp: RemoveFromHashTable_def)
    next
      fix v j it' assume j: "kv_map (ll_list ?l) k = Some v" "j < length (ll_list ?l)"
        "ll_list ?l ! j = as_kv k v" "it_at ?l it' j"
        "ChainContainsKey ?l it k = Inr (True, as_kv k v, it')"
      obtain l' it'' where d: "LLIteratorDelete ?l it' = Inr (length (ll_list ?l) \<noteq> 1, ll_list ?l ! j, l', it'')"
        "ll_inv l'" "ll_list l' = take j (ll_list ?l) @ drop (Suc j) (ll_list ?l)"
        "\<And>jt i. it_at ?l jt i \<Longrightarrow> i \<noteq> j \<Longrightarrow> it_at l' jt (if i < j then i else i - 1)"
        using Delete_list [OF l(1) j(4)] by metis
      have "RemoveFromHashTable m t k = Inr (1, Some (as_kv k v), snd (malloc m),
            (set_bucket t b l')\<lparr>ht_num_elements := ht_num_elements t - 1\<rparr>)"
        using b bucket_empty [OF inv, of k] it(1) False d(1) j(3,5)
        by (simp add: RemoveFromHashTable_def)
      moreover have "chain_without ?l k l'"
        unfolding chain_without_def using j(2,3) d(2-4) by (intro exI [of _ j]) simp
      ultimately show ?thesis using b(2) j(1) False map by auto
    qed
  qed
qed

lemma removed_ok:
  assumes inv: "ht_inv t" and b: "unat b = bucket_of t k"
    and l': "chain_without (ht_buckets t ! bucket_of t k) k l'"
  shows "ht_inv ((set_bucket t b l')\<lparr>ht_num_elements := ht_num_elements t - 1\<rparr>)"
    "ht_map ((set_bucket t b l')\<lparr>ht_num_elements := ht_num_elements t - 1\<rparr>) = (ht_map t)(k := None)"
proof -
  define l where l: "l = ht_buckets t ! bucket_of t k"
  obtain j where j: "j < length (ll_list l)" "kv_key (ll_list l ! j) = k"
    and l': "ll_inv l'" "ll_list l' = take j (ll_list l) @ drop (Suc j) (ll_list l)"
    using l' l by (auto simp: chain_without_def)
  have lt: "bucket_of t k < length (ht_buckets t)" using HashKeyToBucketNum_ok [OF inv] by blast
  have ok: "chain_ok (unat (ht_num_buckets t)) (bucket_of t k) l" using ht_inv_bucket [OF inv lt] l by simp
  have "length (ll_list l) \<le> unat (ht_num_elements t)" using length_bucket_le [OF inv lt] l by simp
  then have "unat (ht_num_elements t - 1) + length (ll_list l) = unat (ht_num_elements t) + length (ll_list l')"
    using j(1) l'(2) by (simp add: unat32_pred)
  note sb = set_bucket_ok [OF inv b lt chain_ok_removed [OF ok l'] this [unfolded l]]
  show "ht_inv ((set_bucket t b l')\<lparr>ht_num_elements := ht_num_elements t - 1\<rparr>)" by (rule sb(1))
  have "distinct (keys (ll_list l))" using ok by (simp add: chain_ok_def)
  then show "ht_map ((set_bucket t b l')\<lparr>ht_num_elements := ht_num_elements t - 1\<rparr>) = (ht_map t)(k := None)"
    using j l'(2) kv_map_removed [of "ll_list l" j] ht_map_bucket [OF inv] l sb(2) by (auto simp: fun_eq_iff)
qed

section \<open>Insertion without resizing\<close>

definition ht_room :: "'v hash_table \<Rightarrow> bool" where
  "ht_room t \<longleftrightarrow> Suc (unat (ht_num_elements t)) < 2 ^ 32"

text \<open>What an insertion promises when allocation does not fail.\<close>

definition insert_ok :: "'v hash_table \<Rightarrow> 'v ht_kv \<Rightarrow> (int \<times> 'v ht_kv option \<times> allocator \<times> 'v hash_table) res \<Rightarrow> bool" where
  "insert_ok t kv r \<longleftrightarrow>
     (\<exists>m' t'. r = Inr (if ht_map t (kv_key kv) = None then 1 else 2,
                       map_option (as_kv (kv_key kv)) (ht_map t (kv_key kv)), m', t') \<and>
        never_fails m' \<and> ht_inv t' \<and> ht_map t' = (ht_map t)(kv_key kv \<mapsto> kv_value kv) \<and>
        unat (ht_num_elements t') = unat (ht_num_elements t) + (if ht_map t (kv_key kv) = None then 1 else 0))"

lemma inserted_ok:
  assumes inv: "ht_inv t" and b: "unat b = bucket_of t (kv_key kv)"
    and l: "l = ht_buckets t ! bucket_of t (kv_key kv)" and l': "ll_inv l'" "ll_list l' = kv # kvs"
    and kvs: "distinct (keys kvs)" "kv_key kv \<notin> set (keys kvs)" "set kvs \<subseteq> set (ll_list l)"
      "\<And>k. k \<noteq> kv_key kv \<Longrightarrow> kv_map kvs k = kv_map (ll_list l) k"
    and num: "unat n + length (ll_list l) = unat (ht_num_elements t) + Suc (length kvs)"
  shows "ht_inv ((set_bucket t b l')\<lparr>ht_num_elements := n\<rparr>)"
    "ht_map ((set_bucket t b l')\<lparr>ht_num_elements := n\<rparr>) = (ht_map t)(kv_key kv \<mapsto> kv_value kv)"
proof -
  let ?k = "kv_key kv"
  have lt: "bucket_of t ?k < length (ht_buckets t)" using HashKeyToBucketNum_ok [OF inv] by blast
  have ok: "chain_ok (unat (ht_num_buckets t)) (bucket_of t ?k) l" using ht_inv_bucket [OF inv lt] l by simp
  have "chain_ok (unat (ht_num_buckets t)) (bucket_of t ?k) l'"
    using ok l' kvs(1-3) by (auto simp: chain_ok_def bucket_of_def)
  moreover have "unat n + length (ll_list (ht_buckets t ! bucket_of t ?k)) =
      unat (ht_num_elements t) + length (ll_list l')"
    using num l' l by simp
  ultimately have sb: "ht_inv ((set_bucket t b l')\<lparr>ht_num_elements := n\<rparr>)"
    "\<And>k. ht_map ((set_bucket t b l')\<lparr>ht_num_elements := n\<rparr>) k =
       (if bucket_of t k = bucket_of t ?k then kv_map (ll_list l') k else ht_map t k)"
    using set_bucket_ok [OF inv b lt] by blast+
  show "ht_inv ((set_bucket t b l')\<lparr>ht_num_elements := n\<rparr>)" by (rule sb(1))
  show "ht_map ((set_bucket t b l')\<lparr>ht_num_elements := n\<rparr>) = (ht_map t)(?k \<mapsto> kv_value kv)"
    using sb(2) l' kvs(4) ht_map_bucket [OF inv] l by (auto simp: fun_eq_iff)
qed

lemma new_pair_ok:
  assumes inv: "ht_inv t" and room: "ht_room t" and b: "unat b = bucket_of t (kv_key kv)"
    and none: "ht_map t (kv_key kv) = None" and m: "never_fails m"
    and l': "ll_inv l'" "ll_list l' = kv # ll_list (ht_buckets t ! bucket_of t (kv_key kv))"
  shows "insert_ok t kv (Inr (1, None, m, (set_bucket t b l')\<lparr>ht_num_elements := ht_num_elements t + 1\<rparr>))"
proof -
  let ?k = "kv_key kv"
  let ?l = "ht_buckets t ! bucket_of t ?k"
  have lt: "bucket_of t ?k < length (ht_buckets t)" using HashKeyToBucketNum_ok [OF inv] by blast
  have "distinct (keys (ll_list ?l))" using ht_inv_bucket [OF inv lt] by (simp add: chain_ok_def)
  moreover have n: "unat (ht_num_elements t + 1) = Suc (unat (ht_num_elements t))"
    using room by (simp add: ht_room_def unat32_Suc)
  moreover have "?k \<notin> set (keys (ll_list ?l))"
    using none ht_map_bucket [OF inv, of ?k] by (simp add: kv_map_None_iff)
  ultimately show ?thesis
    using inserted_ok [OF inv b refl l', of "ht_num_elements t + 1"] none m
    by (simp add: insert_ok_def)
qed

lemma replaced_pair_ok:
  assumes inv: "ht_inv t" and b: "unat b = bucket_of t (kv_key kv)"
    and v: "ht_map t (kv_key kv) = Some v" and m: "never_fails m"
    and l: "l = ht_buckets t ! bucket_of t (kv_key kv)" "j < length (ll_list l)" "ll_list l ! j = as_kv (kv_key kv) v"
    and l': "ll_inv l'" "ll_list l' = kv # take j (ll_list l) @ drop (Suc j) (ll_list l)"
  shows "insert_ok t kv (Inr (2, Some (as_kv (kv_key kv) v), m, set_bucket t b l'))"
proof -
  let ?k = "kv_key kv" and ?kvs = "take j (ll_list l) @ drop (Suc j) (ll_list l)"
  have lt: "bucket_of t ?k < length (ht_buckets t)" using HashKeyToBucketNum_ok [OF inv] by blast
  have d: "distinct (keys (ll_list l))" using ht_inv_bucket [OF inv lt] l(1) by (simp add: chain_ok_def)
  have rm: "kv_map ?kvs k = (if k = ?k then None else kv_map (ll_list l) k)" for k
    using kv_map_removed [OF d l(2), of k] l(3) by simp
  have "distinct (keys (take j (ll_list l) @ ll_list l ! j # drop (Suc j) (ll_list l)))"
    using d split_nth [OF l(2)] by metis
  then have "distinct (keys ?kvs)" by auto
  moreover have "?k \<notin> set (keys ?kvs)" using rm [of ?k] kv_map_None_iff [of ?kvs ?k] by simp
  moreover have "set ?kvs \<subseteq> set (ll_list l)" by (auto dest: in_set_takeD in_set_dropD)
  moreover have "unat (ht_num_elements t) + length (ll_list l) = unat (ht_num_elements t) + Suc (length ?kvs)"
    using l(2) by simp
  ultimately have "ht_inv ((set_bucket t b l')\<lparr>ht_num_elements := ht_num_elements t\<rparr>)"
    "ht_map ((set_bucket t b l')\<lparr>ht_num_elements := ht_num_elements t\<rparr>) = (ht_map t)(?k \<mapsto> kv_value kv)"
    using inserted_ok [OF inv b l(1) l', of "ht_num_elements t"] rm by auto
  then show ?thesis using v m by (simp add: insert_ok_def set_bucket_same_num) (simp add: set_bucket_def)
qed

lemma insert_chain_ok:
  assumes inv: "ht_inv t" and room: "ht_room t" and m: "never_fails m"
  shows "insert_ok t kv (insert_chain m t kv)"
proof -
  let ?k = "kv_key kv"
  obtain b where b: "HashKeyToBucketNum t ?k = Inr b" "unat b = bucket_of t ?k" "bucket_of t ?k < length (ht_buckets t)"
    using HashKeyToBucketNum_ok [OF inv] by blast
  let ?l = "ht_buckets t ! bucket_of t ?k"
  have l: "ll_inv ?l" "distinct (keys (ll_list ?l))"
    using ht_inv_bucket [OF inv b(3)] by (simp_all add: chain_ok_def)
  note map = ht_map_bucket [OF inv, of ?k]
  have room_l: "Suc (length (ll_list ?l)) < 2 ^ 32"
    using length_bucket_le [OF inv b(3)] room by (simp add: ht_room_def)
  obtain m1 where m1: "malloc m = (True, m1)" "never_fails m1" using m by (rule never_fails_malloc)
  show ?thesis
  proof (cases "ll_list ?l = []")
    case True
    obtain m2 l' where p: "PushLinkedList m1 ?l kv = Inr (True, m2, l')" "never_fails m2" "ll_inv l'"
      "ll_list l' = kv # ll_list ?l" using ll.push [OF l(1) room_l m1(2)] by blast
    have "insert_chain m t kv = Inr (1, None, m2, (set_bucket t b l')\<lparr>ht_num_elements := ht_num_elements t + 1\<rparr>)"
      using True b bucket_empty [OF inv, of ?k] m1 p(1) by (simp add: insert_chain_def)
    then show ?thesis using new_pair_ok [OF inv room b(2) _ p(2-4)] map True by simp
  next
    case False
    obtain m2 where m2: "malloc m1 = (True, m2)" "never_fails m2" using m1(2) by (rule never_fails_malloc)
    obtain it where it: "LLMakeIterator m1 ?l 0 = Inr (Some it, m2)" "it_at ?l it 0"
      using MakeIterator_list [OF l(1), of 0 m1] False m2 by auto
    from l(1) it(2) l(2) show ?thesis
    proof (rule ChainContainsKey_map [of _ _ ?k])
      fix x it' assume *: "kv_map (ll_list ?l) ?k = None" "ChainContainsKey ?l it ?k = Inr (False, x, it')"
      obtain m3 l' where p: "PushLinkedList m2 ?l kv = Inr (True, m3, l')" "never_fails m3" "ll_inv l'"
        "ll_list l' = kv # ll_list ?l" using ll.push [OF l(1) room_l m2(2)] by blast
      have "insert_chain m t kv = Inr (1, None, m3, (set_bucket t b l')\<lparr>ht_num_elements := ht_num_elements t + 1\<rparr>)"
        using False b bucket_empty [OF inv, of ?k] m1 it(1) p(1) *(2) by (simp add: insert_chain_def)
      then show ?thesis using new_pair_ok [OF inv room b(2) _ p(2-4)] map *(1) by simp
    next
      fix v j it' assume *: "kv_map (ll_list ?l) ?k = Some v" "j < length (ll_list ?l)" "ll_list ?l ! j = as_kv ?k v"
        "it_at ?l it' j" "ChainContainsKey ?l it ?k = Inr (True, as_kv ?k v, it')"
      obtain l1 it2 where d: "LLIteratorDelete ?l it' = Inr (length (ll_list ?l) \<noteq> 1, ll_list ?l ! j, l1, it2)"
        "ll_inv l1" "ll_list l1 = take j (ll_list ?l) @ drop (Suc j) (ll_list ?l)"
        using Delete_list [OF l(1) *(4)] by metis
      have "Suc (length (ll_list l1)) < 2 ^ 32" using d(3) *(2) room_l by simp
      then obtain m3 l' where p: "PushLinkedList m2 l1 kv = Inr (True, m3, l')" "never_fails m3" "ll_inv l'"
        "ll_list l' = kv # ll_list l1" using ll.push [OF d(2) _ m2(2)] by blast
      have "insert_chain m t kv = Inr (2, Some (as_kv ?k v), m3, set_bucket t b l')"
        using False b bucket_empty [OF inv, of ?k] m1 it(1) p(1) *(5) d(1) by (simp add: insert_chain_def)
      then show ?thesis
        using replaced_pair_ok [OF inv b(2) _ p(2) refl *(2,3) p(3)] map *(1) p(4) d(3) by simp
    qed
  qed
qed

section \<open>Allocation and freeing\<close>

lemma alloc_buckets_ok:
  "never_fails m \<Longrightarrow> \<exists>m'. alloc_buckets n m bs = Inr (Some (bs @ replicate n empty_list), m') \<and> never_fails m'"
proof (induction n arbitrary: m bs)
  case (Suc n)
  obtain m1 where m1: "malloc m = (True, m1)" "never_fails m1" using Suc.prems by (rule never_fails_malloc)
  then show ?case using Suc.IH [OF m1(2), of "bs @ [empty_list]"] by (simp add: AllocateLinkedList_def)
qed simp

lemma concat_replicate_Nil [simp]: "concat (replicate n []) = []"
  by (induction n) auto

lemma Allocate_ok:
  assumes "never_fails m" "n \<noteq> 0"
  shows "\<exists>m' (t :: 'v hash_table). AllocateHashTable m n = Inr (Some t, m') \<and> never_fails m' \<and> ht_inv t \<and> ht_map t = Map.empty \<and>
           ht_num_buckets t = n \<and> ht_num_elements t = 0"
proof -
  obtain m1 where m1: "malloc m = (True, m1)" "never_fails m1" using assms(1) by (rule never_fails_malloc)
  obtain m2 where m2: "malloc m1 = (True, m2)" "never_fails m2" using m1(2) by (rule never_fails_malloc)
  obtain m3 where m3: "alloc_buckets (unat n) m2 [] = Inr (Some (replicate (unat n) (empty_list :: 'v chain)), m3)" "never_fails m3"
    using alloc_buckets_ok [OF m2(2), of "unat n" "[]"] by auto
  let ?t = "\<lparr>ht_num_buckets = n, ht_num_elements = 0, ht_buckets = replicate (unat n) empty_list\<rparr> :: 'v hash_table"
  have "ht_entries ?t = []" by (simp add: ht_entries_def)
  then have "ht_inv ?t" "ht_map ?t = Map.empty"
    using assms(2) by (auto simp: ht_inv_def ht_map_def chain_ok_def word32_eq_0_iff fun_eq_iff)
  moreover have "AllocateHashTable m n = Inr (Some ?t, m3)"
    using assms(2) m1 m2 m3 by (simp add: AllocateHashTable_def)
  ultimately show ?thesis using m3(2) by auto
qed

lemma drain_chain_ok:
  "ll_inv l \<Longrightarrow> length (ll_list l) \<le> fuel \<Longrightarrow>
   \<exists>l'. drain_chain fuel l = Inr (map kv_value (ll_list l), l') \<and> ll_inv l'"
proof (induction fuel arbitrary: l)
  case 0
  then show ?case by (simp add: drain_chain.simps NumElementsInLinkedList_def ll_num_0)
next
  case (Suc fuel)
  show ?case
  proof (cases "ll_list l")
    case Nil
    then show ?thesis using Suc.prems by (simp add: drain_chain.simps NumElementsInLinkedList_def ll_num_0)
  next
    case (Cons kv kvs)
    obtain l1 where l1: "PopLinkedList l = Inr (Some kv, l1)" "ll_inv l1" "ll_list l1 = kvs"
      using ll.pop [OF Suc.prems(1) Cons] by blast
    obtain l2 where "drain_chain fuel l1 = Inr (map kv_value kvs, l2)" "ll_inv l2"
      using Suc.IH [OF l1(2)] l1(3) Cons Suc.prems(2) by auto
    then show ?thesis using Suc.prems(1) Cons l1(1)
      by (simp add: drain_chain.simps [of "Suc fuel"] NumElementsInLinkedList_def ll_num_0)
  qed
qed

lemma free_buckets_ok:
  "\<forall>l \<in> set ls. ll_inv l \<Longrightarrow> free_buckets ls = Inr (map kv_value (concat (map ll_list ls)))"
proof (induction ls)
  case (Cons l ls)
  then obtain l' where "drain_chain (unat (ll_num_elements l)) l = Inr (map kv_value (ll_list l), l')" "ll_inv l'"
    using drain_chain_ok [of l "unat (ll_num_elements l)"] by (auto simp: ll_num_eq)
  then show ?case using Cons Free_list [of l'] by simp
qed simp

text \<open>Freeing a table hands every stored value to the caller's free function, once.\<close>

lemma Free_ok:
  assumes "ht_inv t"
  shows "FreeHashTable t = Inr (map kv_value (ht_entries t))"
proof -
  have "\<forall>l \<in> set (ht_buckets t). ll_inv l"
    using assms by (auto simp: ht_inv_def chain_ok_def in_set_conv_nth)
  from free_buckets_ok [OF this] assms show ?thesis
    by (simp add: FreeHashTable_def ht_entries_def ht_inv_def)
qed

section \<open>Iteration\<close>

text \<open>The entries an iterator still has to visit, its current one first.\<close>

definition ht_rest :: "'v hash_table \<Rightarrow> nat \<Rightarrow> nat \<Rightarrow> 'v ht_kv list" where
  "ht_rest t b j = drop j (ll_list (ht_buckets t ! b)) @ concat (map ll_list (drop (Suc b) (ht_buckets t)))"

definition hti_at :: "'v hash_table \<Rightarrow> ht_iter \<Rightarrow> 'v ht_kv list \<Rightarrow> bool" where
  "hti_at t it kvs \<longleftrightarrow>
     (if hti_valid it
      then \<exists>llit j. hti_bucket_it it = Some llit \<and> unat (hti_bucket_num it) < length (ht_buckets t) \<and>
             it_at (ht_buckets t ! unat (hti_bucket_num it)) llit j \<and>
             kvs = ht_rest t (unat (hti_bucket_num it)) j
      else kvs = [])"

lemma ht_rest_Cons:
  "j < length (ll_list (ht_buckets t ! b)) \<Longrightarrow>
   ht_rest t b j = ll_list (ht_buckets t ! b) ! j # ht_rest t b (Suc j)"
  by (simp add: ht_rest_def Cons_nth_drop_Suc [symmetric])

lemma ht_rest_end:
  assumes "length (ll_list (ht_buckets t ! b)) \<le> j"
  shows "ht_rest t b j = concat (map ll_list (drop (Suc b) (ht_buckets t)))"
  using assms by (simp add: ht_rest_def)

lemma ht_rest_0: "b < length (ht_buckets t) \<Longrightarrow> ht_rest t b 0 = concat (map ll_list (drop b (ht_buckets t)))"
  by (simp add: ht_rest_def Cons_nth_drop_Suc [symmetric])

lemma hti_at_valid:
  assumes "hti_at t it kvs"
  shows "hti_valid it \<longleftrightarrow> kvs \<noteq> []"
proof (cases "hti_valid it")
  case True
  with assms show ?thesis by (auto simp: hti_at_def ht_rest_Cons dest: it_at_less)
qed (use assms in \<open>simp add: hti_at_def\<close>)

lemma hti_at_validE:
  assumes "hti_at t it (kv # kvs)"
  obtains b llit j where "hti_valid it" "hti_bucket_it it = Some llit" "unat (hti_bucket_num it) = b"
    "b < length (ht_buckets t)" "it_at (ht_buckets t ! b) llit j" "kv = ll_list (ht_buckets t ! b) ! j"
    "kvs = ht_rest t b (Suc j)"
proof -
  obtain llit where *: "hti_valid it" "hti_bucket_it it = Some llit" "unat (hti_bucket_num it) < length (ht_buckets t)"
    and "\<exists>j. it_at (ht_buckets t ! unat (hti_bucket_num it)) llit j \<and>
          kv # kvs = ht_rest t (unat (hti_bucket_num it)) j"
    using assms hti_at_valid [OF assms] by (auto simp: hti_at_def)
  then obtain j where j: "it_at (ht_buckets t ! unat (hti_bucket_num it)) llit j"
    "kv # kvs = ht_rest t (unat (hti_bucket_num it)) j" by blast
  show ?thesis
    by (rule that [OF *(1,2) refl *(3) j(1)]) (use j(2) ht_rest_Cons [OF it_at_less [OF j(1)]] in simp_all)
qed

lemma ht_inv_ll_inv: "ht_inv t \<Longrightarrow> b < length (ht_buckets t) \<Longrightarrow> ll_inv (ht_buckets t ! b)"
  using ht_inv_bucket [of t b] by (simp add: chain_ok_def)

lemma Num_0_iff: "ll_inv l \<Longrightarrow> NumElementsInLinkedList l = 0 \<longleftrightarrow> ll_list l = []"
  by (simp add: NumElementsInLinkedList_def ll_num_0)

lemma Num_pos_iff: "ll_inv l \<Longrightarrow> 0 < NumElementsInLinkedList l \<longleftrightarrow> ll_list l \<noteq> []"
  by (simp add: Num_0_iff [symmetric] word_neq_0_conv)

lemma Get_ok:
  assumes "ht_inv t" "hti_at t it kvs" "set kvs \<subseteq> set (ht_entries t)"
  shows "HTIteratorGet t it = Inr (case kvs of [] \<Rightarrow> None | kv # _ \<Rightarrow> Some kv)"
proof (cases kvs)
  case Nil
  then show ?thesis using hti_at_valid [OF assms(2)] by (simp add: HTIteratorGet_def)
next
  case (Cons kv kvs')
  have ne: "ht_num_elements t \<noteq> 0"
    using assms Cons by (auto simp: ht_inv_def word32_eq_0_iff)
  from assms(2) [unfolded Cons] show ?thesis
  proof (rule hti_at_validE)
    fix b llit j assume *: "hti_valid it" "hti_bucket_it it = Some llit" "unat (hti_bucket_num it) = b"
      "b < length (ht_buckets t)" "it_at (ht_buckets t ! b) llit j" "kv = ll_list (ht_buckets t ! b) ! j"
    then show ?thesis using Cons ne ht_inv_ll_inv [OF assms(1) *(4)]
      by (simp add: HTIteratorGet_def hti_chain_def GetPayload_list)
  qed
qed

lemma PastEnd_ok:
  assumes "ht_inv t" "hti_at t it kvs" "set kvs \<subseteq> set (ht_entries t)"
  shows "HTIteratorPastEnd t it = (if kvs = [] then 1 else 0)"
proof (cases kvs)
  case Nil
  then show ?thesis using hti_at_valid [OF assms(2)] by (simp add: HTIteratorPastEnd_def)
next
  case (Cons kv kvs')
  have "ht_num_elements t \<noteq> 0"
    using assms Cons by (auto simp: ht_inv_def word32_eq_0_iff)
  with Cons hti_at_valid [OF assms(2)] show ?thesis
    by (simp add: HTIteratorPastEnd_def NumElementsInHashTable_def)
qed

lemma find_next_bucket_ok:
  assumes inv: "ht_inv t" and "Suc (unat b) < length (ht_buckets t)" "length (ht_buckets t) \<le> unat b + Suc fuel"
  shows "\<exists>found b'. find_next_bucket fuel t b = Inr (found, b', ht_buckets t ! unat b') \<and>
      (if found then unat b < unat b' \<and> unat b' < length (ht_buckets t) \<and>
          ll_list (ht_buckets t ! unat b') \<noteq> [] \<and>
          concat (map ll_list (drop (Suc (unat b)) (ht_buckets t))) = ht_rest t (unat b') 0
       else concat (map ll_list (drop (Suc (unat b)) (ht_buckets t))) = [])"
  using assms(2,3)
proof (induction fuel arbitrary: b)
  case 0
  then show ?case by simp
next
  case (Suc fuel)
  let ?b = "b + 1"
  have nb: "length (ht_buckets t) = unat (ht_num_buckets t)" using inv by (simp add: ht_inv_def)
  have lt32: "unat (ht_num_buckets t) < 2 ^ 32"
    using unsigned_less [of "ht_num_buckets t", where ?'a = nat] by simp
  have ub: "unat ?b = Suc (unat b)" using Suc.prems nb lt32 by (intro unat32_Suc) simp
  then have ltb: "unat ?b < length (ht_buckets t)" using Suc.prems by simp
  have "0 < unat (ht_num_buckets t)" using nb Suc.prems by simp
  then have lst: "?b < ht_num_buckets t - 1 \<longleftrightarrow> Suc (unat ?b) < length (ht_buckets t)"
    using nb by (simp add: word_less_nat_alt unat32_pred less_diff_conv)
  have linv: "ll_inv (ht_buckets t ! unat ?b)" using ht_inv_ll_inv [OF inv ltb] .
  have dr: "concat (map ll_list (drop (Suc (unat b)) (ht_buckets t))) = ht_rest t (unat ?b) 0"
    using ht_rest_0 [OF ltb] ub by simp
  show ?case
  proof (cases "ll_list (ht_buckets t ! unat ?b) = [] \<and> Suc (unat ?b) < length (ht_buckets t)")
    case True
    have step: "find_next_bucket (Suc fuel) t b = find_next_bucket fuel t ?b"
      using True linv lst ltb by (subst find_next_bucket.simps) (simp add: Num_0_iff Let_def)
    have rest: "concat (map ll_list (drop (Suc (unat b)) (ht_buckets t))) =
        concat (map ll_list (drop (Suc (unat ?b)) (ht_buckets t)))"
      using dr True by (simp add: ht_rest_def)
    have "Suc (unat ?b) < length (ht_buckets t)" "length (ht_buckets t) \<le> unat ?b + Suc fuel"
      using True Suc.prems ub by simp_all
    from Suc.IH [OF this] obtain found b' where "find_next_bucket fuel t ?b = Inr (found, b', ht_buckets t ! unat b')"
      "if found then unat ?b < unat b' \<and> unat b' < length (ht_buckets t) \<and>
          ll_list (ht_buckets t ! unat b') \<noteq> [] \<and>
          concat (map ll_list (drop (Suc (unat ?b)) (ht_buckets t))) = ht_rest t (unat b') 0
       else concat (map ll_list (drop (Suc (unat ?b)) (ht_buckets t))) = []" by blast
    moreover have "unat b < unat ?b" using ub by simp
    ultimately show ?thesis unfolding step rest by (intro exI [of _ found] exI [of _ b']) (cases found; simp)
  next
    case False
    have "find_next_bucket (Suc fuel) t b =
        Inr (0 < NumElementsInLinkedList (ht_buckets t ! unat ?b), ?b, ht_buckets t ! unat ?b)"
      using False linv lst ltb by (subst find_next_bucket.simps) (auto simp: Num_0_iff Let_def)
    moreover have "ht_rest t (unat ?b) 0 = []" if "ll_list (ht_buckets t ! unat ?b) = []"
      using False that by (simp add: ht_rest_def)
    ultimately show ?thesis using dr ltb ub Num_pos_iff [OF linv] by auto
  qed
qed

lemma Next_invalid: "\<not> hti_valid it \<Longrightarrow> HTIteratorNext m t it = Inr (0, m, it)"
  by (simp add: HTIteratorNext_def)

text \<open>Moving to the next chain that is not empty.\<close>

lemma HTNext_cross:
  assumes inv: "ht_inv t" and m: "never_fails m" and v: "hti_valid it" "hti_bucket_it it = Some llit"
    and sb: "Suc (unat (hti_bucket_num it)) < length (ht_buckets t)"
    and stuck: "LLIteratorNext (ht_buckets t ! unat (hti_bucket_num it)) llit = Inr (False, llit')"
    and kvs: "kvs = concat (map ll_list (drop (Suc (unat (hti_bucket_num it))) (ht_buckets t)))"
  shows "\<exists>m' it'. HTIteratorNext m t it = Inr (if kvs = [] then 0 else 1, m', it') \<and>
           never_fails m' \<and> hti_at t it' kvs"
proof -
  have nb: "length (ht_buckets t) = unat (ht_num_buckets t)" using inv by (simp add: ht_inv_def)
  then have "length (ht_buckets t) \<le> unat (hti_bucket_num it) + Suc (unat (ht_num_buckets t))" by simp
  from find_next_bucket_ok [OF inv sb this] obtain found b' where
    fb: "find_next_bucket (unat (ht_num_buckets t)) t (hti_bucket_num it) = Inr (found, b', ht_buckets t ! unat b')"
    "if found then unat b' < length (ht_buckets t) \<and> ll_list (ht_buckets t ! unat b') \<noteq> [] \<and>
        kvs = ht_rest t (unat b') 0 else kvs = []"
    unfolding kvs by (auto split: if_splits)
  have "0 < unat (ht_num_buckets t)" using sb nb by simp
  then have notlast: "hti_bucket_num it \<noteq> ht_num_buckets t - 1"
    using sb nb unat32_pred [of "ht_num_buckets t"] by auto
  have unf: "HTIteratorNext m t it =
      (if \<not> found then Inr (0, m, it\<lparr>hti_bucket_num := b', hti_valid := False\<rparr>)
       else bindE (LLMakeIterator m (ht_buckets t ! unat b') 0) (\<lambda>(new_bit, m).
        case new_bit of
          None \<Rightarrow> Inr (0, m, it\<lparr>hti_bucket_num := b', hti_valid := False\<rparr>)
        | Some new_bit \<Rightarrow> Inr (1, m, it\<lparr>hti_bucket_num := b', hti_bucket_it := Some new_bit\<rparr>)))"
    using v sb stuck notlast fb(1)
    by (simp add: HTIteratorNext_def hti_chain_def FindNextNonEmptyBucket_def)
  show ?thesis
  proof (cases found)
    case False
    then show ?thesis using unf fb(2) m by (auto simp: hti_at_def)
  next
    case True
    then have b': "unat b' < length (ht_buckets t)" "ll_list (ht_buckets t ! unat b') \<noteq> []"
      "kvs = ht_rest t (unat b') 0" using fb(2) by auto
    obtain nbit where nbit: "LLMakeIterator m (ht_buckets t ! unat b') 0 = Inr (Some nbit, snd (malloc m))"
      "it_at (ht_buckets t ! unat b') nbit 0"
      using MakeIterator_list [OF ht_inv_ll_inv [OF inv b'(1)], of 0 m] b'(2) m by auto
    have "hti_at t (it\<lparr>hti_bucket_num := b', hti_bucket_it := Some nbit\<rparr>) kvs"
      using v(1) b' nbit(2) by (auto simp: hti_at_def)
    moreover have "kvs \<noteq> []" using b' by (simp add: ht_rest_def)
    ultimately show ?thesis using unf True nbit(1) m by simp
  qed
qed

lemma HTNext_ok:
  assumes inv: "ht_inv t" and at: "hti_at t it (kv # kvs)" and m: "never_fails m"
  shows "\<exists>m' it'. HTIteratorNext m t it = Inr (if kvs = [] then 0 else 1, m', it') \<and>
           never_fails m' \<and> hti_at t it' kvs"
  using at
proof (rule hti_at_validE)
  fix b llit j
  assume v: "hti_valid it" "hti_bucket_it it = Some llit" "unat (hti_bucket_num it) = b"
    "b < length (ht_buckets t)" "it_at (ht_buckets t ! b) llit j" "kv = ll_list (ht_buckets t ! b) ! j"
    and kvs: "kvs = ht_rest t b (Suc j)"
  let ?l = "ht_buckets t ! b"
  have l: "ll_inv ?l" by (rule ht_inv_ll_inv [OF inv v(4)])
  have nb: "length (ht_buckets t) = unat (ht_num_buckets t)" "0 < unat (ht_num_buckets t)"
    using inv by (simp_all add: ht_inv_def)
  obtain llit' where llit': "LLIteratorNext ?l llit = Inr (Suc j < length (ll_list ?l), llit')"
    "it_at ?l llit' (if Suc j < length (ll_list ?l) then Suc j else j)"
    using Next_list [OF l v(5)] by auto
  show ?thesis
  proof (cases "Suc j < length (ll_list ?l)")
    case True
    have "HTIteratorNext m t it = Inr (1, m, it\<lparr>hti_bucket_it := Some llit'\<rparr>)"
      using v llit'(1) True by (simp add: HTIteratorNext_def hti_chain_def)
    moreover have "hti_at t (it\<lparr>hti_bucket_it := Some llit'\<rparr>) kvs" "kvs \<noteq> []"
      using v llit'(2) True kvs by (auto simp: hti_at_def ht_rest_Cons)
    ultimately show ?thesis using m by auto
  next
    case False
    then have kvs: "kvs = concat (map ll_list (drop (Suc b) (ht_buckets t)))"
      using kvs ht_rest_end [of t b "Suc j"] by simp
    show ?thesis
    proof (cases "Suc b = length (ht_buckets t)")
      case True
      then have "hti_bucket_num it = ht_num_buckets t - 1"
        using nb v(3) by (simp add: word_unat_eq_iff unat32_pred)
      then have "HTIteratorNext m t it = Inr (0, m, it\<lparr>hti_valid := False\<rparr>)"
        using v llit'(1) False by (simp add: HTIteratorNext_def hti_chain_def)
      then show ?thesis using m kvs True by (auto simp: hti_at_def)
    next
      case notlast: False
      show ?thesis
        by (rule HTNext_cross [OF inv m v(1,2)]) (use v(3,4) notlast llit'(1) False kvs in simp_all)
    qed
  qed
qed

lemma find_bucket_ok:
  assumes "\<forall>l \<in> set bs. ll_inv l" "i + n = length bs"
  shows "\<exists>r. find_bucket n i bs = Inr r \<and>
     (case r of None \<Rightarrow> concat (map ll_list (drop i bs)) = []
      | Some j \<Rightarrow> j < length bs \<and> ll_list (bs ! j) \<noteq> [] \<and>
          concat (map ll_list (drop i bs)) = concat (map ll_list (drop j bs)))"
  using assms(2)
proof (induction n arbitrary: i)
  case (Suc n)
  then have i: "i < length bs" "ll_inv (bs ! i)" using assms(1) by simp_all
  have d: "drop i bs = bs ! i # drop (Suc i) bs" using Cons_nth_drop_Suc [OF i(1)] by simp
  show ?case
  proof (cases "ll_list (bs ! i) = []")
    case True
    obtain r where r: "find_bucket n (Suc i) bs = Inr r"
      "case r of None \<Rightarrow> concat (map ll_list (drop (Suc i) bs)) = []
       | Some j \<Rightarrow> j < length bs \<and> ll_list (bs ! j) \<noteq> [] \<and>
          concat (map ll_list (drop (Suc i) bs)) = concat (map ll_list (drop j bs))"
      using Suc.IH [of "Suc i"] Suc.prems by auto
    then show ?thesis using True i d by (intro exI [of _ r]) (cases r; simp add: Num_pos_iff)
  next
    case False
    then show ?thesis using i d by (intro exI [of _ "Some i"]) (simp add: Num_pos_iff)
  qed
qed simp

lemma ht_entries_empty: "ht_inv t \<Longrightarrow> ht_num_elements t = 0 \<longleftrightarrow> ht_entries t = []"
  by (simp add: ht_inv_def word32_eq_0_iff)

lemma HTMakeIterator_ok:
  assumes inv: "ht_inv t" and m: "never_fails m"
  shows "\<exists>m' it. HashTableMakeIterator m t = Inr (Some it, m') \<and> never_fails m' \<and> hti_at t it (ht_entries t)"
proof -
  obtain m1 where m1: "malloc m = (True, m1)" "never_fails m1" using m by (rule never_fails_malloc)
  show ?thesis
  proof (cases "ht_entries t = []")
    case True
    then show ?thesis using m1 ht_entries_empty [OF inv] by (simp add: HashTableMakeIterator_def hti_at_def)
  next
    case False
    have nb: "length (ht_buckets t) = unat (ht_num_buckets t)" using inv by (simp add: ht_inv_def)
    have all: "\<forall>l \<in> set (ht_buckets t). ll_inv l"
      using inv by (auto simp: ht_inv_def chain_ok_def in_set_conv_nth)
    from find_bucket_ok [OF all, of 0 "unat (ht_num_buckets t)"] nb False obtain i where
      i: "find_bucket (unat (ht_num_buckets t)) 0 (ht_buckets t) = Inr (Some i)" "i < length (ht_buckets t)"
        "ll_list (ht_buckets t ! i) \<noteq> []" "ht_entries t = concat (map ll_list (drop i (ht_buckets t)))"
      by (auto simp: ht_entries_def split: option.splits)
    have "i < 2 ^ 32" using i(2) nb unsigned_less [of "ht_num_buckets t", where ?'a = nat] by simp
    then have ui: "unat (of_nat i :: 32 word) = i" by (simp add: unsigned_of_nat take_bit_nat_eq_self)
    obtain llit where llit: "LLMakeIterator m1 (ht_buckets t ! i) 0 = Inr (Some llit, snd (malloc m1))"
      "it_at (ht_buckets t ! i) llit 0"
      using MakeIterator_list [OF ht_inv_ll_inv [OF inv i(2)], of 0 m1] i(3) m1(2) by auto
    let ?it = "\<lparr>hti_valid = True, hti_bucket_num = of_nat i, hti_bucket_it = Some llit\<rparr>"
    have "HashTableMakeIterator m t = Inr (Some ?it, snd (malloc m1))"
      using m1 i False ht_entries_empty [OF inv] llit(1) by (simp add: HashTableMakeIterator_def)
    moreover have "hti_at t ?it (ht_entries t)"
      using ui i llit(2) ht_rest_0 [OF i(2)] by (auto simp: hti_at_def)
    ultimately show ?thesis using m1(2) by auto
  qed
qed

lemma distinct_keys_concat:
  assumes "\<And>i. i < length ls \<Longrightarrow> distinct (keys (ls ! i)) \<and> (\<forall>kv \<in> set (ls ! i). f (kv_key kv) = i)"
  shows "distinct (keys (concat ls))"
  using assms
proof (induction ls rule: rev_induct)
  case (snoc l ls)
  have ls: "distinct (keys (ls ! i)) \<and> (\<forall>kv \<in> set (ls ! i). f (kv_key kv) = i)" if "i < length ls" for i
    using snoc.prems [of i] that by (simp add: nth_append)
  have l: "distinct (keys l)" "\<forall>kv \<in> set l. f (kv_key kv) = length ls"
    using snoc.prems [of "length ls"] by simp_all
  have "f (kv_key kv) < length ls" if kv: "kv \<in> set (concat ls)" for kv
  proof -
    obtain xs where "xs \<in> set ls" "kv \<in> set xs" using kv by auto
    moreover from this obtain i where "i < length ls" "xs = ls ! i" by (auto simp: in_set_conv_nth)
    ultimately show ?thesis using ls [of i] by simp
  qed
  then have "kv_key kv \<noteq> kv_key kv'" if "kv \<in> set (concat ls)" "kv' \<in> set l" for kv kv'
    using that l(2) by (metis less_irrefl)
  then have "set (keys (concat ls)) \<inter> set (keys l) = {}" by auto
  with snoc.IH [OF ls] l(1) show ?case unfolding concat_append map_append distinct_append by simp
qed simp

lemma ht_entries_distinct: "ht_inv t \<Longrightarrow> distinct (keys (ht_entries t))"
  unfolding ht_entries_def
  by (rule distinct_keys_concat [where f = "\<lambda>k. unat k mod unat (ht_num_buckets t)"])
    (auto simp: ht_inv_def chain_ok_def)

section \<open>Resizing and insertion\<close>

definition inserts_below :: "nat \<Rightarrow> 'v ht_insert \<Rightarrow> bool" where
  "inserts_below n ins \<longleftrightarrow>
     (\<forall>m t kv. never_fails m \<longrightarrow> ht_inv t \<longrightarrow> unat (ht_num_elements t) < n \<longrightarrow> insert_ok t kv (ins m t kv))"

lemma copy_entries_ok:
  assumes ins: "inserts_below N ins"
    and inv: "ht_inv ht"
  shows "hti_at ht it kvs \<Longrightarrow> set kvs \<subseteq> set (ht_entries ht) \<Longrightarrow> distinct (keys kvs) \<Longrightarrow>
    \<forall>kv \<in> set kvs. ht_map newht (kv_key kv) = None \<Longrightarrow> ht_inv newht \<Longrightarrow>
    unat (ht_num_elements newht) + length kvs \<le> N \<Longrightarrow> length kvs \<le> fuel \<Longrightarrow> never_fails m \<Longrightarrow>
    \<exists>m' newht'. copy_entries fuel ins m ht it newht = Inr (True, m', newht') \<and> never_fails m' \<and>
      ht_inv newht' \<and> ht_map newht' = ht_map newht ++ kv_map kvs \<and>
      unat (ht_num_elements newht') = unat (ht_num_elements newht) + length kvs"
proof (induction kvs arbitrary: fuel it newht m)
  case Nil
  have "HTIteratorPastEnd ht it = 1" using PastEnd_ok [OF inv Nil(1)] by simp
  then have "copy_entries fuel ins m ht it newht = Inr (True, m, newht)"
    by (subst copy_entries.simps) simp
  moreover have "ht_map newht ++ kv_map [] = ht_map newht" by (simp add: kv_map_def)
  ultimately show ?case using Nil by auto
next
  case (Cons kv kvs)
  obtain k where fuel: "fuel = Suc k" "length kvs \<le> k" using Cons.prems(7) by (cases fuel) auto
  have past: "HTIteratorPastEnd ht it = 0" using PastEnd_ok [OF inv Cons.prems(1,2)] by simp
  have get: "HTIteratorGet ht it = Inr (Some kv)" using Get_ok [OF inv Cons.prems(1,2)] by simp
  have none: "ht_map newht (kv_key kv) = None" using Cons.prems(4) by simp
  have "unat (ht_num_elements newht) < N" using Cons.prems(6) by simp
  then have "insert_ok newht kv (ins m newht kv)" using ins Cons.prems(8,5) by (simp add: inserts_below_def)
  with none obtain m1 t1 x where
    1: "ins m newht kv = Inr (1, x, m1, t1)" "never_fails m1" "ht_inv t1"
      "ht_map t1 = (ht_map newht)(kv_key kv \<mapsto> kv_value kv)"
      "unat (ht_num_elements t1) = Suc (unat (ht_num_elements newht))"
    by (auto simp: insert_ok_def)
  from HTNext_ok [OF inv Cons.prems(1) 1(2)] obtain r m2 it2 where
    2: "HTIteratorNext m1 ht it = Inr (r, m2, it2)" "never_fails m2" "hti_at ht it2 kvs" by blast
  have "\<forall>kv' \<in> set kvs. ht_map t1 (kv_key kv') = None"
    using Cons.prems(3,4) 1(4) by (auto simp: image_iff)
  then obtain m3 t3 where 3: "copy_entries k ins m2 ht it2 t1 = Inr (True, m3, t3)" "never_fails m3" "ht_inv t3"
    "ht_map t3 = ht_map t1 ++ kv_map kvs" "unat (ht_num_elements t3) = unat (ht_num_elements t1) + length kvs"
    using Cons.IH [OF 2(3) _ _ _ 1(3) _ fuel(2) 2(2)] Cons.prems 1(5) by auto
  have "copy_entries fuel ins m ht it newht = Inr (True, m3, t3)"
    using past get 1(1) 2(1) 3(1) fuel(1) by (subst copy_entries.simps) simp
  moreover have "ht_map t3 = ht_map newht ++ kv_map (kv # kvs)"
    using 3(4) 1(4) Cons.prems(3) kv_map_None_iff [of kvs "kv_key kv"]
    by (auto simp: fun_eq_iff map_add_def split: option.splits)
  moreover have "unat (ht_num_elements t3) = unat (ht_num_elements newht) + length (kv # kvs)"
    using 3(5) 1(5) by simp
  ultimately show ?case using 3(2,3) by blast
qed

lemma Resize_ok:
  assumes ins: "inserts_below (unat (ht_num_elements ht)) ins"
    and inv: "ht_inv (ht :: 'a hash_table)" and m: "never_fails m"
  shows "\<exists>m' t'. ResizeHashtable ins m ht = Inr (m', t') \<and> never_fails m' \<and> ht_inv t' \<and> ht_map t' = ht_map ht \<and>
           ht_num_elements t' = ht_num_elements ht"
proof (cases "ht_num_elements ht < 3 * ht_num_buckets ht \<or> ht_num_buckets ht * 9 = 0")
  case True
  then have "ResizeHashtable ins m ht = Inr (m, ht)"
    by (auto simp: ResizeHashtable_def AllocateHashTable_def)
  then show ?thesis using inv m by simp
next
  case False
  then obtain m1 newht where 1: "AllocateHashTable m (ht_num_buckets ht * 9) = Inr (Some (newht :: 'a hash_table), m1)"
    "never_fails m1" "ht_inv newht" "ht_map newht = Map.empty" "ht_num_elements newht = 0"
    using Allocate_ok [OF m, of "ht_num_buckets ht * 9"] by auto
  obtain m2 it where 2: "HashTableMakeIterator m1 ht = Inr (Some it, m2)" "never_fails m2"
    "hti_at ht it (ht_entries ht)" using HTMakeIterator_ok [OF inv 1(2)] by blast
  have num: "unat (ht_num_elements ht) = length (ht_entries ht)" using inv by (simp add: ht_inv_def)
  obtain m3 t3 where 3: "copy_entries (unat (ht_num_elements ht)) ins m2 ht it newht = Inr (True, m3, t3)"
    "never_fails m3" "ht_inv t3" "ht_map t3 = Map.empty ++ kv_map (ht_entries ht)"
    "unat (ht_num_elements t3) = length (ht_entries ht)"
    using copy_entries_ok [OF ins inv 2(3) subset_refl ht_entries_distinct [OF inv] _ 1(3) _ _ 2(2),
        of "unat (ht_num_elements ht)"] 1(4,5) num
    by auto
  have "ResizeHashtable ins m ht = Inr (m3, t3)"
    using False 1(1) 2(1) 3(1) Free_ok [OF inv] by (simp add: ResizeHashtable_def)
  moreover have "ht_num_elements t3 = ht_num_elements ht" using 3(5) num by (simp add: word_unat_eq_iff)
  moreover have "ht_map t3 = ht_map ht" using 3(4) by (simp add: ht_map_def)
  ultimately show ?thesis using 3 by auto
qed

lemma Insert_nested_ok:
  "never_fails m \<Longrightarrow> ht_inv (t :: 'a hash_table) \<Longrightarrow> unat (ht_num_elements t) < n \<Longrightarrow> ht_room t \<Longrightarrow>
   insert_ok t kv (InsertHashTable_nested n m t kv)"
proof (induction n arbitrary: m t kv)
  case (Suc n)
  have ins: "inserts_below (unat (ht_num_elements t)) (InsertHashTable_nested n :: 'a ht_insert)"
    unfolding inserts_below_def using Suc.prems by (auto intro!: Suc.IH simp: ht_room_def)
  from Resize_ok [OF ins Suc.prems(2,1)] obtain m1 t1 where
    1: "ResizeHashtable (InsertHashTable_nested n) m t = Inr (m1, t1)" "never_fails m1" "ht_inv t1"
      "ht_map t1 = ht_map t" "ht_num_elements t1 = ht_num_elements t" by blast
  have "ht_room t1" using Suc.prems(4) 1(5) by (simp add: ht_room_def)
  from insert_chain_ok [OF 1(3) this 1(2), of kv] 1 show ?case by (simp add: insert_ok_def)
qed simp

lemma Insert_ok:
  "ht_inv t \<Longrightarrow> ht_room t \<Longrightarrow> never_fails m \<Longrightarrow> insert_ok t kv (InsertHashTable m t kv)"
  unfolding InsertHashTable_def by (rule Insert_nested_ok) simp_all

section \<open>Deleting through an iterator\<close>

text \<open>The two ways an iterator can stand relative to an entry that is removed.\<close>

lemma ht_rest_subset: "b < length (ht_buckets t) \<Longrightarrow> set (ht_rest t b j) \<subseteq> set (ht_entries t)"
  by (force simp: ht_rest_def ht_entries_def dest: in_set_dropD)

lemma hti_at_subset: "hti_at t it kvs \<Longrightarrow> set kvs \<subseteq> set (ht_entries t)"
  using ht_rest_subset by (auto simp: hti_at_def split: if_splits)

lemma entry_bucket:
  "ht_inv t \<Longrightarrow> i < length (ht_buckets t) \<Longrightarrow> kv \<in> set (ll_list (ht_buckets t ! i)) \<Longrightarrow> bucket_of t (kv_key kv) = i"
  by (simp add: ht_inv_def chain_ok_def bucket_of_def)

lemma ht_rest_bucket:
  assumes "ht_inv t" "b < length (ht_buckets t)" "kv \<in> set (ht_rest t b j)"
  shows "b \<le> bucket_of t (kv_key kv)"
proof (cases "kv \<in> set (ll_list (ht_buckets t ! b))")
  case True
  then show ?thesis using entry_bucket [OF assms(1,2)] by simp
next
  case False
  then obtain l where "l \<in> set (drop (Suc b) (ht_buckets t))" "kv \<in> set (ll_list l)"
    using assms(3) by (auto simp: ht_rest_def dest: in_set_dropD)
  then obtain i where "i < length (drop (Suc b) (ht_buckets t))" "l = drop (Suc b) (ht_buckets t) ! i"
    by (auto simp: in_set_conv_nth)
  then have "Suc b + i < length (ht_buckets t)" "l = ht_buckets t ! (Suc b + i)" by simp_all
  then show ?thesis using entry_bucket [OF assms(1)] \<open>kv \<in> set (ll_list l)\<close> by fastforce
qed

text \<open>
  Removing an entry that the iterator has passed leaves what it still has to visit: the
  entry is in an earlier chain, or before the iterator in the same one.
\<close>

lemma hti_at_removed:
  assumes inv: "ht_inv t" and at: "hti_at t it kvs" and k: "k \<notin> set (keys kvs)"
    and passed: "hti_valid it \<Longrightarrow> bucket_of t k \<le> unat (hti_bucket_num it)"
    and b: "unat b = bucket_of t k"
    and l': "chain_without (ht_buckets t ! bucket_of t k) k l'"
  shows "hti_at ((set_bucket t b l')\<lparr>ht_num_elements := n\<rparr>) it kvs"
proof (cases "hti_valid it")
  case False
  with at show ?thesis by (simp add: hti_at_def)
next
  case True
  let ?t = "(set_bucket t b l')\<lparr>ht_num_elements := n\<rparr>" and ?c = "unat (hti_bucket_num it)"
  let ?l = "ht_buckets t ! bucket_of t k"
  obtain llit p where v: "hti_bucket_it it = Some llit" "?c < length (ht_buckets t)"
    "it_at (ht_buckets t ! ?c) llit p" "kvs = ht_rest t ?c p"
    using at True by (auto simp: hti_at_def)
  obtain j where j: "j < length (ll_list ?l)" "kv_key (ll_list ?l ! j) = k" "ll_inv l'"
    "ll_list l' = take j (ll_list ?l) @ drop (Suc j) (ll_list ?l)"
    "\<And>jt i. it_at ?l jt i \<Longrightarrow> i \<noteq> j \<Longrightarrow> it_at l' jt (if i < j then i else i - 1)"
    using l' by (auto simp: chain_without_def)
  have later: "drop (Suc ?c) (ht_buckets ?t) = drop (Suc ?c) (ht_buckets t)"
    using passed [OF True] b by (simp add: set_bucket_def)
  show ?thesis
  proof (cases "?c = bucket_of t k")
    case False
    then have "ht_buckets ?t ! ?c = ht_buckets t ! ?c" using b by (simp add: set_bucket_def)
    then show ?thesis using True v later by (auto simp: hti_at_def ht_rest_def set_bucket_def)
  next
    case same: True
    have "j < p"
    proof (rule ccontr)
      assume "\<not> j < p"
      then have "ll_list ?l ! j \<in> set (drop p (ll_list ?l))"
        using j(1) Cons_nth_drop_Suc [of j "ll_list ?l"] set_drop_subset_set_drop [of p j "ll_list ?l"]
        by (metis list.set_intros(1) not_less subsetD)
      then have "ll_list ?l ! j \<in> set kvs" using v(4) same by (simp add: ht_rest_def)
      with k j(2) show False by force
    qed
    have nth: "ht_buckets ?t ! ?c = l'" using same b v(2) by (simp add: set_bucket_def)
    have "it_at l' llit (p - 1)" using j(5) [of llit p] v(3) same \<open>j < p\<close> by simp
    moreover have "kvs = ht_rest ?t ?c (p - 1)"
      using v(4) same \<open>j < p\<close> j(1,4) later nth by (simp add: ht_rest_def)
    ultimately show ?thesis using True v(1,2) nth
      unfolding hti_at_def by (auto simp: set_bucket_def)
  qed
qed

lemma HTIteratorDelete_ok:
  assumes inv: "ht_inv t" and at: "hti_at t it (kv # kvs)" and distinct: "distinct (keys (kv # kvs))"
    and m: "never_fails m"
  shows "\<exists>m' t' it'. HTIteratorDelete m t it = Inr (if kvs = [] then 2 else 1, Some kv, m', t', it') \<and>
           never_fails m' \<and> ht_inv t' \<and> ht_map t' = (ht_map t)(kv_key kv := None) \<and>
           ht_num_elements t' = ht_num_elements t - 1 \<and> hti_at t' it' kvs"
proof -
  let ?k = "kv_key kv"
  have get: "HTIteratorGet t it = Inr (Some kv)" using Get_ok [OF inv at hti_at_subset [OF at]] by simp
  obtain m1 it1 where nx: "HTIteratorNext m t it = Inr (if kvs = [] then 0 else 1, m1, it1)"
    "never_fails m1" "hti_at t it1 kvs" using HTNext_ok [OF inv at m] by blast
  from at obtain b llit j where v: "hti_valid it" "b < length (ht_buckets t)" "it_at (ht_buckets t ! b) llit j"
    "kv = ll_list (ht_buckets t ! b) ! j" "kvs = ht_rest t b (Suc j)" by (rule hti_at_validE)
  have j: "j < length (ll_list (ht_buckets t ! b))" using v(3) by (rule it_at_less)
  have bk: "bucket_of t ?k = b" using ht_inv_bucket [OF inv v(2)] j v(4) by (auto simp: chain_ok_def bucket_of_def)
  have d: "distinct (keys (ll_list (ht_buckets t ! b)))" using ht_inv_bucket [OF inv v(2)] by (simp add: chain_ok_def)
  have map: "ht_map t ?k = Some (kv_value kv)"
    using ht_map_bucket [OF inv, of ?k] kv_map_nth [OF d j] bk v(4) by simp
  have ne: "ll_list (ht_buckets t ! b) \<noteq> []" using j by auto
  obtain l' w where rm: "RemoveFromHashTable m1 t ?k = Inr (1, Some kv, snd (malloc m1),
      (set_bucket t w l')\<lparr>ht_num_elements := ht_num_elements t - 1\<rparr>)" "unat w = bucket_of t ?k"
      "chain_without (ht_buckets t ! bucket_of t ?k) ?k l'"
    using Remove_ok [OF inv, of ?k m1] map nx(2) bk ne by (auto simp: kv_eta)
  let ?t = "(set_bucket t w l')\<lparr>ht_num_elements := ht_num_elements t - 1\<rparr>"
  have "bucket_of t ?k \<le> unat (hti_bucket_num it1)" if valid: "hti_valid it1"
  proof -
    obtain kv' kvs' where kvs: "kvs = kv' # kvs'" using hti_at_valid [OF nx(3)] valid by (cases kvs) auto
    from nx(3) [unfolded kvs] obtain c p where "unat (hti_bucket_num it1) = c" "c < length (ht_buckets t)"
      "kv' = ll_list (ht_buckets t ! c) ! p" "p < length (ll_list (ht_buckets t ! c))"
      by (rule hti_at_validE) (auto dest: it_at_less)
    then have "bucket_of t (kv_key kv') = unat (hti_bucket_num it1)" using entry_bucket [OF inv] by auto
    moreover have "b \<le> bucket_of t (kv_key kv')"
      using ht_rest_bucket [OF inv v(2), of kv' "Suc j"] v(5) kvs
      by (metis list.set_intros(1))
    ultimately show ?thesis using bk by simp
  qed
  then have "hti_at ?t it1 kvs"
    using hti_at_removed [OF inv nx(3) _ _ rm(2,3)] distinct by auto
  moreover have "HTIteratorDelete m t it = Inr (if kvs = [] then 2 else 1, Some kv, snd (malloc m1), ?t, it1)"
    using get nx(1) rm(1) by (simp add: HTIteratorDelete_def Let_def)
  ultimately show ?thesis using removed_ok [OF inv rm(2,3)] nx(2) by auto
qed

end
