(* ===== verification/HashTableSpec.thy ===== *)
theory HashTableSpec
  imports HashTableRep
begin

text \<open>
  The contract of HashTable as the interface \<open>map_store\<close>, its interpretation on the code's
  table, the loop that visits a table, and the properties of the component.
\<close>

section \<open>The contract of a hash table\<close>

text \<open>
  What HashTable.h promises its clients, when allocation does not fail: the return codes
  (0 for absent, 1 for found or new, 2 for replaced), the pair handed back, and the effect
  on the finite map the table stands for.
\<close>

locale map_store =
  fixes inv :: "'t \<Rightarrow> bool" and to_map :: "'t \<Rightarrow> HTKey_t \<Rightarrow> 'v option" and count :: "'t \<Rightarrow> nat"
    and look :: "allocator \<Rightarrow> 't \<Rightarrow> HTKey_t \<Rightarrow> (int \<times> 'v ht_kv option \<times> allocator) res"
    and ins :: "allocator \<Rightarrow> 't \<Rightarrow> 'v ht_kv \<Rightarrow> (int \<times> 'v ht_kv option \<times> allocator \<times> 't) res"
    and rem :: "allocator \<Rightarrow> 't \<Rightarrow> HTKey_t \<Rightarrow> (int \<times> 'v ht_kv option \<times> allocator \<times> 't) res"
  assumes look: "inv t \<Longrightarrow> never_fails m \<Longrightarrow>
      \<exists>m'. look m t k = Inr (if to_map t k = None then 0 else 1, map_option (as_kv k) (to_map t k), m') \<and>
        never_fails m'"
    and ins: "inv t \<Longrightarrow> Suc (count t) < 2 ^ 32 \<Longrightarrow> never_fails m \<Longrightarrow>
      \<exists>m' t'. ins m t (as_kv k v) =
          Inr (if to_map t k = None then 1 else 2, map_option (as_kv k) (to_map t k), m', t') \<and>
        never_fails m' \<and> inv t' \<and> to_map t' = (to_map t)(k \<mapsto> v)"
    and rem: "inv t \<Longrightarrow> never_fails m \<Longrightarrow>
      \<exists>m' t'. rem m t k =
          Inr (if to_map t k = None then 0 else 1, map_option (as_kv k) (to_map t k), m', t') \<and>
        never_fails m' \<and> inv t' \<and> to_map t' = (to_map t)(k := None)"
    and count: "inv t \<Longrightarrow> finite (dom (to_map t)) \<and> count t = card (dom (to_map t))"

text \<open>A client that issues a sequence of calls, and the same client on a plain map.\<close>

datatype 'v map_cmd = CInsert HTKey_t 'v | CLookup HTKey_t | CRemove HTKey_t

fun map_run ::
  "(allocator \<Rightarrow> 't \<Rightarrow> HTKey_t \<Rightarrow> (int \<times> 'v ht_kv option \<times> allocator) res) \<Rightarrow>
   (allocator \<Rightarrow> 't \<Rightarrow> 'v ht_kv \<Rightarrow> (int \<times> 'v ht_kv option \<times> allocator \<times> 't) res) \<Rightarrow>
   (allocator \<Rightarrow> 't \<Rightarrow> HTKey_t \<Rightarrow> (int \<times> 'v ht_kv option \<times> allocator \<times> 't) res) \<Rightarrow>
   'v map_cmd list \<Rightarrow> allocator \<Rightarrow> 't \<Rightarrow> ((int \<times> 'v ht_kv option) list \<times> allocator \<times> 't) res" where
  "map_run look ins rem [] m t = Inr ([], m, t)"
| "map_run look ins rem (CInsert k v # cs) m t =
     bindE (ins m t (as_kv k v)) (\<lambda>(r, kv, m, t).
     bindE (map_run look ins rem cs m t) (\<lambda>(rs, m, t). Inr ((r, kv) # rs, m, t)))"
| "map_run look ins rem (CLookup k # cs) m t =
     bindE (look m t k) (\<lambda>(r, kv, m).
     bindE (map_run look ins rem cs m t) (\<lambda>(rs, m, t). Inr ((r, kv) # rs, m, t)))"
| "map_run look ins rem (CRemove k # cs) m t =
     bindE (rem m t k) (\<lambda>(r, kv, m, t).
     bindE (map_run look ins rem cs m t) (\<lambda>(rs, m, t). Inr ((r, kv) # rs, m, t)))"

definition lookup_reply :: "(HTKey_t \<Rightarrow> 'v option) \<Rightarrow> HTKey_t \<Rightarrow> int \<times> 'v ht_kv option" where
  "lookup_reply M k = (if M k = None then 0 else 1, map_option (as_kv k) (M k))"

definition insert_reply :: "(HTKey_t \<Rightarrow> 'v option) \<Rightarrow> HTKey_t \<Rightarrow> int \<times> 'v ht_kv option" where
  "insert_reply M k = (if M k = None then 1 else 2, map_option (as_kv k) (M k))"

definition remove_reply :: "(HTKey_t \<Rightarrow> 'v option) \<Rightarrow> HTKey_t \<Rightarrow> int \<times> 'v ht_kv option" where
  "remove_reply M k = (if M k = None then 0 else 1, map_option (as_kv k) (M k))"

lemmas reply_defs = lookup_reply_def insert_reply_def remove_reply_def

fun spec_map_run :: "'v map_cmd list \<Rightarrow> (HTKey_t \<Rightarrow> 'v option) \<Rightarrow>
    (int \<times> 'v ht_kv option) list \<times> (HTKey_t \<Rightarrow> 'v option)" where
  "spec_map_run [] M = ([], M)"
| "spec_map_run (CInsert k v # cs) M =
     (let (rs, M') = spec_map_run cs (M(k \<mapsto> v)) in (insert_reply M k # rs, M'))"
| "spec_map_run (CLookup k # cs) M =
     (let (rs, M') = spec_map_run cs M in (lookup_reply M k # rs, M'))"
| "spec_map_run (CRemove k # cs) M =
     (let (rs, M') = spec_map_run cs (M(k := None)) in (remove_reply M k # rs, M'))"

context map_store
begin

lemma count_upd: "inv t \<Longrightarrow> inv t' \<Longrightarrow> to_map t' = (to_map t)(k \<mapsto> v) \<Longrightarrow> count t' \<le> Suc (count t)"
  using count [of t] count [of t'] by (simp add: card_insert_if)

lemma count_del: "inv t \<Longrightarrow> inv t' \<Longrightarrow> to_map t' = (to_map t)(k := None) \<Longrightarrow> count t' \<le> count t"
  using count [of t] count [of t'] by (simp add: card_Diff1_le)

lemma ins_full:
  assumes "inv t" "Suc (count t) < 2 ^ 32" "never_fails m"
  shows "\<exists>m' t'. ins m t \<lparr>kv_key = k, kv_value = v\<rparr> =
      Inr (if to_map t k = None then 1 else 2, map_option (as_kv k) (to_map t k), m', t') \<and>
      never_fails m' \<and> inv t' \<and> to_map t' = (to_map t)(k \<mapsto> v) \<and>
      count t' = count t + (if to_map t k = None then 1 else 0)"
proof -
  obtain m' t' where *: "ins m t (as_kv k v) =
      Inr (if to_map t k = None then 1 else 2, map_option (as_kv k) (to_map t k), m', t')"
    "never_fails m'" "inv t'" "to_map t' = (to_map t)(k \<mapsto> v)" using ins [OF assms] by blast
  have "count t' = count t + (if to_map t k = None then 1 else 0)"
    using count [OF assms(1)] count [OF *(3)] *(4) by (auto simp: card_insert_if domIff)
  with * show ?thesis by (intro exI [of _ m'] exI [of _ t']) (simp add: as_kv_def)
qed

lemma run_refines:
  "inv t \<Longrightarrow> count t + length cs < 2 ^ 32 \<Longrightarrow> never_fails m \<Longrightarrow>
   \<exists>m' t'. map_run look ins rem cs m t = Inr (fst (spec_map_run cs (to_map t)), m', t') \<and> never_fails m' \<and>
     inv t' \<and> to_map t' = snd (spec_map_run cs (to_map t))"
proof (induction cs arbitrary: m t)
  case (Cons c cs)
  show ?case
  proof (cases c)
    case (CInsert k v)
    obtain m1 t1 where 1: "ins m t (as_kv k v) =
        Inr (if to_map t k = None then 1 else 2, map_option (as_kv k) (to_map t k), m1, t1)"
      "never_fails m1" "inv t1" "to_map t1 = (to_map t)(k \<mapsto> v)"
      using ins [of t m k v] Cons.prems by auto
    have "count t1 + length cs < 2 ^ 32" using count_upd [OF Cons.prems(1) 1(3,4)] Cons.prems(2) by simp
    from Cons.IH [OF 1(3) this 1(2), unfolded 1(4)] obtain m2 t2 where
      "map_run look ins rem cs m1 t1 = Inr (fst (spec_map_run cs ((to_map t)(k \<mapsto> v))), m2, t2)" "never_fails m2" "inv t2"
      "to_map t2 = snd (spec_map_run cs ((to_map t)(k \<mapsto> v)))" by blast
    then show ?thesis using 1(1) CInsert by (simp add: case_prod_beta Let_def reply_defs)
  next
    case (CLookup k)
    obtain m1 where 1: "look m t k =
        Inr (if to_map t k = None then 0 else 1, map_option (as_kv k) (to_map t k), m1)" "never_fails m1"
      using look [of t m k] Cons.prems by auto
    have "count t + length cs < 2 ^ 32" using Cons.prems(2) by simp
    from Cons.IH [OF Cons.prems(1) this 1(2)] show ?thesis using 1(1) CLookup
      by (auto simp: case_prod_beta Let_def reply_defs)
  next
    case (CRemove k)
    obtain m1 t1 where 1: "rem m t k =
        Inr (if to_map t k = None then 0 else 1, map_option (as_kv k) (to_map t k), m1, t1)"
      "never_fails m1" "inv t1" "to_map t1 = (to_map t)(k := None)"
      using rem [of t m k] Cons.prems by auto
    have "count t1 + length cs < 2 ^ 32" using count_del [OF Cons.prems(1) 1(3,4)] Cons.prems(2) by simp
    from Cons.IH [OF 1(3) this 1(2), unfolded 1(4)] obtain m2 t2 where
      "map_run look ins rem cs m1 t1 = Inr (fst (spec_map_run cs ((to_map t)(k := None))), m2, t2)" "never_fails m2" "inv t2"
      "to_map t2 = snd (spec_map_run cs ((to_map t)(k := None)))" by blast
    then show ?thesis using 1(1) CRemove by (simp add: case_prod_beta Let_def reply_defs)
  qed
qed simp

end

section \<open>The hash table keeps the contract\<close>

lemma dom_kv_map: "dom (kv_map kvs) = set (keys kvs)"
  unfolding dom_def kv_map_None_iff by simp

lemma ht_count: "ht_inv t \<Longrightarrow> finite (dom (ht_map t)) \<and> unat (ht_num_elements t) = card (dom (ht_map t))"
  using distinct_card [OF ht_entries_distinct [of t]] by (simp add: ht_map_def dom_kv_map ht_inv_def)

lemma empty_chain_map: "ht_inv t \<Longrightarrow> ll_list (ht_buckets t ! bucket_of t k) = [] \<Longrightarrow> ht_map t k = None"
  by (simp add: ht_map_bucket)

lemma Lookup_never_fails:
  assumes "ht_inv t" "never_fails m"
  shows "\<exists>m'. LookupHashTable m t k =
      Inr (if ht_map t k = None then 0 else 1, map_option (as_kv k) (ht_map t k), m') \<and> never_fails m'"
  using Lookup_ok [OF assms(1), of m k] assms empty_chain_map [OF assms(1), of k] by auto

lemma Remove_never_fails:
  assumes "ht_inv t" "never_fails m"
  shows "\<exists>m' t'. RemoveFromHashTable m t k =
      Inr (if ht_map t k = None then 0 else 1, map_option (as_kv k) (ht_map t k), m', t') \<and>
      never_fails m' \<and> ht_inv t' \<and> ht_map t' = (ht_map t)(k := None)"
proof (cases "ht_map t k = None")
  case True
  then have same: "(ht_map t)(k := None) = ht_map t" by auto
  obtain m' where "RemoveFromHashTable m t k = Inr (0, None, m', t)" "never_fails m'"
    using Remove_ok [OF assms(1), of k m] True assms(2) by (auto split: if_splits)
  then show ?thesis unfolding same using True assms(1) by simp
next
  case False
  have ne: "ll_list (ht_buckets t ! bucket_of t k) \<noteq> []" 
    by (rule contrapos_nn [OF False empty_chain_map [OF assms(1)]])
  have "\<exists>l' b. RemoveFromHashTable m t k = Inr (1, map_option (as_kv k) (ht_map t k), snd (malloc m),
            (set_bucket t b l')\<lparr>ht_num_elements := ht_num_elements t - 1\<rparr>) \<and> unat b = bucket_of t k \<and>
      chain_without (ht_buckets t ! bucket_of t k) k l'"
    using Remove_ok [OF assms(1), of k m] unfolding if_not_P [OF ne] if_not_P [OF False]
    using never_fails_fst [OF assms(2)] by (simp only: not_True_eq_False if_False)
  then obtain l' b where
    *: "RemoveFromHashTable m t k = Inr (1, map_option (as_kv k) (ht_map t k), snd (malloc m),
            (set_bucket t b l')\<lparr>ht_num_elements := ht_num_elements t - 1\<rparr>)" "unat b = bucket_of t k"
      "chain_without (ht_buckets t ! bucket_of t k) k l'" by blast
  then show ?thesis using False removed_ok [OF assms(1) *(2,3)] assms(2)
    by (intro exI [of _ "snd (malloc m)"]
        exI [of _ "(set_bucket t b l')\<lparr>ht_num_elements := ht_num_elements t - 1\<rparr>"]) simp
qed

interpretation ht: map_store ht_inv ht_map "\<lambda>t. unat (ht_num_elements t)"
    LookupHashTable InsertHashTable RemoveFromHashTable
proof
  fix t :: "'a hash_table" and m k v
  assume inv: "ht_inv t"
  show "finite (dom (ht_map t)) \<and> unat (ht_num_elements t) = card (dom (ht_map t))" by (rule ht_count [OF inv])
  assume m: "never_fails m"
  show "\<exists>m'. LookupHashTable m t k =
      Inr (if ht_map t k = None then 0 else 1, map_option (as_kv k) (ht_map t k), m') \<and> never_fails m'"
    by (rule Lookup_never_fails [OF inv m])
  show "\<exists>m' t'. RemoveFromHashTable m t k =
      Inr (if ht_map t k = None then 0 else 1, map_option (as_kv k) (ht_map t k), m', t') \<and>
      never_fails m' \<and> ht_inv t' \<and> ht_map t' = (ht_map t)(k := None)"
    by (rule Remove_never_fails [OF inv m])
  assume "Suc (unat (ht_num_elements t)) < 2 ^ 32"
  then show "\<exists>m' t'. InsertHashTable m t (as_kv k v) =
        Inr (if ht_map t k = None then 1 else 2, map_option (as_kv k) (ht_map t k), m', t') \<and>
      never_fails m' \<and> ht_inv t' \<and> ht_map t' = (ht_map t)(k \<mapsto> v)"
    using Insert_ok [OF inv _ m, of "as_kv k v"] by (auto simp: ht_room_def insert_ok_def)
qed

section \<open>Visiting a whole table\<close>

text \<open>
  The loop every client of the iterator writes: while not past the end, get, advance.
\<close>

fun ht_collect :: "nat \<Rightarrow> allocator \<Rightarrow> 'v hash_table \<Rightarrow> ht_iter \<Rightarrow> ('v ht_kv list \<times> allocator) res" where
  "ht_collect fuel m t it =
     (if HTIteratorPastEnd t it \<noteq> 0 then Inr ([], m)
      else case fuel of
        0 \<Rightarrow> Inl Out_Of_Fuel
      | Suc fuel \<Rightarrow>
          bindE (HTIteratorGet t it) (\<lambda>kv.
          case kv of
            None \<Rightarrow> Inl Verify333_Failed
          | Some kv \<Rightarrow>
              bindE (HTIteratorNext m t it) (\<lambda>(_, m, it).
              bindE (ht_collect fuel m t it) (\<lambda>(kvs, m). Inr (kv # kvs, m)))))"

declare ht_collect.simps [simp del]

lemma ht_collect_ok:
  assumes inv: "ht_inv t"
  shows "hti_at t it kvs \<Longrightarrow> length kvs \<le> fuel \<Longrightarrow> never_fails m \<Longrightarrow>
     \<exists>m'. ht_collect fuel m t it = Inr (kvs, m') \<and> never_fails m'"
proof (induction kvs arbitrary: fuel m it)
  case Nil
  then show ?case using PastEnd_ok [OF inv Nil(1)] by (subst ht_collect.simps) simp
next
  case (Cons kv kvs)
  obtain k where fuel: "fuel = Suc k" "length kvs \<le> k" using Cons.prems(2) by (cases fuel) auto
  note sub = hti_at_subset [OF Cons.prems(1)]
  obtain r m1 it1 where nx: "HTIteratorNext m t it = Inr (r, m1, it1)" "never_fails m1" "hti_at t it1 kvs"
    using HTNext_ok [OF inv Cons.prems(1,3)] by blast
  obtain m2 where "ht_collect k m1 t it1 = Inr (kvs, m2)" "never_fails m2"
    using Cons.IH [OF nx(3) fuel(2) nx(2)] by blast
  then show ?case
    using PastEnd_ok [OF inv Cons.prems(1) sub] Get_ok [OF inv Cons.prems(1) sub] nx(1) fuel(1)
    by (subst ht_collect.simps) simp
qed

section \<open>Properties\<close>

definition new_table :: "HWSize_t \<Rightarrow> 'v hash_table" where
  "new_table n = \<lparr>ht_num_buckets = n, ht_num_elements = 0, ht_buckets = replicate (unat n) empty_list\<rparr>"

lemma new_table:
  assumes "n \<noteq> 0"
  shows "ht_inv (new_table n :: 'v hash_table)" "ht_map (new_table n :: 'v hash_table) = Map.empty"
proof -
  have "ht_entries (new_table n :: 'v hash_table) = []" by (simp add: ht_entries_def new_table_def)
  then show "ht_inv (new_table n :: 'v hash_table)" "ht_map (new_table n :: 'v hash_table) = Map.empty"
    using assms by (auto simp: ht_inv_def ht_map_def chain_ok_def word32_eq_0_iff fun_eq_iff new_table_def)
qed

lemma new_table_num [simp]: "ht_num_elements (new_table n) = 0"
  by (simp add: new_table_def)

lemma kv_in_entries:
  assumes "distinct (keys kvs)"
  shows "kv \<in> set kvs \<longleftrightarrow> kv_map kvs (kv_key kv) = Some (kv_value kv)"
proof
  assume "kv \<in> set kvs"
  then obtain j where "j < length kvs" "kv = kvs ! j" by (auto simp: in_set_conv_nth)
  then show "kv_map kvs (kv_key kv) = Some (kv_value kv)" using kv_map_nth [OF assms] by simp
next
  assume "kv_map kvs (kv_key kv) = Some (kv_value kv)"
  then show "kv \<in> set kvs" using kv_map_Some [of kvs "kv_key kv" "kv_value kv"] by (cases kv) simp
qed

text \<open>
  Property C11: a new table with any number of buckets but 0, used by any sequence of inserts,
  lookups and removals, answers call by call as a finite map does (0, 1 or 2, and the pair
  found, replaced or removed), through every resizing on the way; no call runs into undefined
  behaviour, a failed check or an endless loop.
\<close>

theorem hash_table_refines_map:
  assumes "n \<noteq> 0" "length cs < 2 ^ 32" "never_fails m"
  shows "\<exists>m1 t m2 t'. AllocateHashTable m n = Inr (Some t, m1) \<and>
     map_run LookupHashTable InsertHashTable RemoveFromHashTable cs m1 t =
       Inr (fst (spec_map_run cs Map.empty), m2, t') \<and>
     ht_inv t' \<and> ht_map t' = snd (spec_map_run cs Map.empty)"
proof -
  obtain m1 and t :: "'a hash_table" where 1: "AllocateHashTable m n = Inr (Some t, m1)" "never_fails m1" "ht_inv t"
    "ht_map t = Map.empty" "ht_num_elements t = 0"
    using Allocate_ok [OF assms(3,1)] by blast
  from ht.run_refines [OF 1(3), of cs m1] 1 assms(2) show ?thesis by auto
qed

lemma hash_table_refines_map_witness:
  "\<exists>m1 t m2 t'. AllocateHashTable [True] 2 = Inr (Some t, m1) \<and>
     map_run LookupHashTable InsertHashTable RemoveFromHashTable
       [CInsert 7 (10 :: nat), CInsert 9 20, CInsert 7 30, CRemove 9, CLookup 9, CLookup 7] m1 t =
       Inr ([(1, None), (1, None), (2, Some (as_kv 7 10)), (1, Some (as_kv 9 20)), (0, None), (1, Some (as_kv 7 30))],
            m2, t') \<and> ht_inv t' \<and> ht_map t' = [7 \<mapsto> 30]"
proof -
  let ?cs = "[CInsert 7 (10 :: nat), CInsert 9 20, CInsert 7 30, CRemove 9, CLookup 9, CLookup 7]"
  have "fst (spec_map_run ?cs Map.empty) =
      [(1, None), (1, None), (2, Some (as_kv 7 10)), (1, Some (as_kv 9 20)), (0, None), (1, Some (as_kv 7 30))]"
    "snd (spec_map_run ?cs Map.empty) = [7 \<mapsto> 30]"
    by (simp_all add: fun_eq_iff reply_defs)
  with hash_table_refines_map [of 2 ?cs "[True]"] show ?thesis
    unfolding never_fails_def by simp
qed

text \<open>
  \<open>InsertHashTable\<close> on any well-formed table, with room for one more element and
  without allocation failure, returns; the key is bound to the new value, every other key keeps
  its own, the counter counts the keys, and the return code and the pair handed back tell
  whether the key was there.
\<close>

theorem InsertHashTable_updates:
  assumes "ht_inv t" "Suc (unat (ht_num_elements t)) < 2 ^ 32" "never_fails m"
  shows "\<exists>m' t'. InsertHashTable m t kv =
      Inr (if ht_map t (kv_key kv) = None then 1 else 2, map_option (as_kv (kv_key kv)) (ht_map t (kv_key kv)), m', t') \<and>
      never_fails m' \<and> ht_inv t' \<and> ht_map t' = (ht_map t)(kv_key kv \<mapsto> kv_value kv) \<and>
      unat (ht_num_elements t') = unat (ht_num_elements t) + (if ht_map t (kv_key kv) = None then 1 else 0)"
  using Insert_ok [of t m kv] assms by (auto simp: ht_room_def insert_ok_def)

lemma InsertHashTable_updates_witness:
  "\<exists>m' t'. InsertHashTable [] (new_table 3) (as_kv 5 (8 :: nat)) = Inr (1, None, m', t') \<and> ht_map t' = [5 \<mapsto> 8]"
  using InsertHashTable_updates [of "new_table 3" "[]" "as_kv 5 (8 :: nat)"] new_table [of 3, where ?'v = nat]
  by simp blast

text \<open>
  Whichever calls of \<open>malloc\<close> fail, \<open>LookupHashTable\<close> returns and leaves the
  table alone: -1 for running out of memory, which an empty chain never needs, otherwise 1 with
  the pair or 0 as the key is bound or not.
\<close>

theorem LookupHashTable_any_allocator:
  assumes "ht_inv t"
  shows "LookupHashTable m t k =
     (if ll_list (ht_buckets t ! bucket_of t k) = [] then Inr (0, None, m)
      else if \<not> fst (malloc m) then Inr (- 1, None, snd (malloc m))
      else Inr (if ht_map t k = None then 0 else 1, map_option (as_kv k) (ht_map t k), snd (malloc m)))"
  using assms by (rule Lookup_ok)

definition one_entry :: "nat hash_table" where
  "one_entry = (case InsertHashTable [] (new_table 2) (as_kv 5 50) of Inr (_, _, _, t) \<Rightarrow> t | Inl _ \<Rightarrow> new_table 2)"

lemma one_entry: "ht_inv one_entry" "ht_map one_entry = [5 \<mapsto> 50]" "unat (ht_num_elements one_entry) = 1"
proof -
  obtain m' t' where "InsertHashTable [] (new_table 2) (as_kv 5 (50 :: nat)) = Inr (1, None, m', t')" "ht_inv t'"
    "ht_map t' = [5 \<mapsto> 50]"
    "unat (ht_num_elements t') = 1"
    using Insert_ok [of "new_table 2" "[]" "as_kv 5 (50 :: nat)"] new_table [of 2, where ?'v = nat]
    by (auto simp: insert_ok_def ht_room_def)
  then show "ht_inv one_entry" "ht_map one_entry = [5 \<mapsto> 50]" "unat (ht_num_elements one_entry) = 1"
    by (simp_all add: one_entry_def)
qed

lemma LookupHashTable_any_allocator_witness: "LookupHashTable [False] one_entry 5 = Inr (- 1, None, [])"
proof -
  have "ll_list (ht_buckets one_entry ! bucket_of one_entry 5) \<noteq> []" by code_simp
  with LookupHashTable_any_allocator [OF one_entry(1), of "[False]" 5] show ?thesis by simp
qed

text \<open>
  Property C28: the loop of a client that makes an iterator, and then gets the current pair and
  advances until the iterator is past the end, stops after exactly \<open>num_elements\<close> rounds and
  visits every binding of the table once.
\<close>

theorem iteration_visits_each_once:
  assumes "ht_inv t" "never_fails m"
  shows "\<exists>m1 it kvs m2. HashTableMakeIterator m t = Inr (Some it, m1) \<and>
     ht_collect (unat (ht_num_elements t)) m1 t it = Inr (kvs, m2) \<and>
     distinct (map kv_key kvs) \<and> length kvs = unat (ht_num_elements t) \<and>
     (\<forall>kv. kv \<in> set kvs \<longleftrightarrow> ht_map t (kv_key kv) = Some (kv_value kv))"
proof -
  obtain m1 it where 1: "HashTableMakeIterator m t = Inr (Some it, m1)" "never_fails m1" "hti_at t it (ht_entries t)"
    using HTMakeIterator_ok [OF assms] by blast
  have num: "unat (ht_num_elements t) = length (ht_entries t)" using assms(1) by (simp add: ht_inv_def)
  obtain m2 where "ht_collect (unat (ht_num_elements t)) m1 t it = Inr (ht_entries t, m2)"
    using ht_collect_ok [OF assms(1) 1(3) _ 1(2), of "unat (ht_num_elements t)"] num by auto
  moreover have "kv \<in> set (ht_entries t) \<longleftrightarrow> ht_map t (kv_key kv) = Some (kv_value kv)" for kv
    unfolding ht_map_def kv_in_entries [OF ht_entries_distinct [OF assms(1)]] by simp
  ultimately show ?thesis using 1(1) ht_entries_distinct [OF assms(1)] num
    by (intro exI [of _ m1] exI [of _ it] exI [of _ "ht_entries t"] exI [of _ m2]) simp
qed

lemma iteration_visits_each_once_witness:
  "\<exists>m1 it kvs m2. HashTableMakeIterator [] one_entry = Inr (Some it, m1) \<and>
     ht_collect 1 m1 one_entry it = Inr (kvs, m2) \<and> length kvs = 1 \<and>
     (\<forall>kv. kv \<in> set kvs \<longleftrightarrow> ht_map one_entry (kv_key kv) = Some (kv_value kv))"
  using iteration_visits_each_once [OF one_entry(1), of "[]"] unfolding one_entry(3) by auto

text \<open>
  \<open>HTIteratorDelete\<close> at any entry removes that entry and nothing else, hands it
  back, and leaves the iterator on the entries it still had to visit: 1 when there are any, 2
  when the last one was deleted.  Its three checks never fail.
\<close>

theorem HTIteratorDelete_removes_current:
  assumes "ht_inv t" "hti_at t it (kv # kvs)" "distinct (map kv_key (kv # kvs))" "never_fails m"
  shows "\<exists>m' t' it'. HTIteratorDelete m t it = Inr (if kvs = [] then 2 else 1, Some kv, m', t', it') \<and>
           never_fails m' \<and> ht_inv t' \<and> ht_map t' = (ht_map t)(kv_key kv := None) \<and>
           ht_num_elements t' = ht_num_elements t - 1 \<and> hti_at t' it' kvs"
  using assms by (rule HTIteratorDelete_ok)

lemma HTIteratorDelete_removes_current_witness:
  "\<exists>m1 it m' t' it'. HashTableMakeIterator [] one_entry = Inr (Some it, m1) \<and>
     HTIteratorDelete m1 one_entry it = Inr (2, Some (as_kv 5 50), m', t', it') \<and> ht_map t' = Map.empty"
proof -
  obtain m1 it where 1: "HashTableMakeIterator [] one_entry = Inr (Some it, m1)" "never_fails m1"
    "hti_at one_entry it (ht_entries one_entry)" using HTMakeIterator_ok [OF one_entry(1), of "[]"] by auto
  have "ht_entries one_entry = [as_kv 5 50]" by code_simp
  with HTIteratorDelete_removes_current [OF one_entry(1), of it "as_kv 5 50" "[]" m1] 1 one_entry(2)
  show ?thesis by auto
qed

text \<open>
  Whichever calls of \<open>malloc\<close> fail, \<open>RemoveFromHashTable\<close> returns; it either
  takes the key out of a table that stays well formed and hands its pair back, or returns 0
  for an absent key or -1 out of memory and leaves the table as it was.
\<close>

theorem RemoveFromHashTable_any_allocator:
  assumes "ht_inv t"
  shows "\<exists>r kv m' t'. RemoveFromHashTable m t k = Inr (r, kv, m', t') \<and> ht_inv t' \<and>
     (r = 1 \<and> ht_map t k \<noteq> None \<and> kv = map_option (as_kv k) (ht_map t k) \<and> ht_map t' = (ht_map t)(k := None) \<or>
      r = 0 \<and> ht_map t k = None \<and> kv = None \<and> t' = t \<or>
      r = - 1 \<and> \<not> fst (malloc m) \<and> kv = None \<and> t' = t)"
proof (cases "ll_list (ht_buckets t ! bucket_of t k) = [] \<or> \<not> fst (malloc m) \<or> ht_map t k = None")
  case True
  then show ?thesis using Remove_ok [OF assms, of k m] assms empty_chain_map [OF assms, of k]
    by (auto split: if_splits)
next
  case False
  then have "\<exists>l' b. RemoveFromHashTable m t k = Inr (1, map_option (as_kv k) (ht_map t k), snd (malloc m),
            (set_bucket t b l')\<lparr>ht_num_elements := ht_num_elements t - 1\<rparr>) \<and> unat b = bucket_of t k \<and>
      chain_without (ht_buckets t ! bucket_of t k) k l'"
    using Remove_ok [OF assms, of k m] by (simp only: de_Morgan_disj not_not if_False not_True_eq_False)
  then obtain l' b where *: "RemoveFromHashTable m t k = Inr (1, map_option (as_kv k) (ht_map t k), snd (malloc m),
            (set_bucket t b l')\<lparr>ht_num_elements := ht_num_elements t - 1\<rparr>)" "unat b = bucket_of t k"
      "chain_without (ht_buckets t ! bucket_of t k) k l'" by blast
  show ?thesis using *(1) removed_ok [OF assms *(2,3)] False by (intro exI conjI disjI1) (assumption | simp)+
qed

lemma RemoveFromHashTable_any_allocator_witness:
  "\<exists>r kv m' t'. RemoveFromHashTable [False] one_entry 5 = Inr (r, kv, m', t') \<and> ht_inv t'"
  using RemoveFromHashTable_any_allocator [OF one_entry(1), of "[False]" 5] by auto

text \<open>
  The replacing branch of \<open>InsertHashTable\<close> ignores the result of its
  \<open>PushLinkedList\<close>: when that node cannot be allocated the call still returns 2, but the
  old pair is gone, the new one is not in the table, and the counter counts an element that
  is not there.
\<close>

theorem replace_out_of_memory_loses_key:
  "\<exists>m' t'. InsertHashTable [True, True, False] one_entry (as_kv 5 60) = Inr (2, Some (as_kv 5 50), m', t') \<and>
     ht_map t' = Map.empty \<and> ht_num_elements t' = 1 \<and> \<not> ht_inv t'"
proof -
  let ?r = "InsertHashTable [True, True, False] one_entry (as_kv 5 60)"
  have "case ?r of Inl _ \<Rightarrow> False | Inr (r, kv, m', t') \<Rightarrow>
      r = 2 \<and> kv = Some (as_kv 5 50) \<and> ht_entries t' = [] \<and> ht_num_elements t' = 1"
    by code_simp
  then obtain m' t' where "?r = Inr (2, Some (as_kv 5 50), m', t')" "ht_entries t' = []" "ht_num_elements t' = 1"
    by (auto split: sum.splits prod.splits)
  then show ?thesis by (auto simp: ht_map_def ht_inv_def fun_eq_iff)
qed

definition six_entries :: "nat hash_table" where
  "six_entries = (case map_run LookupHashTable InsertHashTable RemoveFromHashTable
      (map (\<lambda>i. CInsert (of_nat i) i) [1, 2, 3, 4, 5, 6]) [] (new_table 2) of
    Inr (_, _, t) \<Rightarrow> t | Inl _ \<Rightarrow> new_table 2)"

text \<open>
  \<open>ResizeHashtable\<close> ignores the result of \<open>HTIteratorNext\<close>: when the iterator of
  the next chain cannot be allocated, the copy is taken for complete.  Inserting a seventh key
  into this table of six returns 1 and keeps four of the seven.
\<close>

theorem resize_out_of_memory_loses_entries:
  "length (ht_entries six_entries) = 6 \<and> ht_num_elements six_entries = 6 \<and>
   (\<exists>r kv m' t'. InsertHashTable (replicate 28 True @ [False]) six_entries (as_kv 7 7) = Inr (r, kv, m', t') \<and>
      r = 1 \<and> length (ht_entries t') = 4)"
proof -
  have "case InsertHashTable (replicate 28 True @ [False]) six_entries (as_kv 7 7) of Inl _ \<Rightarrow> False
      | Inr (r, kv, m', t') \<Rightarrow> r = 1 \<and> length (ht_entries t') = 4" by code_simp
  moreover have "length (ht_entries six_entries) = 6 \<and> ht_num_elements six_entries = 6" by code_simp
  ultimately show ?thesis by (auto split: sum.splits prod.splits)
qed

text \<open>
  \<open>FreeHashTable\<close> on a well-formed table returns and calls the value free
  function on every stored value exactly as often as it is stored.
\<close>

theorem FreeHashTable_frees_every_value:
  assumes "ht_inv t"
  shows "FreeHashTable t = Inr (map kv_value (ht_entries t))"
  using assms by (rule Free_ok)

lemma FreeHashTable_frees_every_value_witness: "FreeHashTable one_entry = Inr [50]"
proof -
  have "map kv_value (ht_entries one_entry) = [50]" by code_simp
  with FreeHashTable_frees_every_value [OF one_entry(1)] show ?thesis by simp
qed

section \<open>The hash functions\<close>

definition fnv_step :: "64 word \<Rightarrow> byte \<Rightarrow> 64 word" where
  "fnv_step h b = (h XOR ucast b) * FNV_64_PRIME"

lemma FNV_loop_fold: "FNV_loop (bs @ rest) (length bs) h = Inr (fold (\<lambda>b h. fnv_step h b) bs h)"
  by (induction bs arbitrary: h) (auto simp: fnv_step_def)

lemma FNV_loop_overrun: "length bs < n \<Longrightarrow> FNV_loop bs n h = Inl Undefined_Behaviour"
proof (induction bs arbitrary: n h)
  case Nil
  then show ?case by (cases n) auto
next
  case (Cons b bs)
  then show ?case by (cases n) auto
qed

lemma FNV_loop_take: "n \<le> length bs \<Longrightarrow> FNV_loop bs n h = Inr (fold (\<lambda>b h. fnv_step h b) (take n bs) h)"
  using FNV_loop_fold [of "take n bs" "drop n bs" h] by (simp add: min_absorb2)

text \<open>The prime is odd, so multiplying by it can be undone.\<close>

lemma prime_inverse: "(x * FNV_64_PRIME) * 0xce965057aff6957b = x"
proof -
  have "FNV_64_PRIME * 0xce965057aff6957b = 1" by (simp add: FNV_64_PRIME_def)
  then show ?thesis by (simp only: mult.assoc mult_1_right)
qed

lemma prime_cancel:
  assumes "x * FNV_64_PRIME = y * FNV_64_PRIME"
  shows "x = y"
proof -
  have "(x * FNV_64_PRIME) * 0xce965057aff6957b = (y * FNV_64_PRIME) * 0xce965057aff6957b"
    by (simp only: assms)
  then show ?thesis by (simp only: prime_inverse)
qed

lemma fnv_step_inj_hash: "fnv_step h b = fnv_step h' b \<longleftrightarrow> h = h'"
proof
  assume "fnv_step h b = fnv_step h' b"
  then have "h XOR ucast b = h' XOR ucast b" unfolding fnv_step_def by (rule prime_cancel)
  then have "(h XOR ucast b) XOR ucast b = (h' XOR ucast b) XOR ucast b" by (simp only:)
  then show "h = h'" by (simp only: xor.assoc xor_self_eq xor.right_neutral)
qed simp

lemma ucast8_inj: "(ucast (b :: byte) :: 64 word) = ucast b' \<longleftrightarrow> b = b'"
proof
  assume "(ucast b :: 64 word) = ucast b'"
  then have "unat (ucast b :: 64 word) = unat (ucast b' :: 64 word)" by simp
  moreover have "unat (ucast c :: 64 word) = unat c" for c :: byte
    using unsigned_less [of c, where ?'a = nat] by (simp add: unsigned_ucast_eq take_bit_nat_eq_self)
  ultimately show "b = b'" by (simp add: word_unat_eq_iff)
qed simp

lemma fnv_step_inj_byte: "fnv_step h b = fnv_step h b' \<longleftrightarrow> b = b'"
proof
  assume "fnv_step h b = fnv_step h b'"
  then have "h XOR ucast b = h XOR ucast b'" unfolding fnv_step_def by (rule prime_cancel)
  then have "h XOR (h XOR ucast b) = h XOR (h XOR ucast b')" by (simp only:)
  then have "(ucast b :: 64 word) = ucast b'" by (simp only: xor.assoc [symmetric] xor_self_eq xor.left_neutral)
  then show "b = b'" by (simp only: ucast8_inj)
qed simp

lemma fnv_fold_inj: "fold (\<lambda>b h. fnv_step h b) bs h = fold (\<lambda>b h. fnv_step h b) bs h' \<longleftrightarrow> h = h'"
  by (induction bs arbitrary: h h') (auto simp: fnv_step_inj_hash)

text \<open>
  \<open>FNVHash64\<close> returns for every buffer that holds the \<open>len\<close> bytes it is asked
  to hash, and reads past the end of every buffer that does not.
\<close>

theorem FNVHash64_reads_len_bytes:
  "FNVHash64 buffer len =
     (if unat len \<le> length buffer
      then Inr (fold (\<lambda>b h. fnv_step h b) (take (unat len) buffer) FNV1_64_INIT)
      else Inl Undefined_Behaviour)"
  by (simp add: FNVHash64_def FNV_loop_take FNV_loop_overrun)

text \<open>
  Two buffers of one length that differ in exactly one byte have different
  hashes.
\<close>

theorem FNVHash64_one_byte:
  assumes "b \<noteq> b'" "Suc (length us + length vs) < 2 ^ 32"
  shows "FNVHash64 (us @ b # vs) (of_nat (Suc (length us + length vs))) \<noteq>
         FNVHash64 (us @ b' # vs) (of_nat (Suc (length us + length vs)))"
proof -
  have u: "unat (of_nat (Suc (length us + length vs)) :: 32 word) = Suc (length us + length vs)"
    using assms(2) by (simp add: unsigned_of_nat take_bit_nat_eq_self del: of_nat_Suc)
  have "FNVHash64 (us @ c # vs) (of_nat (Suc (length us + length vs))) =
      Inr (fold (\<lambda>b h. fnv_step h b) vs (fnv_step (fold (\<lambda>b h. fnv_step h b) us FNV1_64_INIT) c))" for c
    unfolding FNVHash64_def u by (subst FNV_loop_take) simp_all
  then show ?thesis using assms(1) by (simp add: fnv_fold_inj fnv_step_inj_byte)
qed

lemma FNVHash64_one_byte_witness: "FNVHash64 [1, 2, 3] 3 \<noteq> FNVHash64 [1, 7, 3] 3"
  using FNVHash64_one_byte [of 2 7 "[1]" "[3]"] by simp

lemma ucast_and_255: "(ucast (w AND 0xFF) :: byte) = ucast (w :: 64 word)"
proof -
  have m: "(0xFF :: 64 word) = mask 8" by (simp add: mask_eq_exp_minus_1)
  show ?thesis unfolding m by (intro bit_word_eqI) (simp add: bit_simps)
qed

lemma FNVHashInt64_bytes_map:
  "FNVHashInt64_bytes n w = map (\<lambda>i. ucast (drop_bit (8 * i) w)) [0..<n]"
  by (induction n arbitrary: w)
    (simp_all add: ucast_and_255 upt_rec [of 0] map_Suc_upt [symmetric] add.commute del: upt_Suc)

text \<open>
  \<open>FNVHashInt64\<close> hashes the eight bytes of the integer, least significant
  first, and always returns.
\<close>

theorem FNVHashInt64_hashes_bytes:
  "FNVHashInt64 v = Inr (fold (\<lambda>b h. fnv_step h b) (map (\<lambda>i. ucast (drop_bit (8 * i) v)) [0..<8]) FNV1_64_INIT)"
  unfolding FNVHashInt64_def FNVHash64_def FNVHashInt64_bytes_map by (subst FNV_loop_take) simp_all

end
