(* ===== verification/CString.thy ===== *)
theory CString
  imports HashTable
begin

text \<open>
  C strings, the character functions of the standard library the program calls, and the
  store of the structures that the hash tables point to.

  A C string is a \<open>string\<close> without the terminating NUL; a \<open>char\<close> is one byte.  The
  character functions are those of the C locale.
\<close>

section \<open>Characters and strings\<close>

definition NUL :: char where
  "NUL = CHR 0x00"

definition isalpha :: "char \<Rightarrow> bool" where
  "isalpha c \<longleftrightarrow> (65 \<le> (of_char c :: nat) \<and> (of_char c :: nat) \<le> 90) \<or>
                 (97 \<le> (of_char c :: nat) \<and> (of_char c :: nat) \<le> 122)"

definition tolower :: "char \<Rightarrow> char" where
  "tolower c = (if 65 \<le> (of_char c :: nat) \<and> (of_char c :: nat) \<le> 90
                then char_of (of_char c + 32 :: nat) else c)"

definition bytes_of :: "string \<Rightarrow> byte list" where
  "bytes_of s = map of_char s"

text \<open>
  \<open>FNVHash64((unsigned char *) s, strlen(s))\<close>: the length is a \<open>size_t\<close> that the call
  converts to the 32-bit \<open>HWSize_t\<close>.
\<close>

definition hash_str :: "string \<Rightarrow> HTKey_t res" where
  "hash_str s = FNVHash64 (bytes_of s) (of_nat (length s))"

section \<open>A store of structures\<close>

text \<open>
  The values of a hash table are pointers.  Where the program changes the structure behind
  one, the table holds addresses into a store; addresses are never reused, and reading or
  freeing a dead one is undefined behaviour.
\<close>

record 'a store =
  st_cells :: "nat \<Rightarrow> 'a option"
  st_brk :: nat

definition empty_store :: "'a store" where
  "empty_store = \<lparr>st_cells = Map.empty, st_brk = 0\<rparr>"

declare empty_store_def [code_unfold]

definition st_alloc :: "'a store \<Rightarrow> 'a \<Rightarrow> nat \<times> 'a store" where
  "st_alloc s x = (st_brk s, s\<lparr>st_cells := (st_cells s)(st_brk s \<mapsto> x), st_brk := Suc (st_brk s)\<rparr>)"

definition st_read :: "'a store \<Rightarrow> nat \<Rightarrow> 'a res" where
  "st_read s a = (case st_cells s a of None \<Rightarrow> Inl Undefined_Behaviour | Some x \<Rightarrow> Inr x)"

definition st_write :: "'a store \<Rightarrow> nat \<Rightarrow> 'a \<Rightarrow> 'a store res" where
  "st_write s a x =
     (case st_cells s a of None \<Rightarrow> Inl Undefined_Behaviour
      | Some _ \<Rightarrow> Inr (s\<lparr>st_cells := (st_cells s)(a \<mapsto> x)\<rparr>))"

definition st_free :: "'a store \<Rightarrow> nat \<Rightarrow> 'a store res" where
  "st_free s a =
     (case st_cells s a of None \<Rightarrow> Inl Undefined_Behaviour
      | Some _ \<Rightarrow> Inr (s\<lparr>st_cells := (st_cells s)(a := None)\<rparr>))"

lemma st_read_Some [simp]: "st_cells s a = Some x \<Longrightarrow> st_read s a = Inr x"
  by (simp add: st_read_def)

lemma st_write_Some [simp]: "st_cells s a = Some y \<Longrightarrow> st_write s a x = Inr (s\<lparr>st_cells := (st_cells s)(a \<mapsto> x)\<rparr>)"
  by (simp add: st_write_def)

lemma st_free_Some [simp]: "st_cells s a = Some y \<Longrightarrow> st_free s a = Inr (s\<lparr>st_cells := (st_cells s)(a := None)\<rparr>)"
  by (simp add: st_free_def)

section \<open>Facts about characters and hashes\<close>

lemma isalpha_NUL [simp]: "\<not> isalpha NUL"
  by (simp add: isalpha_def NUL_def)

lemma length_bytes_of [simp]: "length (bytes_of s) = length s"
  by (simp add: bytes_of_def)

end
