(* ===== verification/DocTable.thy ===== *)
theory DocTable
  imports CString
begin

text \<open>
  The document table of src/hw2/doctable.c: two hash tables, from document ids to names and
  from hashed names to ids.  The values are a name and an id that nothing changes once they
  are stored, so a table holds them directly.
\<close>

type_synonym DocID_t = "64 word"

record doc_table =
  docid_to_docname :: "string hash_table"
  docname_to_docid :: "DocID_t hash_table"
  max_id :: DocID_t

definition AllocateDocTable :: "allocator \<Rightarrow> (doc_table \<times> allocator) res" where
  "AllocateDocTable m =
     (case malloc m of (ok, m) \<Rightarrow>
      bindE (Verify333 ok) (\<lambda>_.
      bindE (AllocateHashTable m 1024) (\<lambda>(ids, m).
      bindE (AllocateHashTable m 1024) (\<lambda>(names, m).
      case (ids, names) of
        (Some ids, Some names) \<Rightarrow>
          Inr (\<lparr>docid_to_docname = ids, docname_to_docid = names, max_id = 0\<rparr>, m)
      | _ \<Rightarrow> Inl Verify333_Failed))))"

text \<open>The result lists what the two calls of \<open>FreeHashTable\<close> hand to \<open>free\<close>.\<close>

definition FreeDocTable :: "doc_table \<Rightarrow> (string list \<times> DocID_t list) res" where
  "FreeDocTable table =
     bindE (FreeHashTable (docid_to_docname table)) (\<lambda>names.
     bindE (FreeHashTable (docname_to_docid table)) (\<lambda>ids. Inr (names, ids)))"

definition DTNumDocsInDocTable :: "doc_table \<Rightarrow> HWSize_t" where
  "DTNumDocsInDocTable table = NumElementsInHashTable (docid_to_docname table)"

definition DTGetDocidTable :: "doc_table \<Rightarrow> string hash_table" where
  "DTGetDocidTable table = docid_to_docname table"

definition DTRegisterDocumentName ::
  "allocator \<Rightarrow> doc_table \<Rightarrow> string \<Rightarrow> (DocID_t \<times> allocator \<times> doc_table) res" where
  "DTRegisterDocumentName m table docname =
     (case malloc m of (docid_ok, m) \<Rightarrow>
      case malloc m of (doccopy_ok, m) \<Rightarrow>
      bindE (Verify333 doccopy_ok) (\<lambda>_.
      bindE (Verify333 docid_ok) (\<lambda>_.
      bindE (hash_str docname) (\<lambda>key.
      bindE (LookupHashTable m (docname_to_docid table) key) (\<lambda>(ret, oldkv, m).
      case (ret = 1, oldkv) of
        (True, Some oldkv) \<Rightarrow> Inr (kv_value oldkv, m, table)
      | (True, None) \<Rightarrow> Inl Undefined_Behaviour
      | (False, _) \<Rightarrow>
          let docid = max_id table + 1; table = table\<lparr>max_id := docid\<rparr> in
          bindE (InsertHashTable m (DTGetDocidTable table) \<lparr>kv_key = docid, kv_value = docname\<rparr>)
            (\<lambda>(ret, _, m, ids).
          let table = table\<lparr>docid_to_docname := ids\<rparr> in
          bindE (Verify333 (ret = 1)) (\<lambda>_.
          bindE (InsertHashTable m (docname_to_docid table) \<lparr>kv_key = key, kv_value = docid\<rparr>)
            (\<lambda>(ret, _, m, names).
          let table = table\<lparr>docname_to_docid := names\<rparr> in
          bindE (Verify333 (ret = 1)) (\<lambda>_. Inr (docid, m, table))))))))))"

text \<open>
  Only a return value of 0 is taken for not found; -1 (out of memory) goes on to read the
  pair that was not set.
\<close>

definition DTLookupDocumentName ::
  "allocator \<Rightarrow> doc_table \<Rightarrow> string \<Rightarrow> (DocID_t \<times> allocator) res" where
  "DTLookupDocumentName m table docname =
     bindE (hash_str docname) (\<lambda>key.
     bindE (LookupHashTable m (docname_to_docid table) key) (\<lambda>(res, kv, m).
     if res = 0 then Inr (0, m)
     else case kv of None \<Rightarrow> Inl Undefined_Behaviour | Some kv \<Rightarrow> Inr (kv_value kv, m)))"

definition DTLookupDocID ::
  "allocator \<Rightarrow> doc_table \<Rightarrow> DocID_t \<Rightarrow> (string option \<times> allocator) res" where
  "DTLookupDocID m table docid =
     bindE (Verify333 (docid \<noteq> 0)) (\<lambda>_.
     bindE (LookupHashTable m (DTGetDocidTable table) docid) (\<lambda>(res, kv, m).
     if res = 0 then Inr (None, m)
     else case kv of None \<Rightarrow> Inl Undefined_Behaviour | Some kv \<Rightarrow> Inr (Some (kv_value kv), m)))"

end
