(* ===== verification/DocTableSpec.thy ===== *)
theory DocTableSpec
  imports DocTable HashTableSpec
begin

text \<open>
  What a document table stands for, and its properties: ids are handed out from 1 in the order
  of first registration, and names and ids translate into each other.
\<close>

section \<open>Hashing a string\<close>

text \<open>Hashing a string always returns; \<open>str_key\<close> is the key it returns.\<close>

definition str_key :: "string \<Rightarrow> HTKey_t" where
  "str_key s = fold (\<lambda>b h. fnv_step h b) (take (unat (of_nat (length s) :: HWSize_t)) (bytes_of s)) FNV1_64_INIT"

lemma unat_of_nat_le: "unat (of_nat n :: HWSize_t) \<le> n"
  by (simp add: unsigned_of_nat take_bit_eq_mod)

lemma hash_str [simp]: "hash_str s = Inr (str_key s)"
  unfolding hash_str_def FNVHash64_def str_key_def by (rule FNV_loop_take) (simp add: unat_of_nat_le)

section \<open>What a document table stands for\<close>

text \<open>
  The names registered so far, in the order of their ids: the id of \<open>names ! i\<close> is
  \<open>i + 1\<close>.  The code tells names apart by their keys only, and so does the specification.
\<close>

definition dt_rep :: "doc_table \<Rightarrow> string list \<Rightarrow> bool" where
  "dt_rep t names \<longleftrightarrow>
     ht_inv (docid_to_docname t) \<and> ht_inv (docname_to_docid t) \<and>
     unat (max_id t) = length names \<and> length names < 2 ^ 32 \<and>
     unat (ht_num_elements (docid_to_docname t)) = length names \<and>
     unat (ht_num_elements (docname_to_docid t)) = length names \<and>
     (\<forall>k. ht_map (docid_to_docname t) k =
        (if 0 < unat k \<and> unat k \<le> length names then Some (names ! (unat k - 1)) else None)) \<and>
     (\<forall>i < length names. ht_map (docname_to_docid t) (str_key (names ! i)) = Some (of_nat (Suc i))) \<and>
     (\<forall>k. k \<notin> str_key ` set names \<longrightarrow> ht_map (docname_to_docid t) k = None) \<and>
     distinct (map str_key names)"

definition spec_docid :: "string list \<Rightarrow> string \<Rightarrow> DocID_t" where
  "spec_docid names name =
     (if str_key name \<in> str_key ` set names
      then of_nat (Suc (length (takeWhile (\<lambda>n. str_key n \<noteq> str_key name) names))) else 0)"

text \<open>The registrations of a list of names, in order, on the code and on the specification.\<close>

fun register_all :: "allocator \<Rightarrow> doc_table \<Rightarrow> string list \<Rightarrow> (DocID_t list \<times> allocator \<times> doc_table) res" where
  "register_all m t [] = Inr ([], m, t)"
| "register_all m t (n # ns) =
     bindE (DTRegisterDocumentName m t n) (\<lambda>(i, m, t).
     bindE (register_all m t ns) (\<lambda>(is, m, t). Inr (i # is, m, t)))"

definition spec_register :: "string list \<Rightarrow> string \<Rightarrow> DocID_t \<times> string list" where
  "spec_register names name =
     (if str_key name \<in> str_key ` set names then (spec_docid names name, names)
      else (of_nat (Suc (length names)), names @ [name]))"

lemma length_takeWhile_less: "\<exists>x \<in> set xs. \<not> P x \<Longrightarrow> length (takeWhile P xs) < length xs"
  by (induction xs) auto

lemma dt_rep_index:
  assumes "str_key name \<in> str_key ` set names"
  defines "i \<equiv> length (takeWhile (\<lambda>n. str_key n \<noteq> str_key name) names)"
  shows "i < length names" "str_key (names ! i) = str_key name"
proof -
  have "\<exists>n \<in> set names. str_key n = str_key name" using assms(1) by (auto simp: image_iff)
  then have len: "i < length names" unfolding i_def
    by (intro length_takeWhile_less) simp
  then show "i < length names" "str_key (names ! i) = str_key name"
    using nth_length_takeWhile [of "\<lambda>n. str_key n \<noteq> str_key name" names] unfolding i_def by auto
qed

lemma dt_rep_lookup:
  assumes "dt_rep t names"
  shows "ht_map (docname_to_docid t) (str_key name) =
     (if str_key name \<in> str_key ` set names then Some (spec_docid names name) else None)"
  using assms dt_rep_index [of name names] by (auto simp: dt_rep_def spec_docid_def)

section \<open>Operations\<close>

lemma DTLookupDocumentName_ok:
  assumes rep: "dt_rep t names" and m: "never_fails m"
  shows "\<exists>m'. DTLookupDocumentName m t name = Inr (spec_docid names name, m') \<and> never_fails m'"
proof -
  have inv: "ht_inv (docname_to_docid t)" using rep by (simp add: dt_rep_def)
  from ht.look [OF inv m, of "str_key name"] dt_rep_lookup [OF rep, of name] show ?thesis
    by (auto simp: DTLookupDocumentName_def spec_docid_def split: if_splits)
qed

lemma DTLookupDocID_ok:
  assumes rep: "dt_rep t names" and m: "never_fails m" and k: "k \<noteq> 0"
  shows "\<exists>m'. DTLookupDocID m t k =
     Inr (if unat k \<le> length names then Some (names ! (unat k - 1)) else None, m') \<and> never_fails m'"
proof -
  have inv: "ht_inv (docid_to_docname t)" using rep by (simp add: dt_rep_def)
  have "0 < unat k" using k by (simp add: unat_gt_0)
  then have "ht_map (docid_to_docname t) k = (if unat k \<le> length names then Some (names ! (unat k - 1)) else None)"
    using rep by (simp add: dt_rep_def)
  with ht.look [OF inv m, of k] k show ?thesis
    by (auto simp: DTLookupDocID_def DTGetDocidTable_def split: if_splits)
qed

lemma unat64_Suc:
  fixes w :: "64 word"
  assumes "Suc (unat w) < 2 ^ 64"
  shows "unat (w + 1) = Suc (unat w)"
  using assms by (simp add: unat_word_ariths)

lemma dt_rep_extend:
  assumes rep: "dt_rep t names" and room: "Suc (length names) < 2 ^ 32"
    and new: "str_key name \<notin> str_key ` set names"
    and ids: "ht_inv ids" "ht_map ids = (ht_map (docid_to_docname t))(max_id t + 1 \<mapsto> name)"
      "unat (ht_num_elements ids) = Suc (length names)"
    and nms: "ht_inv nms" "ht_map nms = (ht_map (docname_to_docid t))(str_key name \<mapsto> max_id t + 1)"
      "unat (ht_num_elements nms) = Suc (length names)"
  shows "dt_rep \<lparr>docid_to_docname = ids, docname_to_docid = nms, max_id = max_id t + 1\<rparr> (names @ [name])"
    "max_id t + 1 = of_nat (Suc (length names))"
proof -
  have "unat (max_id t + 1) = Suc (unat (max_id t))" using rep room by (intro unat64_Suc) (simp add: dt_rep_def)
  then have u: "unat (max_id t + 1) = Suc (length names)" using rep by (simp add: dt_rep_def)
  then show id: "max_id t + 1 = of_nat (Suc (length names))" 
    using room by (simp add: word_unat_eq_iff unsigned_of_nat take_bit_nat_eq_self del: of_nat_Suc)
  show "dt_rep \<lparr>docid_to_docname = ids, docname_to_docid = nms, max_id = max_id t + 1\<rparr> (names @ [name])"
    unfolding dt_rep_def doc_table.simps
  proof (intro conjI allI impI)
    show "ht_map ids k = (if 0 < unat k \<and> unat k \<le> length (names @ [name])
        then Some ((names @ [name]) ! (unat k - 1)) else None)" for k
    proof (cases "k = max_id t + 1")
      case True
      then show ?thesis using u ids(2) by simp
    next
      case False
      then have "unat k \<noteq> Suc (length names)" using u by (metis word_unat_eq_iff)
      moreover have "unat k - 1 < length names" if "0 < unat k" "unat k \<le> length names" using that by linarith
      ultimately show ?thesis using False ids(2) rep by (auto simp: dt_rep_def nth_append)
    qed
    show "ht_map nms (str_key ((names @ [name]) ! i)) = Some (of_nat (Suc i))" if "i < length (names @ [name])" for i
      using that new nms(2) rep id by (auto simp: dt_rep_def nth_append less_Suc_eq)
    show "ht_map nms k = None" if "k \<notin> str_key ` set (names @ [name])" for k
      using that nms(2) rep by (auto simp: dt_rep_def)
  qed (use rep room new ids nms u in \<open>auto simp: dt_rep_def\<close>)
qed

lemma DTRegister_ok:
  assumes rep: "dt_rep t names" and room: "Suc (length names) < 2 ^ 32" and m: "never_fails m"
  shows "\<exists>m' t'. DTRegisterDocumentName m t name = Inr (fst (spec_register names name), m', t') \<and>
     never_fails m' \<and> dt_rep t' (snd (spec_register names name))"
proof -
  obtain m1 where m1: "malloc m = (True, m1)" "never_fails m1" using m by (rule never_fails_malloc)
  obtain m2 where m2: "malloc m1 = (True, m2)" "never_fails m2" using m1(2) by (rule never_fails_malloc)
  have inv: "ht_inv (docname_to_docid t)" "ht_inv (docid_to_docname t)" using rep by (simp_all add: dt_rep_def)
  note M = dt_rep_lookup [OF rep, of name]
  obtain m3 where look: "LookupHashTable m2 (docname_to_docid t) (str_key name) =
      Inr (if ht_map (docname_to_docid t) (str_key name) = None then 0 else 1,
           map_option (as_kv (str_key name)) (ht_map (docname_to_docid t) (str_key name)), m3)" "never_fails m3"
    using ht.look [OF inv(1) m2(2)] by blast
  show ?thesis
  proof (cases "str_key name \<in> str_key ` set names")
    case True
    then show ?thesis using m1 m2 look M rep
      by (simp add: DTRegisterDocumentName_def spec_register_def)
  next
    case False
    let ?id = "max_id t + 1"
    have "unat ?id = Suc (length names)"
      using rep room unat64_Suc [of "max_id t"] by (simp add: dt_rep_def)
    then have none: "ht_map (docid_to_docname t) ?id = None" using rep by (simp add: dt_rep_def)
    have n: "unat (ht_num_elements (docid_to_docname t)) = length names"
      "unat (ht_num_elements (docname_to_docid t)) = length names" using rep by (simp_all add: dt_rep_def)
    obtain m4 ids where ids: "InsertHashTable m3 (docid_to_docname t) \<lparr>kv_key = ?id, kv_value = name\<rparr> = Inr (1, None, m4, ids)"
      "never_fails m4" "ht_inv ids" "ht_map ids = (ht_map (docid_to_docname t))(?id \<mapsto> name)"
      "unat (ht_num_elements ids) = Suc (length names)"
      using ht.ins_full [OF inv(2) _ look(2), of ?id name] none room n by auto
    obtain m5 nms where nms: "InsertHashTable m4 (docname_to_docid t) \<lparr>kv_key = str_key name, kv_value = ?id\<rparr> =
        Inr (1, None, m5, nms)"
      "never_fails m5" "ht_inv nms" "ht_map nms = (ht_map (docname_to_docid t))(str_key name \<mapsto> ?id)"
      "unat (ht_num_elements nms) = Suc (length names)"
      using ht.ins_full [OF inv(1) _ ids(2), of "str_key name" ?id] M False room n by auto
    let ?t = "\<lparr>docid_to_docname = ids, docname_to_docid = nms, max_id = ?id\<rparr>"
    have "DTRegisterDocumentName m t name = Inr (?id, m5, ?t)"
      using m1 m2 look M False ids(1) nms(1)
      by (simp add: DTRegisterDocumentName_def DTGetDocidTable_def Let_def)
    moreover have "fst (spec_register names name) = ?id" "snd (spec_register names name) = names @ [name]"
      using dt_rep_extend(2) [OF rep room False ids(3-5) nms(3-5)] False by (simp_all add: spec_register_def)
    moreover have "dt_rep ?t (names @ [name])" by (rule dt_rep_extend(1) [OF rep room False ids(3-5) nms(3-5)])
    ultimately show ?thesis using nms(2) by (intro exI [of _ m5] exI [of _ ?t]) (simp only: simp_thms)
  qed
qed

lemma AllocateDocTable_ok:
  assumes "never_fails m"
  shows "\<exists>m' t. AllocateDocTable m = Inr (t, m') \<and> never_fails m' \<and> dt_rep t []"
proof -
  obtain m1 where m1: "malloc m = (True, m1)" "never_fails m1" using assms by (rule never_fails_malloc)
  obtain m2 and ids :: "string hash_table" where ids: "AllocateHashTable m1 1024 = Inr (Some ids, m2)" "never_fails m2"
    "ht_inv ids" "ht_map ids = Map.empty" "ht_num_elements ids = 0" using Allocate_ok [OF m1(2), of 1024] by auto
  obtain m3 and nms :: "DocID_t hash_table" where nms: "AllocateHashTable m2 1024 = Inr (Some nms, m3)" "never_fails m3"
    "ht_inv nms" "ht_map nms = Map.empty" "ht_num_elements nms = 0" using Allocate_ok [OF ids(2), of 1024] by auto
  have "dt_rep \<lparr>docid_to_docname = ids, docname_to_docid = nms, max_id = 0\<rparr> []"
    using ids nms by (auto simp: dt_rep_def)
  with m1 ids nms show ?thesis by (simp add: AllocateDocTable_def)
qed

fun spec_register_all :: "string list \<Rightarrow> string list \<Rightarrow> DocID_t list \<times> string list" where
  "spec_register_all names [] = ([], names)"
| "spec_register_all names (n # ns) =
     (let (i, names) = spec_register names n; (is, names) = spec_register_all names ns in (i # is, names))"

lemma length_spec_register: "length (snd (spec_register names n)) \<le> Suc (length names)"
  by (simp add: spec_register_def)

lemma register_all_ok:
  "dt_rep t names \<Longrightarrow> length names + length ns < 2 ^ 32 \<Longrightarrow> never_fails m \<Longrightarrow>
   \<exists>m' t'. register_all m t ns = Inr (fst (spec_register_all names ns), m', t') \<and> never_fails m' \<and>
     dt_rep t' (snd (spec_register_all names ns))"
proof (induction ns arbitrary: m t names)
  case (Cons n ns)
  have room: "Suc (length names) < 2 ^ 32" using Cons.prems(2) by simp
  obtain m1 t1 where 1: "DTRegisterDocumentName m t n = Inr (fst (spec_register names n), m1, t1)"
    "never_fails m1" "dt_rep t1 (snd (spec_register names n))"
    using DTRegister_ok [OF Cons.prems(1) room Cons.prems(3)] by blast
  have "length (snd (spec_register names n)) + length ns < 2 ^ 32"
    using length_spec_register [of names n] Cons.prems(2) by simp
  from Cons.IH [OF 1(3) this 1(2)] obtain m2 t2 where
    2: "register_all m1 t1 ns = Inr (fst (spec_register_all (snd (spec_register names n)) ns), m2, t2)"
      "never_fails m2" "dt_rep t2 (snd (spec_register_all (snd (spec_register names n)) ns))" by blast
  show ?case
    using 1(1) 2 by (intro exI [of _ m2] exI [of _ t2]) (simp add: Let_def case_prod_beta)
qed simp

section \<open>Properties\<close>

text \<open>
  Property C29: a new document table that is given any sequence of names, fewer than
  \<open>2 ^ 32\<close> of them, hands out the ids of the specification: a name whose key is new gets
  the next id, counting from 1, and a name whose key was seen gets the id given out then; no
  check fails on the way.
\<close>

theorem registration_numbers_documents:
  assumes "length ns < 2 ^ 32" "never_fails m"
  shows "\<exists>m1 t m2 t'. AllocateDocTable m = Inr (t, m1) \<and>
     register_all m1 t ns = Inr (fst (spec_register_all [] ns), m2, t') \<and>
     dt_rep t' (snd (spec_register_all [] ns))"
proof -
  obtain m1 t where 1: "AllocateDocTable m = Inr (t, m1)" "never_fails m1" "dt_rep t []"
    using AllocateDocTable_ok [OF assms(2)] by blast
  from register_all_ok [OF 1(3) _ 1(2), of ns] assms(1) 1(1) show ?thesis by auto
qed

lemma registration_numbers_documents_witness:
  "\<exists>m1 t m2 t'. AllocateDocTable [] = Inr (t, m1) \<and>
     register_all m1 t [''a.txt'', ''b.txt'', ''a.txt''] = Inr ([1, 2, 1], m2, t')"
proof -
  have "fst (spec_register_all [] [''a.txt'', ''b.txt'', ''a.txt'']) = [1, 2, 1]" by code_simp
  with registration_numbers_documents [of "[''a.txt'', ''b.txt'', ''a.txt'']" "[]"] show ?thesis by auto
qed

text \<open>
  After registering a name that collides with no registered one, the id it
  got looks up to the name and the name looks up to the id, and the id is not 0.
\<close>

theorem document_round_trip:
  assumes "dt_rep t names" "Suc (length names) < 2 ^ 32" "never_fails m"
    and "\<forall>n \<in> set names. str_key n = str_key name \<longrightarrow> n = name"
  shows "\<exists>i m1 t' m2 m3. DTRegisterDocumentName m t name = Inr (i, m1, t') \<and> i \<noteq> 0 \<and>
     DTLookupDocID m1 t' i = Inr (Some name, m2) \<and> DTLookupDocumentName m2 t' name = Inr (i, m3)"
proof -
  let ?names = "snd (spec_register names name)"
  obtain m1 t' where r: "DTRegisterDocumentName m t name = Inr (fst (spec_register names name), m1, t')"
    "never_fails m1" "dt_rep t' ?names" using DTRegister_ok [OF assms(1-3)] by blast
  have mem: "str_key name \<in> str_key ` set ?names" by (auto simp: spec_register_def)
  define i where "i = length (takeWhile (\<lambda>n. str_key n \<noteq> str_key name) ?names)"
  have i: "i < length ?names" "str_key (?names ! i) = str_key name"
    using dt_rep_index [OF mem] unfolding i_def by auto
  have "set ?names \<subseteq> insert name (set names)" by (auto simp: spec_register_def)
  then have "?names ! i = name" using i assms(4) nth_mem [OF i(1)] by blast
  have "length ?names < 2 ^ 32" using r(3) by (simp add: dt_rep_def)
  then have u: "unat (of_nat (Suc i) :: DocID_t) = Suc i"
    using i(1) by (simp add: unsigned_of_nat take_bit_nat_eq_self del: of_nat_Suc)
  have sid: "spec_docid ?names name = of_nat (Suc i)" using mem by (simp add: spec_docid_def i_def)
  have fid: "fst (spec_register names name) = of_nat (Suc i)"
  proof (cases "str_key name \<in> str_key ` set names")
    case True
    then show ?thesis using sid by (simp add: spec_register_def)
  next
    case False
    then have "takeWhile (\<lambda>n. str_key n \<noteq> str_key name) ?names = names"
      by (auto simp: spec_register_def image_iff takeWhile_append takeWhile_eq_all_conv)
    then show ?thesis using False by (simp add: spec_register_def i_def)
  qed
  have ne: "(of_nat (Suc i) :: DocID_t) \<noteq> 0" using u by (metis unsigned_0 nat.distinct(1))
  obtain m2 where l: "DTLookupDocID m1 t' (of_nat (Suc i)) = Inr (Some name, m2)" "never_fails m2"
    using DTLookupDocID_ok [OF r(3,2) ne] u i(1) \<open>?names ! i = name\<close> by (auto simp del: of_nat_Suc)
  obtain m3 where "DTLookupDocumentName m2 t' name = Inr (of_nat (Suc i), m3)"
    using DTLookupDocumentName_ok [OF r(3) l(2), of name] sid by auto
  with r(1) l(1) ne fid show ?thesis
    by (intro exI [of _ "of_nat (Suc i)"] exI [of _ m1] exI [of _ t'] exI [of _ m2] exI [of _ m3]) simp
qed

lemma document_round_trip_witness:
  "\<exists>m0 t i m1 t' m2 m3. AllocateDocTable [] = Inr (t, m0) \<and> DTRegisterDocumentName m0 t ''x'' = Inr (i, m1, t') \<and>
     DTLookupDocID m1 t' i = Inr (Some ''x'', m2) \<and> DTLookupDocumentName m2 t' ''x'' = Inr (i, m3)"
proof -
  obtain m0 t where "AllocateDocTable [] = Inr (t, m0)" "never_fails m0" "dt_rep t []"
    using AllocateDocTable_ok [of "[]"] by auto
  with document_round_trip [of t "[]" m0 "''x''"] show ?thesis by auto
qed

text \<open>
  \<open>DTLookupDocumentName\<close> takes only 0 for a failed lookup.  When the iterator
  the hash table needs cannot be allocated, \<open>LookupHashTable\<close> returns -1 and the function
  reads the pair that was never set, for every table and name with a chain to search.
\<close>

theorem document_lookup_out_of_memory:
  assumes "dt_rep t names" "ll_list (ht_buckets (docname_to_docid t) ! bucket_of (docname_to_docid t) (str_key name)) \<noteq> []"
  shows "DTLookupDocumentName (False # m) t name = Inl Undefined_Behaviour"
  using Lookup_ok [of "docname_to_docid t" "False # m" "str_key name"] assms
  by (simp add: DTLookupDocumentName_def dt_rep_def)

lemma document_lookup_out_of_memory_witness:
  "\<exists>m0 t i m1 t'. AllocateDocTable [] = Inr (t, m0) \<and> DTRegisterDocumentName m0 t ''x'' = Inr (i, m1, t') \<and>
     DTLookupDocumentName [False] t' ''x'' = Inl Undefined_Behaviour"
proof -
  obtain m0 t where 1: "AllocateDocTable [] = Inr (t, m0)" "never_fails m0" "dt_rep t []"
    using AllocateDocTable_ok [of "[]"] by auto
  obtain i m1 t' where 2: "DTRegisterDocumentName m0 t ''x'' = Inr (i, m1, t')" "dt_rep t' [''x'']"
    using DTRegister_ok [OF 1(3) _ 1(2), of "''x''"] by (auto simp: spec_register_def)
  let ?t = "docname_to_docid t'"
  have "ht_map ?t (str_key ''x'') \<noteq> None" "ht_inv ?t" using 2(2) by (auto simp: dt_rep_def)
  then have "ll_list (ht_buckets ?t ! bucket_of ?t (str_key ''x'')) \<noteq> []" using empty_chain_map [of ?t] by auto
  from document_lookup_out_of_memory [OF 2(2) this, of "[]"] 1(1) 2(1) show ?thesis by auto
qed

end
