(* ===== verification/StoreTable.thy ===== *)
theory StoreTable
  imports CString HashTableSpec
begin

text \<open>
  A hash table whose values point to structures in a store: it owns them, each through one
  key, and together they are a finite map from keys to structures, the \<open>view\<close>.  The word
  table of the file parser and the inverted index are of this form.
\<close>

definition owns :: "nat hash_table \<Rightarrow> 'a store \<Rightarrow> bool" where
  "owns t s \<longleftrightarrow>
     ht_inv t \<and> dom (st_cells s) = ran (ht_map t) \<and>
     (\<forall>k k' a. ht_map t k = Some a \<longrightarrow> ht_map t k' = Some a \<longrightarrow> k = k') \<and>
     (\<forall>a \<in> ran (ht_map t). a < st_brk s)"

definition view :: "nat hash_table \<Rightarrow> 'a store \<Rightarrow> HTKey_t \<Rightarrow> 'a option" where
  "view t s k = (case ht_map t k of None \<Rightarrow> None | Some a \<Rightarrow> st_cells s a)"

lemma owns_inv: "owns t s \<Longrightarrow> ht_inv t"
  by (simp add: owns_def)

lemma owns_cell:
  assumes "owns t s" "ht_map t k = Some a"
  obtains x where "st_cells s a = Some x" "view t s k = Some x"
proof -
  have "a \<in> dom (st_cells s)" using assms by (auto simp: owns_def ran_def)
  then show ?thesis using that assms(2) by (auto simp: view_def)
qed

lemma view_None_iff:
  assumes "owns t s"
  shows "view t s k = None \<longleftrightarrow> ht_map t k = None"
proof (cases "ht_map t k")
  case (Some a)
  then show ?thesis by (rule owns_cell [OF assms]) (use Some in simp)
qed (simp add: view_def)

lemma view_Some:
  assumes "owns t s" "view t s k = Some x"
  obtains a where "ht_map t k = Some a" "st_cells s a = Some x"
  using assms by (auto simp: view_def split: option.splits)

lemma owns_dom: "owns t s \<Longrightarrow> dom (view t s) = dom (ht_map t)"
  unfolding dom_def using view_None_iff [of t s] by simp

lemma owns_empty: "ht_inv t \<Longrightarrow> ht_map t = Map.empty \<Longrightarrow> owns t empty_store"
  by (simp add: owns_def empty_store_def)

lemma view_empty: "ht_map t = Map.empty \<Longrightarrow> view t s k = None"
  by (simp add: view_def)

lemma owns_insert:
  assumes o: "owns t s" and k: "ht_map t k = None"
    and t': "ht_inv t'" "ht_map t' = (ht_map t)(k \<mapsto> st_brk s)"
  shows "owns t' (snd (st_alloc s x))" "view t' (snd (st_alloc s x)) = (view t s)(k \<mapsto> x)"
proof -
  have new: "st_brk s \<notin> ran (ht_map t)" using o by (auto simp: owns_def)
  have ran: "ran (ht_map t') = insert (st_brk s) (ran (ht_map t))" using k t'(2) by simp
  have new': "ht_map t k' \<noteq> Some (st_brk s)" for k' using new by (auto simp: ran_def)
  have inj: "k1 = k2" if "ht_map t' k1 = Some a" "ht_map t' k2 = Some a" for k1 k2 a
    using that o new' t'(2) by (auto simp: owns_def split: if_splits)
  have "dom (st_cells (snd (st_alloc s x))) = ran (ht_map t')"
    using o ran by (auto simp: owns_def st_alloc_def)
  moreover have "\<forall>a \<in> ran (ht_map t'). a < st_brk (snd (st_alloc s x))"
    using o ran by (auto simp: owns_def st_alloc_def)
  ultimately show "owns t' (snd (st_alloc s x))" using t'(1) inj unfolding owns_def by blast
  show "view t' (snd (st_alloc s x)) = (view t s)(k \<mapsto> x)"
    using new' t'(2) by (auto simp: view_def st_alloc_def fun_eq_iff split: option.splits)
qed

lemma owns_write:
  assumes o: "owns t s" and k: "ht_map t k = Some a"
  shows "owns t (s\<lparr>st_cells := (st_cells s)(a \<mapsto> x)\<rparr>)"
    "view t (s\<lparr>st_cells := (st_cells s)(a \<mapsto> x)\<rparr>) = (view t s)(k \<mapsto> x)"
proof -
  have "a \<in> dom (st_cells s)" using o k by (auto simp: owns_def ran_def)
  then show "owns t (s\<lparr>st_cells := (st_cells s)(a \<mapsto> x)\<rparr>)" using o by (auto simp: owns_def)
  have "ht_map t k' \<noteq> Some a" if "k' \<noteq> k" for k' using that o k by (auto simp: owns_def)
  then show "view t (s\<lparr>st_cells := (st_cells s)(a \<mapsto> x)\<rparr>) = (view t s)(k \<mapsto> x)"
    using k by (auto simp: view_def fun_eq_iff split: option.splits)
qed

lemma owns_remove:
  assumes o: "owns t s" and k: "ht_map t k = Some a"
    and t': "ht_inv t'" "ht_map t' = (ht_map t)(k := None)"
  shows "owns t' (s\<lparr>st_cells := (st_cells s)(a := None)\<rparr>)"
    "view t' (s\<lparr>st_cells := (st_cells s)(a := None)\<rparr>) = (view t s)(k := None)"
proof -
  have inj: "ht_map t k' \<noteq> Some a" if "k' \<noteq> k" for k' using that o k by (auto simp: owns_def)
  have ran: "ran (ht_map t') = ran (ht_map t) - {a}"
  proof (rule set_eqI)
    fix b
    have "(\<exists>k'. k' \<noteq> k \<and> ht_map t k' = Some b) \<longleftrightarrow> (\<exists>k'. ht_map t k' = Some b) \<and> b \<noteq> a"
      using inj k by (metis option.inject)
    moreover have "ht_map t' k' = Some b \<longleftrightarrow> k' \<noteq> k \<and> ht_map t k' = Some b" for k' using t'(2) by simp
    ultimately show "b \<in> ran (ht_map t') \<longleftrightarrow> b \<in> ran (ht_map t) - {a}" unfolding ran_def by simp
  qed
  have "dom (st_cells (s\<lparr>st_cells := (st_cells s)(a := None)\<rparr>)) = ran (ht_map t')"
    using o ran by (simp add: owns_def)
  moreover have "k1 = k2" if "ht_map t' k1 = Some b" "ht_map t' k2 = Some b" for k1 k2 b
    using that o t'(2) by (auto simp: owns_def split: if_splits)
  ultimately show "owns t' (s\<lparr>st_cells := (st_cells s)(a := None)\<rparr>)"
    using o t'(1) ran unfolding owns_def by auto
  show "view t' (s\<lparr>st_cells := (st_cells s)(a := None)\<rparr>) = (view t s)(k := None)"
    using t'(2) inj by (auto simp: view_def fun_eq_iff split: option.splits)
qed

text \<open>The values a whole table holds: each address it owns, once.\<close>

lemma owns_values:
  assumes "owns t s"
  shows "distinct (map kv_value (ht_entries t))" "set (map kv_value (ht_entries t)) = dom (st_cells s)"
proof -
  have inv: "ht_inv t" using assms by (rule owns_inv)
  note d = ht_entries_distinct [OF inv]
  have e: "kv \<in> set (ht_entries t) \<longleftrightarrow> ht_map t (kv_key kv) = Some (kv_value kv)" for kv
    unfolding ht_map_def by (rule kv_in_entries [OF d])
  have "inj_on kv_value (set (ht_entries t))"
  proof (rule inj_onI)
    fix x y assume *: "x \<in> set (ht_entries t)" "y \<in> set (ht_entries t)" "kv_value x = kv_value y"
    then have "kv_key x = kv_key y" using assms e by (auto simp: owns_def)
    with *(3) show "x = y" by (cases x; cases y) simp
  qed
  moreover have "distinct (ht_entries t)" using d by (simp add: distinct_map)
  ultimately show "distinct (map kv_value (ht_entries t))" by (simp add: distinct_map)
  have "set (map kv_value (ht_entries t)) = ran (ht_map t)"
  proof (rule set_eqI)
    fix a
    have "a \<in> ran (ht_map t) \<longleftrightarrow> (\<exists>k. as_kv k a \<in> set (ht_entries t))" by (simp add: e ran_def)
    also have "\<dots> \<longleftrightarrow> a \<in> set (map kv_value (ht_entries t))"
    proof
      assume "\<exists>k. as_kv k a \<in> set (ht_entries t)"
      then obtain k where "as_kv k a \<in> set (ht_entries t)" ..
      then have "kv_value (as_kv k a) \<in> kv_value ` set (ht_entries t)" by (rule imageI)
      then show "a \<in> set (map kv_value (ht_entries t))" by simp
    next
      assume "a \<in> set (map kv_value (ht_entries t))"
      then obtain kv where "kv \<in> set (ht_entries t)" "a = kv_value kv" by auto
      then have "as_kv (kv_key kv) a \<in> set (ht_entries t)" by (simp add: kv_eta)
      then show "\<exists>k. as_kv k a \<in> set (ht_entries t)" ..
    qed
    finally show "a \<in> set (map kv_value (ht_entries t)) \<longleftrightarrow> a \<in> ran (ht_map t)" by simp
  qed
  then show "set (map kv_value (ht_entries t)) = dom (st_cells s)" using assms by (simp add: owns_def)
qed

text \<open>
  Freeing everything a table owns: a loop that frees one structure after the other, whose step
  succeeds on every well-formed structure, leaves an empty store.
\<close>

lemma free_all_ok:
  assumes step: "\<And>s a x. st_cells s a = Some x \<Longrightarrow> P x \<Longrightarrow> f s a = Inr (s\<lparr>st_cells := (st_cells s)(a := None)\<rparr>)"
    and loop: "\<And>s. F [] s = Inr s" "\<And>a as s. F (a # as) s = bindE (f s a) (F as)"
  shows "distinct as \<Longrightarrow> set as = dom (st_cells s) \<Longrightarrow> \<forall>a x. st_cells s a = Some x \<longrightarrow> P x \<Longrightarrow>
    \<exists>s'. F as s = Inr s' \<and> st_cells s' = Map.empty"
proof (induction "as" arbitrary: s)
  case Nil
  then have "st_cells s = Map.empty" by auto
  then show ?case by (simp add: loop(1))
next
  case (Cons a as)
  have "a \<in> dom (st_cells s)" using Cons.prems(2) by auto
  then obtain x where x: "st_cells s a = Some x" by auto
  let ?s = "s\<lparr>st_cells := (st_cells s)(a := None)\<rparr>"
  have "set as = dom (st_cells ?s)" using Cons.prems(1,2) by auto
  moreover have "\<forall>b y. st_cells ?s b = Some y \<longrightarrow> P y" using Cons.prems(3) by (auto split: if_splits)
  moreover have "distinct as" using Cons.prems(1) by simp
  ultimately have "\<exists>s'. F as ?s = Inr s' \<and> st_cells s' = Map.empty" by (intro Cons.IH)
  then show ?case using step [OF x] Cons.prems(3) x by (simp add: loop(2))
qed

lemma free_table_ok:
  assumes o: "owns t s" and P: "\<And>k x. view t s k = Some x \<Longrightarrow> P x"
    and step: "\<And>s a x. st_cells s a = Some x \<Longrightarrow> P x \<Longrightarrow> f s a = Inr (s\<lparr>st_cells := (st_cells s)(a := None)\<rparr>)"
    and loop: "\<And>s. F [] s = Inr s" "\<And>a as s. F (a # as) s = bindE (f s a) (F as)"
  shows "\<exists>s'. F (map kv_value (ht_entries t)) s = Inr s' \<and> st_cells s' = Map.empty"
proof (rule free_all_ok [where P = P and f = f, OF step loop owns_values [OF o]])
  show "\<forall>a x. st_cells s a = Some x \<longrightarrow> P x"
  proof (intro allI impI)
    fix a x assume x: "st_cells s a = Some x"
    then have "a \<in> ran (ht_map t)" using o by (auto simp: owns_def)
    then obtain k where "ht_map t k = Some a" by (auto simp: ran_def)
    then have "view t s k = Some x" using x by (simp add: view_def)
    then show "P x" by (rule P)
  qed
qed

end
