(* ===== verification/FileParser.thy ===== *)
theory FileParser
  imports CString
begin

text \<open>
  The file parser of src/hw2/fileparser.c: reading a file through the operating system, and
  splitting its text into the table of words and positions.

  The operating system is a parameter of the model, a record of what its calls answer; the
  program only reads files, so the answers do not change while it runs.
\<close>

section \<open>The operating system\<close>

record stat_info =
  si_isreg :: bool
  si_isdir :: bool
  si_size :: nat

text \<open>
  What one call of \<open>read\<close> does: it delivers bytes (none at the end of the file), fails with
  \<open>EINTR\<close> or \<open>EAGAIN\<close>, or fails for good.  \<open>os_reads\<close> lists the outcomes of the calls
  on a freshly opened file; past its end a call reports the end of the file.
\<close>

datatype read_outcome = ReadBytes string | ReadAgain | ReadError

record os =
  os_stat :: "string \<Rightarrow> stat_info option"
  os_open :: "string \<Rightarrow> bool"
  os_reads :: "string \<Rightarrow> read_outcome list"
  os_opendir :: "string \<Rightarrow> string list option"

section \<open>ReadFile\<close>

text \<open>
  \<open>data\<close> is what has been stored in the buffer so far.  A call of \<open>read\<close> that delivered
  more than it was asked for would write past the buffer.
\<close>

fun read_loop :: "read_outcome list \<Rightarrow> nat \<Rightarrow> string \<Rightarrow> string option res" where
  "read_loop outs left_to_read data =
     (if left_to_read = 0 then Inr (Some data)
      else case outs of
        [] \<Rightarrow> Inr (Some data)
      | ReadError # outs \<Rightarrow> Inr None
      | ReadAgain # outs \<Rightarrow> read_loop outs left_to_read data
      | ReadBytes bs # outs \<Rightarrow>
          if bs = [] then Inr (Some data)
          else if left_to_read < length bs then Inl Undefined_Behaviour
          else read_loop outs (left_to_read - length bs) (data @ bs))"

declare read_loop.simps [simp del]

text \<open>
  On success the result is the buffer with its terminator and the value of \<open>*size\<close>, which
  has 32 bits.
\<close>

definition ReadFile :: "allocator \<Rightarrow> os \<Rightarrow> string \<Rightarrow> ((string \<times> HWSize_t) option \<times> allocator) res" where
  "ReadFile m sys filename =
     (case os_stat sys filename of
        None \<Rightarrow> Inr (None, m)
      | Some filestat \<Rightarrow>
          if \<not> si_isreg filestat then Inr (None, m)
          else if \<not> os_open sys filename then Inr (None, m)
          else case malloc m of (ok, m) \<Rightarrow>
            if \<not> ok then Inr (None, m)
            else bindE (read_loop (os_reads sys filename) (si_size filestat) []) (\<lambda>data.
              case data of
                None \<Rightarrow> Inr (None, m)
              | Some data \<Rightarrow>
                  let size = of_nat (length data); buf = (data @ [NUL])[unat size := NUL] in
                  Inr (Some (buf, size), m)))"

section \<open>The word table\<close>

type_synonym DocPositionOffset_t = "32 word"

record word_positions =
  wp_word :: string
  wp_positions :: "DocPositionOffset_t linked_list"

record word_ht =
  wh_table :: "nat hash_table"
  wh_store :: "word_positions store"

fun WordHTFree :: "nat list \<Rightarrow> word_positions store \<Rightarrow> word_positions store res" where
  "WordHTFree [] s = Inr s"
| "WordHTFree (a # as) s =
     bindE (st_read s a) (\<lambda>pos.
     bindE (FreeLinkedList (wp_positions pos)) (\<lambda>_.
     bindE (st_free s a) (\<lambda>s. WordHTFree as s)))"

definition FreeWordHT :: "word_ht \<Rightarrow> word_positions store res" where
  "FreeWordHT tab = bindE (FreeHashTable (wh_table tab)) (\<lambda>values. WordHTFree values (wh_store tab))"

definition AddToHashTable ::
  "allocator \<Rightarrow> word_ht \<Rightarrow> string \<Rightarrow> DocPositionOffset_t \<Rightarrow> (allocator \<times> word_ht) res" where
  "AddToHashTable m tab word pos =
     bindE (hash_str word) (\<lambda>hashKey.
     bindE (LookupHashTable m (wh_table tab) hashKey) (\<lambda>(retval, kv, m).
     if retval = 1 then
       (case kv of
          None \<Rightarrow> Inl Undefined_Behaviour
        | Some kv \<Rightarrow>
            bindE (st_read (wh_store tab) (kv_value kv)) (\<lambda>wp.
            bindE (AppendLinkedList m (wp_positions wp) pos) (\<lambda>(ok, m, positions).
            bindE (st_write (wh_store tab) (kv_value kv) (wp\<lparr>wp_positions := positions\<rparr>)) (\<lambda>store.
            bindE (Verify333 ok) (\<lambda>_. Inr (m, tab\<lparr>wh_store := store\<rparr>))))))
     else if retval = - 1 then Inl Exit_Failure
     else
       case malloc m of (ok, m) \<Rightarrow>
       if \<not> ok then Inl Exit_Failure
       else case malloc m of (ok, m) \<Rightarrow>
       if \<not> ok then Inl Exit_Failure
       else case AllocateLinkedList m of (positions, m) \<Rightarrow>
       case positions of
         None \<Rightarrow> Inl Verify333_Failed
       | Some positions \<Rightarrow>
           bindE (AppendLinkedList m positions pos) (\<lambda>(ok, m, positions).
           bindE (Verify333 ok) (\<lambda>_.
           case st_alloc (wh_store tab) \<lparr>wp_word = word, wp_positions = positions\<rparr> of (wp, store) \<Rightarrow>
           bindE (InsertHashTable m (wh_table tab) \<lparr>kv_key = hashKey, kv_value = wp\<rparr>) (\<lambda>(retval, _, m, table).
           if retval = 0 then Inl Exit_Failure
           else Inr (m, \<lparr>wh_table = table, wh_store = store\<rparr>))))))"

section \<open>Splitting the text\<close>

text \<open>The C string that starts at an index of a buffer.\<close>

definition cstring_at :: "string \<Rightarrow> nat \<Rightarrow> string" where
  "cstring_at buf i = takeWhile (\<lambda>c. c \<noteq> NUL) (drop i buf)"

text \<open>
  The loop over the buffer: it overwrites the character after each word with NUL and turns
  letters to lower case in place.  Every round advances \<open>curptr\<close>.
\<close>

fun parse_loop ::
  "nat \<Rightarrow> allocator \<Rightarrow> word_ht \<Rightarrow> string \<Rightarrow> nat \<Rightarrow> nat \<Rightarrow> bool \<Rightarrow> (allocator \<times> word_ht \<times> string) res" where
  "parse_loop fuel m tab buf curptr wordstart parsing_a_word =
     bindE (index_res buf curptr) (\<lambda>c.
     if c = NUL then Inr (m, tab, buf)
     else case fuel of
       0 \<Rightarrow> Inl Out_Of_Fuel
     | Suc fuel \<Rightarrow>
         bindE
           (if parsing_a_word then
              if \<not> isalpha c then
                let buf = buf[curptr := NUL] in
                bindE (AddToHashTable m tab (cstring_at buf wordstart) (of_nat wordstart)) (\<lambda>(m, tab).
                Inr (m, tab, buf, wordstart, False))
              else Inr (m, tab, buf, wordstart, parsing_a_word)
            else if isalpha c then Inr (m, tab, buf, curptr, True)
            else Inr (m, tab, buf, wordstart, parsing_a_word))
         (\<lambda>(m, tab, buf, wordstart, parsing_a_word).
         bindE (index_res buf curptr) (\<lambda>c.
         let buf = (if isalpha c then buf[curptr := tolower c] else buf) in
         parse_loop fuel m tab buf (Suc curptr) wordstart parsing_a_word)))"

declare parse_loop.simps [simp del]

definition LoopAndInsert :: "allocator \<Rightarrow> word_ht \<Rightarrow> string \<Rightarrow> (allocator \<times> word_ht \<times> string) res" where
  "LoopAndInsert m tab content =
     bindE (index_res content 0) (\<lambda>c. parse_loop (length content) m tab content 0 0 (isalpha c))"

section \<open>BuildWordHT\<close>

definition ASCII_UPPER_BOUND :: nat where
  "ASCII_UPPER_BOUND = 0x7F"

fun only_ascii :: "nat \<Rightarrow> nat \<Rightarrow> string \<Rightarrow> bool res" where
  "only_ascii 0 i filecontent = Inr True"
| "only_ascii (Suc n) i filecontent =
     bindE (index_res filecontent i) (\<lambda>c.
     if c = NUL \<or> ASCII_UPPER_BOUND < of_char c then Inr False
     else only_ascii n (Suc i) filecontent)"

text \<open>
  When \<open>ReadFile\<close> fails, \<open>filelen\<close> was never set and the code still compares it with 0;
  whatever it holds, the other half of the disjunction decides and the result is \<open>NULL\<close>.
\<close>

definition BuildWordHT :: "allocator \<Rightarrow> os \<Rightarrow> string \<Rightarrow> (word_ht option \<times> allocator) res" where
  "BuildWordHT m sys filename =
     bindE (ReadFile m sys filename) (\<lambda>(file, m).
     case file of
       None \<Rightarrow> Inr (None, m)
     | Some (filecontent, filelen) \<Rightarrow>
         if filelen = 0 then Inr (None, m)
         else
           bindE (only_ascii (unat filelen) 0 filecontent) (\<lambda>ascii.
           if \<not> ascii then Inr (None, m)
           else
             bindE (AllocateHashTable m 64) (\<lambda>(tab, m).
             case tab of
               None \<Rightarrow> Inl Verify333_Failed
             | Some tab \<Rightarrow>
                 bindE (LoopAndInsert m \<lparr>wh_table = tab, wh_store = empty_store\<rparr> filecontent) (\<lambda>(m, tab, _).
                 if NumElementsInHashTable (wh_table tab) = 0
                 then bindE (FreeWordHT tab) (\<lambda>_. Inr (None, m))
                 else Inr (Some tab, m)))))"

end
