(* ===== verification/FileParserSpec.thy ===== *)
theory FileParserSpec
  imports StoreTable FileParser DocTableSpec
begin

text \<open>
  What a word table stands for (the occurrences it was given, grouped by key), what splitting a
  text gives (\<open>text_words\<close>), and the properties of the file parser.
\<close>

section \<open>What a word table stands for\<close>

type_synonym occurrence = "string \<times> DocPositionOffset_t"

definition with_key :: "HTKey_t \<Rightarrow> occurrence list \<Rightarrow> occurrence list" where
  "with_key k occ = filter (\<lambda>(w, p). str_key w = k) occ"

lemma with_key_snoc: "with_key k (occ @ [(w, p)]) = (if str_key w = k then with_key k occ @ [(w, p)] else with_key k occ)"
  by (simp add: with_key_def)

text \<open>The structure for a key: the first word with it, and the positions of all of them.\<close>

definition entry_ok :: "word_positions option \<Rightarrow> occurrence list \<Rightarrow> bool" where
  "entry_ok x occ \<longleftrightarrow>
     (case x of None \<Rightarrow> occ = []
      | Some wp \<Rightarrow> occ \<noteq> [] \<and> wp_word wp = fst (hd occ) \<and> ll_inv (wp_positions wp) \<and>
          ll_list (wp_positions wp) = map snd occ)"

definition wht_rep :: "word_ht \<Rightarrow> occurrence list \<Rightarrow> bool" where
  "wht_rep W occ \<longleftrightarrow>
     owns (wh_table W) (wh_store W) \<and> unat (ht_num_elements (wh_table W)) \<le> length occ \<and>
     (\<forall>k. entry_ok (view (wh_table W) (wh_store W) k) (with_key k occ))"

lemma wht_rep_room: "wht_rep W occ \<Longrightarrow> length (with_key k occ) \<le> length occ"
  by (simp add: with_key_def)

lemma AddToHashTable_old:
  assumes rep: "wht_rep W occ" and room: "Suc (length occ) < 2 ^ 32" and m: "never_fails m"
    and a: "ht_map (wh_table W) (str_key w) = Some a"
  shows "\<exists>m' W'. AddToHashTable m W w p = Inr (m', W') \<and> never_fails m' \<and> wht_rep W' (occ @ [(w, p)])"
proof -
  let ?t = "wh_table W" and ?s = "wh_store W" and ?k = "str_key w"
  have o: "owns ?t ?s" using rep by (simp add: wht_rep_def)
  obtain wp where wp: "st_cells ?s a = Some wp" "view ?t ?s ?k = Some wp" using owns_cell [OF o a] by blast
  obtain m1 where look: "LookupHashTable m ?t ?k = Inr (1, Some (as_kv ?k a), m1)" "never_fails m1"
    using ht.look [OF owns_inv [OF o] m, of ?k] a by auto
  have "entry_ok (Some wp) (with_key ?k occ)" using rep wp(2) unfolding wht_rep_def by metis
  then have e: "with_key ?k occ \<noteq> []" "wp_word wp = fst (hd (with_key ?k occ))" "ll_inv (wp_positions wp)"
    "ll_list (wp_positions wp) = map snd (with_key ?k occ)" by (simp_all add: entry_ok_def)
  have "Suc (length (ll_list (wp_positions wp))) < 2 ^ 32"
    using e(4) wht_rep_room [OF rep, of ?k] room by simp
  then obtain m2 l where l: "AppendLinkedList m1 (wp_positions wp) p = Inr (True, m2, l)" "never_fails m2" "ll_inv l"
    "ll_list l = ll_list (wp_positions wp) @ [p]" using ll.append [OF e(3) _ look(2)] by blast
  let ?s' = "?s\<lparr>st_cells := (st_cells ?s)(a \<mapsto> wp\<lparr>wp_positions := l\<rparr>)\<rparr>"
  have "AddToHashTable m W w p = Inr (m2, W\<lparr>wh_store := ?s'\<rparr>)"
    using look(1) wp(1) l(1) by (simp add: AddToHashTable_def)
  moreover have "wht_rep (W\<lparr>wh_store := ?s'\<rparr>) (occ @ [(w, p)])"
  proof -
    have v: "view ?t ?s' k = (if k = ?k then Some (wp\<lparr>wp_positions := l\<rparr>) else view ?t ?s k)" for k
      using owns_write(2) [OF o a, of "wp\<lparr>wp_positions := l\<rparr>"] by simp
    have "entry_ok (Some (wp\<lparr>wp_positions := l\<rparr>)) (with_key ?k occ @ [(w, p)])"
      using e l(3,4) by (simp add: entry_ok_def)
    then have "entry_ok (view ?t ?s' k) (with_key k (occ @ [(w, p)]))" for k
      using rep by (auto simp: v with_key_snoc wht_rep_def)
    then show ?thesis using owns_write(1) [OF o a] rep by (simp add: wht_rep_def)
  qed
  ultimately show ?thesis using l(2) by blast
qed

lemma AddToHashTable_new:
  assumes rep: "wht_rep W occ" and room: "Suc (length occ) < 2 ^ 32" and m: "never_fails m"
    and none: "ht_map (wh_table W) (str_key w) = None"
  shows "\<exists>m' W'. AddToHashTable m W w p = Inr (m', W') \<and> never_fails m' \<and> wht_rep W' (occ @ [(w, p)])"
proof -
  let ?t = "wh_table W" and ?s = "wh_store W" and ?k = "str_key w"
  have o: "owns ?t ?s" using rep by (simp add: wht_rep_def)
  obtain m1 where look: "LookupHashTable m ?t ?k = Inr (0, None, m1)" "never_fails m1"
    using ht.look [OF owns_inv [OF o] m, of ?k] none by auto
  obtain m2 where m2: "malloc m1 = (True, m2)" "never_fails m2" using look(2) by (rule never_fails_malloc)
  obtain m3 where m3: "malloc m2 = (True, m3)" "never_fails m3" using m2(2) by (rule never_fails_malloc)
  obtain m4 where m4: "malloc m3 = (True, m4)" "never_fails m4" using m3(2) by (rule never_fails_malloc)
  obtain m5 and l :: "DocPositionOffset_t linked_list" where
    l: "AppendLinkedList m4 empty_list p = Inr (True, m5, l)" "never_fails m5" "ll_inv l" "ll_list l = [p]"
    using ll.append [of "empty_list :: DocPositionOffset_t linked_list" m4 p] m4(2) by auto
  let ?wp = "\<lparr>wp_word = w, wp_positions = l\<rparr>"
  have num: "Suc (unat (ht_num_elements ?t)) < 2 ^ 32" using rep room by (simp add: wht_rep_def)
  obtain m6 t' where t': "InsertHashTable m5 ?t \<lparr>kv_key = ?k, kv_value = st_brk ?s\<rparr> = Inr (1, None, m6, t')"
    "never_fails m6" "ht_inv t'" "ht_map t' = (ht_map ?t)(?k \<mapsto> st_brk ?s)"
    "unat (ht_num_elements t') = Suc (unat (ht_num_elements ?t))"
    using ht.ins_full [OF owns_inv [OF o] num l(2), of ?k "st_brk ?s"] none by auto
  let ?s' = "snd (st_alloc ?s ?wp)"
  have "AddToHashTable m W w p = Inr (m6, \<lparr>wh_table = t', wh_store = ?s'\<rparr>)"
    using look(1) m2(1) m3(1) m4(1) l(1) t'(1)
    by (simp add: AddToHashTable_def AllocateLinkedList_def st_alloc_def)
  moreover have "wht_rep \<lparr>wh_table = t', wh_store = ?s'\<rparr> (occ @ [(w, p)])"
  proof -
    have v: "view t' ?s' k = (if k = ?k then Some ?wp else view ?t ?s k)" for k
      using owns_insert(2) [OF o none t'(3,4), of ?wp] by simp
    have "entry_ok None (with_key ?k occ)" using rep view_None_iff [OF o, of ?k] none unfolding wht_rep_def by metis
    then have "entry_ok (Some ?wp) (with_key ?k occ @ [(w, p)])" using l(3,4) by (simp add: entry_ok_def)
    then have "entry_ok (view t' ?s' k) (with_key k (occ @ [(w, p)]))" for k
      using rep by (auto simp: v with_key_snoc wht_rep_def)
    then show ?thesis using owns_insert(1) [OF o none t'(3,4)] rep t'(5) by (simp add: wht_rep_def)
  qed
  ultimately show ?thesis using t'(2) by blast
qed

lemma AddToHashTable_ok:
  assumes "wht_rep W occ" "Suc (length occ) < 2 ^ 32" "never_fails m"
  shows "\<exists>m' W'. AddToHashTable m W w p = Inr (m', W') \<and> never_fails m' \<and> wht_rep W' (occ @ [(w, p)])"
proof (cases "ht_map (wh_table W) (str_key w)")
  case None
  with assms show ?thesis by (rule AddToHashTable_new)
next
  case (Some a)
  with assms show ?thesis by (rule AddToHashTable_old)
qed

section \<open>Splitting a text\<close>

text \<open>
  The words of a text with the offsets they start at: \<open>w\<close> is the run of letters, in lower
  case, that ends at offset \<open>i\<close>.  A run counts when a character follows it that is not a
  letter.
\<close>

fun text_words :: "nat \<Rightarrow> string \<Rightarrow> string \<Rightarrow> (string \<times> nat) list" where
  "text_words i w [] = []"
| "text_words i w (c # cs) =
     (if isalpha c then text_words (Suc i) (w @ [tolower c]) cs
      else if w = [] then text_words (Suc i) [] cs
      else (w, i - length w) # text_words (Suc i) [] cs)"

definition words_of :: "string \<Rightarrow> (string \<times> nat) list" where
  "words_of s = text_words 0 [] s"

definition occurrences :: "(string \<times> nat) list \<Rightarrow> occurrence list" where
  "occurrences ws = map (\<lambda>(w, i). (w, of_nat i)) ws"

lemma occurrences_simps [simp]:
  "occurrences [] = []" "occurrences ((w, i) # ws) = (w, of_nat i) # occurrences ws"
  "length (occurrences ws) = length ws"
  by (simp_all add: occurrences_def)

lemma length_text_words: "length (text_words i w s) \<le> length s"
  by (induction i w s rule: text_words.induct) auto

lemma tolower_not_NUL: "isalpha c \<Longrightarrow> tolower c \<noteq> NUL"
proof -
  assume a: "isalpha c"
  show ?thesis
  proof (cases "65 \<le> (of_char c :: nat) \<and> (of_char c :: nat) \<le> 90")
    case True
    then have "(of_char (tolower c) :: nat) = of_char c + 32" by (simp add: tolower_def)
    then show ?thesis using True by (auto simp: NUL_def)
  next
    case False
    then show ?thesis using a by (auto simp: tolower_def)
  qed
qed

lemma tolower_tolower [simp]: "tolower (tolower c) = tolower c"
proof (cases "65 \<le> (of_char c :: nat) \<and> (of_char c :: nat) \<le> 90")
  case True
  then have "(of_char (tolower c) :: nat) = of_char c + 32" by (simp add: tolower_def)
  then show ?thesis using True by (simp add: tolower_def [of "tolower c"])
qed (auto simp: tolower_def)

lemma index_res_mid [simp]: "n = length xs \<Longrightarrow> index_res (xs @ y # ys) n = Inr y"
  by (simp add: index_res_def)

lemma list_update_mid [simp]: "n = length xs \<Longrightarrow> (xs @ y # ys)[n := z] = xs @ z # ys"
  by simp

lemma cstring_at_mid:
  assumes "NUL \<notin> set w"
  shows "cstring_at (pre @ w @ NUL # rest) (length pre) = w"
proof -
  have "\<forall>c \<in> set w. c \<noteq> NUL" using assms by auto
  then show ?thesis by (simp add: cstring_at_def takeWhile_append2)
qed

lemma parse_loop_step:
  assumes "c \<noteq> NUL"
  shows "parse_loop (Suc fuel) m tab (xs @ c # ys) (length xs) ws parsing =
    (if parsing \<and> \<not> isalpha c then
       bindE (AddToHashTable m tab (cstring_at (xs @ NUL # ys) ws) (of_nat ws)) (\<lambda>(m, tab).
       parse_loop fuel m tab (xs @ NUL # ys) (Suc (length xs)) ws False)
     else parse_loop fuel m tab (xs @ (if isalpha c then tolower c else c) # ys) (Suc (length xs))
       (if \<not> parsing \<and> isalpha c then length xs else ws) (parsing \<or> isalpha c))"
  using assms
  by (subst parse_loop.simps, cases "AddToHashTable m tab (cstring_at (xs @ NUL # ys) ws) (of_nat ws)")
    (auto simp: Let_def)

lemma parse_loop_ok:
  "wht_rep W occ \<Longrightarrow> length occ + length rest < 2 ^ 32 \<Longrightarrow> never_fails m \<Longrightarrow> NUL \<notin> set rest \<Longrightarrow>
   NUL \<notin> set w \<Longrightarrow> length rest \<le> fuel \<Longrightarrow>
   (parsing \<Longrightarrow> ws = length pre \<and> (w = [] \<longrightarrow> rest \<noteq> [] \<and> isalpha (hd rest))) \<Longrightarrow> (\<not> parsing \<Longrightarrow> w = []) \<Longrightarrow>
   \<exists>m' W' buf'. parse_loop fuel m W ((pre @ w) @ rest @ [NUL]) (length (pre @ w)) ws parsing = Inr (m', W', buf') \<and>
     never_fails m' \<and> wht_rep W' (occ @ occurrences (text_words (length (pre @ w)) w rest))"
proof (induction rest arbitrary: W occ m w fuel parsing ws pre)
  case Nil
  have "parse_loop fuel m W ((pre @ w) @ [NUL]) (length (pre @ w)) ws parsing = Inr (m, W, (pre @ w) @ [NUL])"
    by (subst parse_loop.simps) simp
  then show ?case using Nil by simp
next
  case (Cons c cs)
  obtain k where fuel: "fuel = Suc k" "length cs \<le> k" using Cons.prems(6) by (cases fuel) auto
  have c: "c \<noteq> NUL" "NUL \<notin> set cs" using Cons.prems(4) by auto
  note step = parse_loop_step [OF c(1), of k m W "pre @ w" "cs @ [NUL]" ws parsing]
  show ?case
  proof (cases "isalpha c")
    case True
    let ?w = "w @ [tolower c]" and ?ws = "if parsing then ws else length pre"
    have "\<exists>m' W' buf'. parse_loop k m W ((pre @ ?w) @ cs @ [NUL]) (length (pre @ ?w)) ?ws True = Inr (m', W', buf') \<and>
        never_fails m' \<and> wht_rep W' (occ @ occurrences (text_words (length (pre @ ?w)) ?w cs))"
      by (rule Cons.IH) (use Cons.prems c fuel tolower_not_NUL [OF True] in auto)
    moreover have "parse_loop fuel m W ((pre @ w) @ (c # cs) @ [NUL]) (length (pre @ w)) ws parsing =
        parse_loop k m W ((pre @ ?w) @ cs @ [NUL]) (length (pre @ ?w)) ?ws True"
      using step True Cons.prems(8) fuel(1) by (cases parsing) auto
    ultimately show ?thesis using True by simp
  next
    case notalpha: False
    show ?thesis
    proof (cases parsing)
      case True
      then have w: "ws = length pre" "w \<noteq> []" using Cons.prems(7) notalpha by auto
      obtain m1 W1 where 1: "AddToHashTable m W w (of_nat ws) = Inr (m1, W1)" "never_fails m1"
        "wht_rep W1 (occ @ [(w, of_nat ws)])"
        using AddToHashTable_ok [OF Cons.prems(1) _ Cons.prems(3), of w "of_nat ws"] Cons.prems(2) by auto
      let ?pre = "pre @ w @ [NUL]"
      have "\<exists>m' W' buf'. parse_loop k m1 W1 ((?pre @ []) @ cs @ [NUL]) (length (?pre @ [])) ws False = Inr (m', W', buf') \<and>
          never_fails m' \<and> wht_rep W' ((occ @ [(w, of_nat ws)]) @ occurrences (text_words (length (?pre @ [])) [] cs))"
        by (rule Cons.IH [OF 1(3)]) (use Cons.prems c fuel 1(2) in auto)
      moreover have "parse_loop fuel m W ((pre @ w) @ (c # cs) @ [NUL]) (length (pre @ w)) ws parsing =
          parse_loop k m1 W1 ((?pre @ []) @ cs @ [NUL]) (length (?pre @ [])) ws False"
        using step True notalpha fuel(1) 1(1) w(1) cstring_at_mid [OF Cons.prems(5), of pre "cs @ [NUL]"] by simp
      ultimately show ?thesis using notalpha w by simp
    next
      case False
      then have w: "w = []" using Cons.prems(8) by simp
      let ?pre = "pre @ [c]"
      have "\<exists>m' W' buf'. parse_loop k m W ((?pre @ []) @ cs @ [NUL]) (length (?pre @ [])) ws False = Inr (m', W', buf') \<and>
          never_fails m' \<and> wht_rep W' (occ @ occurrences (text_words (length (?pre @ [])) [] cs))"
        by (rule Cons.IH [OF Cons.prems(1)]) (use Cons.prems c fuel in auto)
      moreover have "parse_loop fuel m W ((pre @ w) @ (c # cs) @ [NUL]) (length (pre @ w)) ws parsing =
          parse_loop k m W ((?pre @ []) @ cs @ [NUL]) (length (?pre @ [])) ws False"
        using step False notalpha fuel(1) w by simp
      ultimately show ?thesis using notalpha w by simp
    qed
  qed
qed

lemma LoopAndInsert_ok:
  assumes "wht_rep W []" "length s < 2 ^ 32" "never_fails m" "NUL \<notin> set s"
  shows "\<exists>m' W' buf'. LoopAndInsert m W (s @ [NUL]) = Inr (m', W', buf') \<and> never_fails m' \<and>
     wht_rep W' (occurrences (words_of s))"
proof (cases s)
  case Nil
  then have "LoopAndInsert m W (s @ [NUL]) = Inr (m, W, s @ [NUL])"
    by (simp add: LoopAndInsert_def index_res_def parse_loop.simps [of "Suc 0"])
  then show ?thesis using Nil assms by (simp add: words_of_def)
next
  case (Cons c cs)
  have "index_res (s @ [NUL]) 0 = Inr c" using Cons by (simp add: index_res_def)
  moreover have "\<exists>m' W' buf'. parse_loop (length (s @ [NUL])) m W (s @ [NUL]) 0 0 (isalpha c) =
      Inr (m', W', buf') \<and> never_fails m' \<and> wht_rep W' (occurrences (text_words 0 [] s))"
    using parse_loop_ok [of W "[]" s m "[]" "length (s @ [NUL])" "isalpha c" 0 "[]"] assms Cons by auto
  ultimately show ?thesis by (auto simp: LoopAndInsert_def words_of_def)
qed

section \<open>Words are maximal runs\<close>

text \<open>A maximal run of letters of \<open>s\<close>, from offset \<open>i\<close>, that ends before the text does.\<close>

definition is_word_at :: "string \<Rightarrow> string \<Rightarrow> nat \<Rightarrow> bool" where
  "is_word_at s w i \<longleftrightarrow>
     w \<noteq> [] \<and> i + length w < length s \<and> w = map tolower (take (length w) (drop i s)) \<and>
     (\<forall>j. i \<le> j \<longrightarrow> j < i + length w \<longrightarrow> isalpha (s ! j)) \<and>
     \<not> isalpha (s ! (i + length w)) \<and> (i = 0 \<or> \<not> isalpha (s ! (i - 1)))"

lemma text_words_iff:
  assumes "\<forall>c \<in> set u. isalpha c" "pre = [] \<or> \<not> isalpha (last pre)"
  shows "(w, i) \<in> set (text_words (length (pre @ u)) (map tolower u) rest) \<longleftrightarrow>
     is_word_at (pre @ u @ rest) w i \<and> length pre \<le> i"
  using assms
proof (induction rest arbitrary: u pre)
  case Nil
  have "\<not> is_word_at (pre @ u) w i" if "length pre \<le> i"
  proof
    assume r: "is_word_at (pre @ u) w i"
    then have "i + length w < length (pre @ u)" "\<not> isalpha ((pre @ u) ! (i + length w))"
      by (simp_all add: is_word_at_def)
    with that Nil.prems(1) show False by (simp add: nth_append)
  qed
  then show ?case by auto
next
  case (Cons c cs)
  show ?case
  proof (cases "isalpha c")
    case True
    with Cons.IH [of "u @ [c]" pre] Cons.prems show ?thesis by simp
  next
    case False
    let ?s = "pre @ u @ c # cs" and ?pre = "pre @ u @ [c]"
    have IH: "(w, i) \<in> set (text_words (length ?pre) [] cs) \<longleftrightarrow> is_word_at ?s w i \<and> length ?pre \<le> i"
      using Cons.IH [of "[]" ?pre] False by simp
    have c: "?s ! (length pre + length u) = c" by (simp add: nth_append)
    have u: "isalpha (?s ! j)" if "length pre \<le> j" "j < length pre + length u" for j
      using that Cons.prems(1) by (simp add: nth_append)
    have here: "is_word_at ?s w i \<longleftrightarrow> u \<noteq> [] \<and> i = length pre \<and> w = map tolower u"
      if i: "length pre \<le> i" "i \<le> length pre + length u"
    proof
      assume r: "is_word_at ?s w i"
      have ne: "i \<noteq> length pre + length u" using r c False by (auto simp: is_word_at_def)
      have start: "i = length pre"
      proof (rule ccontr)
        assume "i \<noteq> length pre"
        then have "isalpha (?s ! (i - 1))" "i \<noteq> 0" using u [of "i - 1"] i by auto
        with r show False by (simp add: is_word_at_def)
      qed
      have "\<not> isalpha (?s ! (i + length w))" using r by (simp add: is_word_at_def)
      then have "length u \<le> length w" using u [of "i + length w"] start by (meson add_le_cancel_left le_add1 not_le)
      moreover have "\<not> length u < length w"
      proof
        assume "length u < length w"
        moreover have "\<forall>j. i \<le> j \<longrightarrow> j < i + length w \<longrightarrow> isalpha (?s ! j)"
          using r unfolding is_word_at_def by blast
        ultimately have "isalpha (?s ! (length pre + length u))" unfolding start
          by (elim allE [of _ "length pre + length u"]) linarith
        with c False show False by simp
      qed
      ultimately have "length w = length u" by simp
      then show "u \<noteq> [] \<and> i = length pre \<and> w = map tolower u"
        using r start unfolding is_word_at_def by auto
    next
      assume *: "u \<noteq> [] \<and> i = length pre \<and> w = map tolower u"
      have "i = 0 \<or> \<not> isalpha (?s ! (i - 1))"
      proof (cases pre rule: rev_cases)
        case (snoc ys y)
        then show ?thesis using * Cons.prems(2) by (simp add: nth_append)
      qed (use * in simp)
      then show "is_word_at ?s w i" using * c False u by (simp add: is_word_at_def)
    qed
    show ?thesis
    proof (cases "u = []")
      case True
      have "is_word_at ?s w i \<and> length pre \<le> i \<longleftrightarrow> is_word_at ?s w i \<and> length ?pre \<le> i"
        using here True by (auto simp: Suc_le_eq intro: le_neq_implies_less)
      then show ?thesis using IH True False by simp
    next
      case ne: False
      have "is_word_at ?s w i \<and> length pre \<le> i \<longleftrightarrow>
          (w, i) = (map tolower u, length pre) \<or> (is_word_at ?s w i \<and> length ?pre \<le> i)"
        using here ne by auto
      then show ?thesis using IH ne False by simp
    qed
  qed
qed

text \<open>The words the splitting finds, with their offsets, are these runs, in the order of the text.\<close>

lemma words_are_maximal_runs: "(w, i) \<in> set (words_of s) \<longleftrightarrow> is_word_at s w i"
  using text_words_iff [of "[]" "[]" w i s] by (simp add: words_of_def)

lemma words_of_Nil: "words_of s = [] \<longleftrightarrow> \<not> (\<exists>w i. is_word_at s w i)"
  unfolding words_are_maximal_runs [symmetric] using ex_in_conv [of "set (words_of s)"] by auto

lemma text_words_sorted:
  "length w \<le> i \<Longrightarrow> sorted_wrt (<) (map snd (text_words i w s)) \<and> (\<forall>p \<in> set (text_words i w s). i - length w \<le> snd p)"
proof (induction i w s rule: text_words.induct)
  case (2 i w c cs)
  show ?case
  proof (cases "isalpha c")
    case True
    then show ?thesis using 2(1) 2(4) by simp
  next
    case notalpha: False
    have rest: "sorted_wrt (<) (map snd (text_words (Suc i) [] cs))" "\<forall>p \<in> set (text_words (Suc i) [] cs). Suc i \<le> snd p"
      using 2(2,3) notalpha by (cases "w = []"; simp)+
    have "i - length w < snd p \<and> i - length w \<le> snd p \<and> i \<le> snd p" if "p \<in> set (text_words (Suc i) [] cs)" for p
    proof -
      have "Suc i \<le> snd p" using rest(2) that by blast
      then show ?thesis by linarith
    qed
    then show ?thesis using rest(1) notalpha by simp
  qed
qed simp

definition word_offsets :: "string \<Rightarrow> string \<Rightarrow> nat list" where
  "word_offsets w s = sorted_list_of_set {i. is_word_at s w i}"

text \<open>How often a word occurs in a text.\<close>

definition times_in :: "string \<Rightarrow> string \<Rightarrow> nat" where
  "times_in w s = card {i. is_word_at s w i}"

lemma word_offsets_words: "word_offsets w s = map snd (filter (\<lambda>(v, i). v = w) (words_of s))"
proof -
  let ?xs = "map snd (filter (\<lambda>(v, i). v = w) (words_of s))"
  have "sorted_wrt (<) (map snd (words_of s))" using text_words_sorted [of "[]" 0 s] by (simp add: words_of_def)
  then have "sorted_wrt (<) ?xs" by (simp add: sorted_wrt_map sorted_wrt_filter)
  moreover have set: "set ?xs = {i. is_word_at s w i}" by (force simp: words_are_maximal_runs [symmetric])
  moreover have "finite {i. is_word_at s w i}" unfolding set [symmetric] by (rule finite_set)
  ultimately show ?thesis unfolding word_offsets_def by (intro strict_sorted_equal) simp_all
qed

lemma times_in_offsets: "times_in w s = length (word_offsets w s)"
  by (simp add: times_in_def word_offsets_def)

lemma times_in_pos: "0 < times_in w s \<longleftrightarrow> (\<exists>i. is_word_at s w i)"
proof -
  have "0 < times_in w s \<longleftrightarrow> word_offsets w s \<noteq> []" unfolding times_in_offsets by simp
  also have "\<dots> \<longleftrightarrow> (\<exists>i. (w, i) \<in> set (words_of s))"
    unfolding word_offsets_words by (auto simp: filter_empty_conv)
  finally show ?thesis unfolding words_are_maximal_runs .
qed

lemma times_in_capital: "map tolower w \<noteq> w \<Longrightarrow> times_in w s = 0"
proof -
  assume "map tolower w \<noteq> w"
  moreover have "map tolower w = w" if at: "is_word_at s w i" for i
  proof -
    have "\<exists>u. w = map tolower u" using at unfolding is_word_at_def by (elim conjE) (rule exI)
    then obtain u where w: "w = map tolower u" ..
    show ?thesis unfolding w by (simp add: comp_def)
  qed
  ultimately show ?thesis using times_in_pos [of w s] by auto
qed

text \<open>What is stored under the key of a word, when no other word of the text has this key.\<close>

lemma with_key_offsets:
  assumes "\<And>v i. is_word_at s v i \<Longrightarrow> str_key v = str_key w \<Longrightarrow> v = w"
  shows "map snd (with_key (str_key w) (occurrences (words_of s))) = map of_nat (word_offsets w s)"
proof -
  have "filter (\<lambda>x. str_key (fst x) = str_key w) (words_of s) = filter (\<lambda>(v, i). v = w) (words_of s)"
    using assms by (intro filter_cong) (auto simp: words_are_maximal_runs)
  then show ?thesis
    by (simp add: word_offsets_words with_key_def occurrences_def filter_map comp_def case_prod_unfold)
qed

lemma word_offset_less: "i \<in> set (word_offsets w s) \<Longrightarrow> i < length s"
  unfolding word_offsets_words by (auto simp: words_are_maximal_runs is_word_at_def)

section \<open>Reading and building\<close>

text \<open>The calls of \<open>read\<close> on the file deliver exactly the bytes \<open>s\<close>.\<close>

fun reads_as :: "read_outcome list \<Rightarrow> string \<Rightarrow> bool" where
  "reads_as [] s \<longleftrightarrow> s = []"
| "reads_as (ReadAgain # outs) s \<longleftrightarrow> reads_as outs s"
| "reads_as (ReadError # outs) s \<longleftrightarrow> False"
| "reads_as (ReadBytes bs # outs) s \<longleftrightarrow>
     bs \<noteq> [] \<and> length bs \<le> length s \<and> take (length bs) s = bs \<and> reads_as outs (drop (length bs) s)"

definition file_is :: "os \<Rightarrow> string \<Rightarrow> string \<Rightarrow> bool" where
  "file_is sys f s \<longleftrightarrow>
     (\<exists>st. os_stat sys f = Some st \<and> si_isreg st \<and> si_size st = length s) \<and> os_open sys f \<and>
     reads_as (os_reads sys f) s"

definition plain_text :: "string \<Rightarrow> bool" where
  "plain_text s \<longleftrightarrow> (\<forall>c \<in> set s. c \<noteq> NUL \<and> (of_char c :: nat) \<le> ASCII_UPPER_BOUND)"

lemma read_loop_ok: "reads_as outs s \<Longrightarrow> read_loop outs (length s) data = Inr (Some (data @ s))"
proof (induction outs s arbitrary: data rule: reads_as.induct)
  case (4 bs outs s)
  have s: "s = bs @ drop (length bs) s" using 4(2) append_take_drop_id [of "length bs" s] by simp
  have "read_loop (ReadBytes bs # outs) (length s) data = read_loop outs (length s - length bs) (data @ bs)"
    using 4(2) by (subst read_loop.simps) auto
  also have "\<dots> = Inr (Some ((data @ bs) @ drop (length bs) s))"
    using 4(1) [of "data @ bs"] 4(2) by simp
  finally show ?case using s by simp
qed (simp_all add: read_loop.simps [of "[]"] read_loop.simps [of "ReadAgain # _"])

lemma ReadFile_ok:
  assumes "file_is sys f s" "length s < 2 ^ 32" "never_fails m"
  shows "\<exists>m'. ReadFile m sys f = Inr (Some (s @ [NUL], of_nat (length s)), m') \<and> never_fails m'"
proof -
  obtain m1 where m1: "malloc m = (True, m1)" "never_fails m1" using assms(3) by (rule never_fails_malloc)
  have "read_loop (os_reads sys f) (length s) [] = Inr (Some s)"
    using assms(1) read_loop_ok [of "os_reads sys f" s "[]"] by (simp add: file_is_def)
  then show ?thesis using assms(1,2) m1
    by (auto simp: ReadFile_def file_is_def Let_def unat_of_nat32)
qed

lemma only_ascii_ok:
  "i + n \<le> length buf \<Longrightarrow>
   only_ascii n i buf = Inr (plain_text (take n (drop i buf)))"
proof (induction n arbitrary: i)
  case (Suc n)
  have "drop i buf = buf ! i # drop (Suc i) buf" using Suc.prems by (simp add: Cons_nth_drop_Suc)
  moreover have "only_ascii n (Suc i) buf = Inr (plain_text (take n (drop (Suc i) buf)))"
    using Suc by simp
  ultimately show ?case using Suc.prems by (auto simp: plain_text_def)
qed (simp add: plain_text_def)

lemma FreeWordHT_ok:
  assumes "wht_rep W occ"
  shows "\<exists>s. FreeWordHT W = Inr s \<and> st_cells s = Map.empty"
proof -
  let ?t = "wh_table W" and ?s = "wh_store W"
  have o: "owns ?t ?s" using assms by (simp add: wht_rep_def)
  let ?f = "\<lambda>s a. bindE (st_read s a) (\<lambda>pos. bindE (FreeLinkedList (wp_positions pos)) (\<lambda>_. st_free s a))"
  have "\<exists>s'. WordHTFree (map kv_value (ht_entries ?t)) ?s = Inr s' \<and> st_cells s' = Map.empty"
  proof (rule free_table_ok [OF o, where P = "\<lambda>x. ll_inv (wp_positions x)" and f = ?f])
    show "ll_inv (wp_positions x)" if "view ?t ?s k = Some x" for k x
      using assms that unfolding wht_rep_def entry_ok_def by (metis (no_types, lifting) option.simps(5))
    show "WordHTFree (a # as) s = bindE (?f s a) (WordHTFree as)" for a "as" s
      by (simp add: bindE_def split: sum.splits)
  qed (simp_all add: Free_list)
  with Free_ok [OF owns_inv [OF o]] show ?thesis by (simp add: FreeWordHT_def)
qed

lemma wht_rep_empty_iff:
  assumes "wht_rep W occ"
  shows "ht_num_elements (wh_table W) = 0 \<longleftrightarrow> occ = []"
proof
  assume z: "ht_num_elements (wh_table W) = 0"
  have o: "owns (wh_table W) (wh_store W)" using assms by (simp add: wht_rep_def)
  then have "ht_map (wh_table W) = Map.empty" using ht_count [OF owns_inv [OF o]] z by simp
  then have "entry_ok None (with_key k occ)" for k
    using assms view_empty unfolding wht_rep_def by metis
  then have "with_key k occ = []" for k by (simp add: entry_ok_def)
  moreover have "with_key (str_key (fst x)) (x # xs) \<noteq> []" for x xs by (cases x) (simp add: with_key_def)
  ultimately show "occ = []" by (metis list.exhaust)
next
  assume "occ = []"
  then show "ht_num_elements (wh_table W) = 0" using assms by (simp add: wht_rep_def word32_eq_0_iff)
qed

lemma BuildWordHT_ok:
  assumes f: "file_is sys f s" and len: "length s < 2 ^ 32" and m: "never_fails m"
  shows "\<exists>r m'. BuildWordHT m sys f = Inr (r, m') \<and> never_fails m' \<and>
     (if plain_text s \<and> words_of s \<noteq> [] then \<exists>W. r = Some W \<and> wht_rep W (occurrences (words_of s)) else r = None)"
proof -
  obtain m1 where read: "ReadFile m sys f = Inr (Some (s @ [NUL], of_nat (length s)), m1)" "never_fails m1"
    using ReadFile_ok [OF assms] by blast
  have u: "unat (of_nat (length s) :: 32 word) = length s" using len by (rule unat_of_nat32)
  have ascii: "only_ascii (length s) 0 (s @ [NUL]) = Inr (plain_text s)"
    using only_ascii_ok [of 0 "length s" "s @ [NUL]"] by simp
  have zero: "(of_nat (length s) :: 32 word) = 0 \<longleftrightarrow> s = []" using u by (simp add: word32_eq_0_iff)
  show ?thesis
  proof (cases "s = [] \<or> \<not> plain_text s")
    case True
    then show ?thesis using read ascii u zero by (auto simp: BuildWordHT_def words_of_def)
  next
    case False
    obtain m2 and t :: "nat hash_table" where t: "AllocateHashTable m1 64 = Inr (Some t, m2)" "never_fails m2"
      "ht_inv t" "ht_map t = Map.empty" "ht_num_elements t = 0" using Allocate_ok [OF read(2), of 64] by auto
    let ?W = "\<lparr>wh_table = t, wh_store = empty_store\<rparr>"
    have "wht_rep ?W []"
      using t by (simp add: wht_rep_def owns_empty view_empty entry_ok_def with_key_def)
    moreover have "NUL \<notin> set s" using False by (auto simp: plain_text_def)
    ultimately obtain m3 W buf where W: "LoopAndInsert m2 ?W (s @ [NUL]) = Inr (m3, W, buf)" "never_fails m3"
      "wht_rep W (occurrences (words_of s))" using LoopAndInsert_ok [of ?W s m2] len t(2) by blast
    have "occurrences (words_of s) = [] \<longleftrightarrow> words_of s = []" by (simp add: occurrences_def)
    with wht_rep_empty_iff [OF W(3)] FreeWordHT_ok [OF W(3)] W read ascii u zero False t(1) show ?thesis
      by (auto simp: BuildWordHT_def NumElementsInHashTable_def)
  qed
qed

text \<open>The structures of a table, by key and by word.\<close>

lemma word_table_words:
  assumes "wht_rep W occ" "view (wh_table W) (wh_store W) k = Some wp"
  shows "str_key (wp_word wp) = k" "ll_inv (wp_positions wp)"
    "with_key k occ \<noteq> []" "ll_list (wp_positions wp) = map snd (with_key k occ)" "wp_word wp \<in> fst ` set occ"
proof -
  have e: "entry_ok (Some wp) (with_key k occ)" using assms unfolding wht_rep_def by metis
  then show "ll_inv (wp_positions wp)" "with_key k occ \<noteq> []" "ll_list (wp_positions wp) = map snd (with_key k occ)"
    by (simp_all add: entry_ok_def)
  have hd: "hd (with_key k occ) \<in> set (with_key k occ)" using e by (simp add: entry_ok_def)
  then have "hd (with_key k occ) \<in> set occ" by (simp add: with_key_def)
  then show "wp_word wp \<in> fst ` set occ" using e by (simp add: entry_ok_def)
  from hd have "str_key (fst (hd (with_key k occ))) = k" by (auto simp: with_key_def)
  then show "str_key (wp_word wp) = k" using e by (simp add: entry_ok_def)
qed

lemma word_table_none:
  assumes "wht_rep W occ" "view (wh_table W) (wh_store W) k = None"
  shows "with_key k occ = []"
proof -
  have "entry_ok None (with_key k occ)" using assms unfolding wht_rep_def by metis
  then show ?thesis by (simp add: entry_ok_def)
qed

lemma word_table_offsets:
  assumes rep: "wht_rep W (occurrences (words_of s))" and len: "length s < 2 ^ 32" and w: "is_word_at s w i"
    and key: "\<And>v j. is_word_at s v j \<Longrightarrow> str_key v = str_key w \<Longrightarrow> v = w"
  shows "\<exists>wp. view (wh_table W) (wh_store W) (str_key w) = Some wp \<and> wp_word wp = w \<and>
     map unat (ll_list (wp_positions wp)) = word_offsets w s"
proof -
  let ?occ = "occurrences (words_of s)"
  have offs: "map snd (with_key (str_key w) ?occ) = map of_nat (word_offsets w s)" using key by (rule with_key_offsets)
  have "word_offsets w s \<noteq> []" using w times_in_pos [of w s] by (auto simp: times_in_offsets)
  then have "with_key (str_key w) ?occ \<noteq> []" using offs by auto
  then obtain wp where wp: "view (wh_table W) (wh_store W) (str_key w) = Some wp"
    using word_table_none [OF rep] by (metis option.exhaust)
  note t = word_table_words [OF rep wp]
  obtain j where "(wp_word wp, j) \<in> set (words_of s)" using t(5) by (auto simp: occurrences_def)
  then have "wp_word wp = w" using key t(1) by (simp add: words_are_maximal_runs)
  moreover have "unat (of_nat j :: DocPositionOffset_t) = j" if "j \<in> set (word_offsets w s)" for j
    using word_offset_less [OF that] len by (intro unat_of_nat32) simp
  then have "map unat (ll_list (wp_positions wp)) = word_offsets w s"
    unfolding t(4) offs by (simp add: map_idI)
  ultimately show ?thesis using wp by blast
qed

section \<open>Properties\<close>

text \<open>
  An operating system with the given files and directories: each file is delivered by one
  call of \<open>read\<close>.
\<close>

definition os_of :: "(string \<times> string) list \<Rightarrow> (string \<times> string list) list \<Rightarrow> os" where
  "os_of files dirs =
     \<lparr>os_stat = (\<lambda>f. case map_of files f of
         Some s \<Rightarrow> Some \<lparr>si_isreg = True, si_isdir = False, si_size = length s\<rparr>
       | None \<Rightarrow> (case map_of dirs f of
           Some _ \<Rightarrow> Some \<lparr>si_isreg = False, si_isdir = True, si_size = 0\<rparr>
         | None \<Rightarrow> None)),
      os_open = (\<lambda>f. map_of files f \<noteq> None),
      os_reads = (\<lambda>f. case map_of files f of
         Some s \<Rightarrow> (if s = [] then [] else [ReadBytes s])
       | None \<Rightarrow> []),
      os_opendir = map_of dirs\<rparr>"

lemma os_of_file: "map_of files f = Some s \<Longrightarrow> file_is (os_of files dirs) f s"
  by (simp add: file_is_def os_of_def)

definition note_file :: string where
  "note_file = ''A cat, a dog; a Cat. ''"

definition note_os :: os where
  "note_os = os_of [(''d/note'', note_file), (''d/word'', ''word'')] [(''d'', [''.'', ''note'', ''word''])]"

lemma note_os_file: "file_is note_os ''d/note'' note_file" "file_is note_os ''d/word'' ''word''"
  unfolding note_os_def by (rule os_of_file, simp)+

lemma note_file_words:
  "plain_text note_file" "words_of note_file =
     [(''a'', 0), (''cat'', 2), (''a'', 7), (''dog'', 9), (''a'', 14), (''cat'', 16)]"
  by code_simp+

text \<open>
  Property C30: for a file of plain text in which a word is followed by another character,
  \<open>BuildWordHT\<close> returns a table with one structure for each word that is: the word in lower case
  and the list of all the offsets at which it occurs, in increasing order; for any other file it
  returns \<open>NULL\<close>.  Words are maximal runs of letters; one that the file ends with is left out, and
  a file with no other word yields no table.  The table has one structure for each key, so no
  two words of the text may have the same one.  It stays inside its buffer and the counters
  do not wrap, for files below 4 GB.
\<close>

theorem BuildWordHT_indexes_text:
  assumes "file_is sys f s" "length s < 2 ^ 32" "never_fails m" and "inj_on str_key {w. \<exists>i. is_word_at s w i}"
  shows "\<exists>r m'. BuildWordHT m sys f = Inr (r, m') \<and>
     (if plain_text s \<and> (\<exists>w i. is_word_at s w i)
      then \<exists>W. r = Some W \<and>
        (\<forall>w i. is_word_at s w i \<longrightarrow> (\<exists>wp. view (wh_table W) (wh_store W) (str_key w) = Some wp \<and> wp_word wp = w \<and>
           map unat (ll_list (wp_positions wp)) = sorted_list_of_set {i. is_word_at s w i})) \<and>
        (\<forall>k. view (wh_table W) (wh_store W) k \<noteq> None \<longrightarrow> (\<exists>w i. is_word_at s w i \<and> k = str_key w))
      else r = None)"
proof -
  obtain r m' where r: "BuildWordHT m sys f = Inr (r, m')"
    "if plain_text s \<and> words_of s \<noteq> [] then \<exists>W. r = Some W \<and> wht_rep W (occurrences (words_of s)) else r = None"
    using BuildWordHT_ok [OF assms(1-3)] by blast
  show ?thesis
  proof (cases "plain_text s \<and> words_of s \<noteq> []")
    case True
    then obtain W where W: "r = Some W" "wht_rep W (occurrences (words_of s))" using r(2) by auto
    have 1: "\<exists>wp. view (wh_table W) (wh_store W) (str_key w) = Some wp \<and> wp_word wp = w \<and>
        map unat (ll_list (wp_positions wp)) = sorted_list_of_set {i. is_word_at s w i}" if w: "is_word_at s w i" for w i
    proof -
      have "v = w" if "is_word_at s v j" "str_key v = str_key w" for v j
        using inj_onD [OF assms(4) that(2)] that(1) w by blast
      from word_table_offsets [OF W(2) assms(2) w this] show ?thesis by (simp add: word_offsets_def)
    qed
    have 2: "\<exists>w i. is_word_at s w i \<and> k = str_key w" if some: "view (wh_table W) (wh_store W) k \<noteq> None" for k
    proof -
      obtain wp where "view (wh_table W) (wh_store W) k = Some wp" using some by blast
      note t = word_table_words(1,5) [OF W(2) this]
      then obtain j where "(wp_word wp, j) \<in> set (words_of s)" by (auto simp: occurrences_def)
      then show ?thesis using t(1) words_are_maximal_runs by metis
    qed
    show ?thesis using r(1) W(1) True 1 2 unfolding words_of_Nil by auto
  next
    case False
    then show ?thesis using r unfolding words_of_Nil by auto
  qed
qed

lemma note_word_keys: "inj_on str_key {w. \<exists>i. is_word_at note_file w i}"
proof -
  have "{w. \<exists>i. is_word_at note_file w i} = set (map fst (words_of note_file))"
    by (force simp: words_are_maximal_runs [symmetric])
  also have "\<dots> = {''a'', ''cat'', ''dog''}" unfolding note_file_words(2) by auto
  finally have words: "{w. \<exists>i. is_word_at note_file w i} = {''a'', ''cat'', ''dog''}" .
  have "(str_key ''a'' = str_key ''cat'') = False" "(str_key ''a'' = str_key ''dog'') = False"
    "(str_key ''cat'' = str_key ''dog'') = False" by code_simp+
  then have "distinct (map str_key [''a'', ''cat'', ''dog''])" by simp
  then show ?thesis unfolding words distinct_map by simp
qed

lemma BuildWordHT_indexes_text_witness:
  "\<exists>W m' wp. BuildWordHT [] note_os ''d/note'' = Inr (Some W, m') \<and>
     view (wh_table W) (wh_store W) (str_key ''cat'') = Some wp \<and> wp_word wp = ''cat'' \<and>
     map unat (ll_list (wp_positions wp)) = [2, 16]"
proof -
  have at: "is_word_at note_file ''cat'' 2" using note_file_words(2) by (simp add: words_are_maximal_runs [symmetric])
  have offs: "sorted_list_of_set {i. is_word_at note_file ''cat'' i} = [2, 16]"
    using word_offsets_words [of "''cat''" note_file] by (simp add: word_offsets_def note_file_words(2))
  have small: "length note_file < 2 ^ 32" by (simp add: note_file_def)
  note r = BuildWordHT_indexes_text [OF note_os_file(1) small never_fails_Nil note_word_keys]
  have cond: "(plain_text note_file \<and> (\<exists>w i. is_word_at note_file w i)) = True" using at note_file_words(1) by blast
  obtain W m' where W: "BuildWordHT [] note_os ''d/note'' = Inr (Some W, m')"
    "\<forall>w i. is_word_at note_file w i \<longrightarrow> (\<exists>wp. view (wh_table W) (wh_store W) (str_key w) = Some wp \<and> wp_word wp = w \<and>
      map unat (ll_list (wp_positions wp)) = sorted_list_of_set {i. is_word_at note_file w i})"
    using r unfolding cond if_True by blast
  from W(2) [rule_format, OF at] obtain wp where
    "view (wh_table W) (wh_store W) (str_key ''cat'') = Some wp" "wp_word wp = ''cat''"
    "map unat (ll_list (wp_positions wp)) = sorted_list_of_set {i. is_word_at note_file ''cat'' i}" by blast
  then show ?thesis using W(1) offs by metis
qed

text \<open>
  \<open>FreeWordHT\<close> on a word table terminates and frees every structure the table owns,
  each once, and nothing else.
\<close>

theorem FreeWordHT_frees_all:
  assumes "wht_rep W occ"
  shows "\<exists>s. FreeWordHT W = Inr s \<and> st_cells s = Map.empty"
  using FreeWordHT_ok [OF assms] .

lemma FreeWordHT_frees_all_witness:
  "\<exists>W m' s. BuildWordHT [] note_os ''d/note'' = Inr (Some W, m') \<and> FreeWordHT W = Inr s \<and> st_cells s = Map.empty"
proof -
  obtain W m' where W: "BuildWordHT [] note_os ''d/note'' = Inr (Some W, m')" "wht_rep W (occurrences (words_of note_file))"
    using BuildWordHT_ok [OF note_os_file(1), of "[]"] note_file_words by (auto simp: note_file_def)
  with FreeWordHT_frees_all [OF W(2)] show ?thesis by blast
qed

lemma text_words_letters: "\<forall>c \<in> set w. isalpha c \<Longrightarrow> text_words i v w = []"
  by (induction w arbitrary: i v) auto

lemma text_words_last:
  "\<forall>c \<in> set w. isalpha c \<Longrightarrow> (s = [] \<Longrightarrow> v = []) \<Longrightarrow> (s \<noteq> [] \<Longrightarrow> \<not> isalpha (last s)) \<Longrightarrow>
   text_words i v (s @ w) = text_words i v s"
proof (induction i v s rule: text_words.induct)
  case (2 i v c cs)
  then show ?case
    by (cases cs) (auto simp: text_words_letters)
qed (simp add: text_words_letters)

text \<open>
  Property C31: a word that ends where the file does is not indexed.  For a file that ends with the
  letters \<open>w\<close>, the table that \<open>BuildWordHT\<close> returns has no structure with the offset of \<open>w\<close>, and
  when no word comes before \<open>w\<close> it returns \<open>NULL\<close>, as if the file had no word.
\<close>

theorem last_word_is_skipped:
  assumes "w \<noteq> []" "\<forall>c \<in> set w. isalpha c" "s = [] \<or> \<not> isalpha (last s)"
    and "file_is sys f (s @ w)" "length (s @ w) < 2 ^ 32" "never_fails m"
  shows "\<exists>r m'. BuildWordHT m sys f = Inr (r, m') \<and>
     (\<forall>W k wp. r = Some W \<longrightarrow> view (wh_table W) (wh_store W) k = Some wp \<longrightarrow>
        of_nat (length s) \<notin> set (ll_list (wp_positions wp))) \<and>
     ((\<forall>v i. \<not> is_word_at s v i) \<longrightarrow> r = None)"
proof -
  have words: "words_of (s @ w) = words_of s"
    unfolding words_of_def using assms(2,3) by (intro text_words_last) auto
  obtain r m' where r: "BuildWordHT m sys f = Inr (r, m')"
    "if plain_text (s @ w) \<and> words_of s \<noteq> [] then \<exists>W. r = Some W \<and> wht_rep W (occurrences (words_of s)) else r = None"
    using BuildWordHT_ok [OF assms(4-6)] unfolding words by blast
  have 1: "of_nat (length s) \<notin> set (ll_list (wp_positions wp))"
    if W: "r = Some W" "view (wh_table W) (wh_store W) k = Some wp" for W k wp
  proof
    assume "of_nat (length s) \<in> set (ll_list (wp_positions wp))"
    moreover have rep: "wht_rep W (occurrences (words_of s))" using r(2) W(1) by (auto split: if_splits)
    ultimately obtain v i where i: "(v, i) \<in> set (words_of s)" "of_nat (length s) = (of_nat i :: DocPositionOffset_t)"
      unfolding word_table_words(4) [OF rep W(2)] by (auto simp: with_key_def occurrences_def)
    then have less: "i < length s" by (simp add: words_are_maximal_runs is_word_at_def)
    have "unat (of_nat (length s) :: DocPositionOffset_t) = length s" "unat (of_nat i :: DocPositionOffset_t) = i"
      using less assms(5) by (simp_all add: unat_of_nat32)
    with i(2) less show False by simp
  qed
  have 2: "r = None" if "\<forall>v i. \<not> is_word_at s v i"
  proof -
    have "words_of s = []" using that words_of_Nil by simp
    then show ?thesis using r(2) by simp
  qed
  show ?thesis using r(1) 1 2 by blast
qed

lemma last_word_is_skipped_witness: "\<exists>m'. BuildWordHT [] note_os ''d/word'' = Inr (None, m')"
proof -
  have "\<forall>v i. \<not> is_word_at [] v i" by (simp add: is_word_at_def)
  moreover have "\<forall>c \<in> set ''word''. isalpha c" by code_simp
  ultimately show ?thesis
    using last_word_is_skipped [of "''word''" "[]" note_os "''d/word''" "[]"] note_os_file(2) by auto
qed

end
