(* ===== verification/MemIndex.thy ===== *)
theory MemIndex
  imports DocTable FileParser
begin

text \<open>
  The in-memory inverted index of src/hw2/memindex.c: a hash table from hashed words to the
  structures that hold the word and, per document id, the list of its positions.  The program
  keeps adding to the document table behind a structure, so the structures are in a store.
\<close>

section \<open>Data\<close>

record word_doc_set =
  wds_word :: string
  wds_docIDs :: "DocPositionOffset_t linked_list hash_table"

record mem_index =
  mi_table :: "nat hash_table"
  mi_store :: "word_doc_set store"

text \<open>The payloads of a result list.\<close>

record search_result =
  sr_docid :: DocID_t
  sr_rank :: HWSize_t

definition MISearchListComparator :: "search_result \<Rightarrow> search_result \<Rightarrow> int" where
  "MISearchListComparator sr1 sr2 =
     (if sr_rank sr1 > sr_rank sr2 then 1 else if sr_rank sr1 < sr_rank sr2 then - 1 else 0)"

section \<open>Creating and freeing\<close>

text \<open>\<open>MIListFree\<close> frees the nodes of a list; its payloads are numbers.\<close>

definition MIListFree :: "DocPositionOffset_t linked_list \<Rightarrow> unit res" where
  "MIListFree list = bindE (FreeLinkedList list) (\<lambda>_. Inr ())"

fun MIListFree_all :: "DocPositionOffset_t linked_list list \<Rightarrow> unit res" where
  "MIListFree_all [] = Inr ()"
| "MIListFree_all (l # ls) = bindE (MIListFree l) (\<lambda>_. MIListFree_all ls)"

definition MIFree :: "word_doc_set store \<Rightarrow> nat \<Rightarrow> word_doc_set store res" where
  "MIFree s a =
     bindE (st_read s a) (\<lambda>wd.
     bindE (FreeHashTable (wds_docIDs wd)) (\<lambda>lists.
     bindE (MIListFree_all lists) (\<lambda>_. st_free s a)))"

fun MIFree_all :: "nat list \<Rightarrow> word_doc_set store \<Rightarrow> word_doc_set store res" where
  "MIFree_all [] s = Inr s"
| "MIFree_all (a # as) s = bindE (MIFree s a) (\<lambda>s. MIFree_all as s)"

definition AllocateMemIndex :: "allocator \<Rightarrow> (mem_index \<times> allocator) res" where
  "AllocateMemIndex m =
     bindE (AllocateHashTable m 128) (\<lambda>(mi, m).
     case mi of
       None \<Rightarrow> Inl Verify333_Failed
     | Some mi \<Rightarrow> Inr (\<lparr>mi_table = mi, mi_store = empty_store\<rparr>, m))"

definition FreeMemIndex :: "mem_index \<Rightarrow> word_doc_set store res" where
  "FreeMemIndex index =
     bindE (FreeHashTable (mi_table index)) (\<lambda>values. MIFree_all values (mi_store index))"

definition MINumWordsInMemIndex :: "mem_index \<Rightarrow> HWSize_t" where
  "MINumWordsInMemIndex index = NumElementsInHashTable (mi_table index)"

section \<open>Adding a posting list\<close>

text \<open>
  The first half of \<open>MIAddPostingList\<close>: the address of the structure for the word, found or
  made; \<open>None\<close> when a new one cannot be allocated.
\<close>

definition find_word_doc_set ::
  "allocator \<Rightarrow> mem_index \<Rightarrow> string \<Rightarrow> (nat option \<times> allocator \<times> mem_index) res" where
  "find_word_doc_set m index word =
     bindE (hash_str word) (\<lambda>wordkey.
     bindE (LookupHashTable m (mi_table index) wordkey) (\<lambda>(res, kv, m).
     if res = 0 then
       case malloc m of (ok, m) \<Rightarrow>
       if \<not> ok then Inr (None, m, index)
       else
         bindE (AllocateHashTable m 64) (\<lambda>(docIDs, m).
         case docIDs of
           None \<Rightarrow> Inl Verify333_Failed
         | Some docIDs \<Rightarrow>
             case st_alloc (mi_store index) \<lparr>wds_word = word, wds_docIDs = docIDs\<rparr> of (wds, store) \<Rightarrow>
             bindE (InsertHashTable m (mi_table index) \<lparr>kv_key = wordkey, kv_value = wds\<rparr>) (\<lambda>(res, _, m, table).
             bindE (Verify333 (res = 1)) (\<lambda>_. Inr (Some wds, m, \<lparr>mi_table = table, mi_store = store\<rparr>))))
     else
       case kv of
         None \<Rightarrow> Inl Undefined_Behaviour
       | Some kv \<Rightarrow> Inr (Some (kv_value kv), m, index)))"

definition MIAddPostingList ::
  "allocator \<Rightarrow> mem_index \<Rightarrow> string \<Rightarrow> DocID_t \<Rightarrow> DocPositionOffset_t linked_list \<Rightarrow>
   (int \<times> allocator \<times> mem_index) res" where
  "MIAddPostingList m index word docid positions =
     bindE (find_word_doc_set m index word) (\<lambda>(found, m, index).
     case found of
       None \<Rightarrow> Inr (0, m, index)
     | Some a \<Rightarrow>
         bindE (st_read (mi_store index) a) (\<lambda>wds.
         bindE (LookupHashTable m (wds_docIDs wds) docid) (\<lambda>(res, _, m).
         bindE (Verify333 (res = 0)) (\<lambda>_.
         bindE (InsertHashTable m (wds_docIDs wds) \<lparr>kv_key = docid, kv_value = positions\<rparr>) (\<lambda>(res, _, m, docIDs).
         bindE (st_write (mi_store index) a (wds\<lparr>wds_docIDs := docIDs\<rparr>)) (\<lambda>store.
         bindE (Verify333 (res \<noteq> 0)) (\<lambda>_. Inr (1, m, index\<lparr>mi_store := store\<rparr>))))))))"

section \<open>Queries\<close>

text \<open>
  The documents of the first word.  \<open>None\<close> is the early return when a result cannot be
  allocated.  The loop ends when the iterator is past the end of the table.
\<close>

fun first_word_loop ::
  "nat \<Rightarrow> allocator \<Rightarrow> DocPositionOffset_t linked_list hash_table \<Rightarrow> ht_iter \<Rightarrow> search_result linked_list \<Rightarrow>
   (search_result linked_list option \<times> allocator) res" where
  "first_word_loop fuel m docIDs it retlist =
     (if HTIteratorPastEnd docIDs it \<noteq> 0 then Inr (Some retlist, m)
      else case fuel of
        0 \<Rightarrow> Inl Out_Of_Fuel
      | Suc fuel \<Rightarrow>
          case malloc m of (ok, m) \<Rightarrow>
          if \<not> ok then bindE (FreeLinkedList retlist) (\<lambda>_. Inr (None, m))
          else
            bindE (HTIteratorGet docIDs it) (\<lambda>kv.
            case kv of
              None \<Rightarrow> Inl Verify333_Failed
            | Some kv \<Rightarrow>
                bindE (AppendLinkedList m retlist
                  \<lparr>sr_docid = kv_key kv, sr_rank = NumElementsInLinkedList (kv_value kv)\<rparr>) (\<lambda>(res, m, retlist).
                bindE (Verify333 res) (\<lambda>_.
                bindE (HTIteratorNext m docIDs it) (\<lambda>(_, m, it).
                first_word_loop fuel m docIDs it retlist)))))"

declare first_word_loop.simps [simp del]

text \<open>
  The loop over the results so far, for one further word: \<open>ne - j\<close> rounds are left.  Both are
  an \<open>int\<close>, so the number of elements, an unsigned number, is read with its sign: with
  \<open>2 ^ 31\<close> results or more the loop has no round.
\<close>

fun next_word_loop ::
  "nat \<Rightarrow> allocator \<Rightarrow> DocPositionOffset_t linked_list hash_table \<Rightarrow> ll_iter \<Rightarrow> search_result linked_list \<Rightarrow>
   (search_result linked_list \<times> allocator) res" where
  "next_word_loop 0 m docIDs llit retlist = Inr (retlist, m)"
| "next_word_loop (Suc n) m docIDs llit retlist =
     bindE (LLIteratorGetPayload retlist llit) (\<lambda>sr.
     bindE (LookupHashTable m docIDs (sr_docid sr)) (\<lambda>(res, kv, m).
     bindE (Verify333 (res \<noteq> - 1)) (\<lambda>_.
     if res = 0 then
       bindE (LLIteratorDelete retlist llit) (\<lambda>(_, _, retlist, llit).
       next_word_loop n m docIDs llit retlist)
     else
       case kv of
         None \<Rightarrow> Inl Undefined_Behaviour
       | Some kv \<Rightarrow>
           let num = NumElementsInLinkedList (kv_value kv) in
           bindE (set_payload retlist (it_node llit) (sr\<lparr>sr_rank := sr_rank sr + num\<rparr>)) (\<lambda>retlist.
           bindE (LLIteratorNext retlist llit) (\<lambda>(res, llit).
           next_word_loop n m docIDs llit retlist)))))"

definition add_query_word ::
  "allocator \<Rightarrow> mem_index \<Rightarrow> string \<Rightarrow> search_result linked_list \<Rightarrow>
   (search_result linked_list option \<times> allocator) res" where
  "add_query_word m index word retlist =
     bindE (hash_str word) (\<lambda>wordkey.
     bindE (LookupHashTable m (mi_table index) wordkey) (\<lambda>(res, kv, m).
     bindE (Verify333 (res \<noteq> - 1)) (\<lambda>_.
     if res = 0 then bindE (FreeLinkedList retlist) (\<lambda>_. Inr (None, m))
     else
       bindE (LLMakeIterator m retlist 0) (\<lambda>(llit, m).
       case (llit, kv) of
         (None, _) \<Rightarrow> Inl Verify333_Failed
       | (Some _, None) \<Rightarrow> Inl Undefined_Behaviour
       | (Some llit, Some kv) \<Rightarrow>
           let ne = NumElementsInLinkedList retlist in
           bindE (st_read (mi_store index) (kv_value kv)) (\<lambda>wds.
           bindE (next_word_loop (nat (sint ne)) m (wds_docIDs wds) llit retlist) (\<lambda>(retlist, m).
           if NumElementsInLinkedList retlist = 0
           then bindE (FreeLinkedList retlist) (\<lambda>_. Inr (None, m))
           else Inr (Some retlist, m)))))))"

text \<open>The loop over the words from index \<open>i\<close> on; \<open>n\<close> is the number of words left.\<close>

fun query_loop ::
  "nat \<Rightarrow> nat \<Rightarrow> allocator \<Rightarrow> mem_index \<Rightarrow> string list \<Rightarrow> search_result linked_list \<Rightarrow>
   (search_result linked_list option \<times> allocator) res" where
  "query_loop 0 i m index query retlist = Inr (Some retlist, m)"
| "query_loop (Suc n) i m index query retlist =
     bindE (index_res query i) (\<lambda>word.
     bindE (add_query_word m index word retlist) (\<lambda>(retlist, m).
     case retlist of
       None \<Rightarrow> Inr (None, m)
     | Some retlist \<Rightarrow> query_loop n (Suc i) m index query retlist))"

definition first_query_word ::
  "allocator \<Rightarrow> mem_index \<Rightarrow> string \<Rightarrow> search_result linked_list \<Rightarrow>
   (search_result linked_list option \<times> allocator) res" where
  "first_query_word m index word retlist =
     bindE (hash_str word) (\<lambda>wordkey.
     bindE (LookupHashTable m (mi_table index) wordkey) (\<lambda>(res, kv, m).
     bindE (Verify333 (res \<noteq> - 1)) (\<lambda>_.
     if res = 0 then bindE (FreeLinkedList retlist) (\<lambda>_. Inr (None, m))
     else case kv of
       None \<Rightarrow> Inl Undefined_Behaviour
     | Some kv \<Rightarrow>
         bindE (st_read (mi_store index) (kv_value kv)) (\<lambda>wds.
         bindE (Verify333 (0 < NumElementsInHashTable (wds_docIDs wds))) (\<lambda>_.
         bindE (HashTableMakeIterator m (wds_docIDs wds)) (\<lambda>(it, m).
         case it of
           None \<Rightarrow> Inl Verify333_Failed
         | Some it \<Rightarrow>
             first_word_loop (unat (ht_num_elements (wds_docIDs wds))) m (wds_docIDs wds) it retlist))))))"

text \<open>\<open>query\<close> is the array of words; the caller says how many of them there are.\<close>

definition MIProcessQuery ::
  "allocator \<Rightarrow> mem_index \<Rightarrow> string list \<Rightarrow> 8 word \<Rightarrow> (search_result linked_list option \<times> allocator) res" where
  "MIProcessQuery m index query qlen =
     (if qlen = 0 then Inr (None, m)
      else case AllocateLinkedList m of (retlist, m) \<Rightarrow>
        case retlist of
          None \<Rightarrow> Inl Verify333_Failed
        | Some retlist \<Rightarrow>
            bindE (index_res query 0) (\<lambda>word.
            bindE (first_query_word m index word retlist) (\<lambda>(retlist, m).
            case retlist of
              None \<Rightarrow> Inr (None, m)
            | Some retlist \<Rightarrow>
                if qlen = 1 then
                  bindE (SortLinkedList retlist 0 MISearchListComparator) (\<lambda>retlist. Inr (Some retlist, m))
                else
                  bindE (query_loop (unat qlen - 1) 1 m index query retlist) (\<lambda>(retlist, m).
                  case retlist of
                    None \<Rightarrow> Inr (None, m)
                  | Some retlist \<Rightarrow>
                      bindE (SortLinkedList retlist 0 MISearchListComparator)
                        (\<lambda>retlist. Inr (Some retlist, m))))))"

end
