(* ===== verification/MemIndexSpec.thy ===== *)
theory MemIndexSpec
  imports MemIndex StoreTable FileParserSpec LinkedListSpec
begin

text \<open>
  What an inverted index stands for (\<open>hits\<close>: the positions of a word in a document), and the
  properties of adding to it and of querying it.
\<close>

section \<open>What an index stands for\<close>

definition wds_of :: "mem_index \<Rightarrow> HTKey_t \<Rightarrow> word_doc_set option" where
  "wds_of I = view (mi_table I) (mi_store I)"

definition hits :: "mem_index \<Rightarrow> HTKey_t \<Rightarrow> DocID_t \<Rightarrow> DocPositionOffset_t list option" where
  "hits I k d = (case wds_of I k of None \<Rightarrow> None
     | Some wds \<Rightarrow> map_option ll_list (ht_map (wds_docIDs wds) d))"

text \<open>A structure is well formed: so is its table, and so are the lists in it.\<close>

definition wds_ok :: "word_doc_set \<Rightarrow> bool" where
  "wds_ok wds \<longleftrightarrow> ht_inv (wds_docIDs wds) \<and> (\<forall>d l. ht_map (wds_docIDs wds) d = Some l \<longrightarrow> ll_inv l)"

definition mi_inv :: "mem_index \<Rightarrow> bool" where
  "mi_inv I \<longleftrightarrow> owns (mi_table I) (mi_store I) \<and>
     (\<forall>k wds. wds_of I k = Some wds \<longrightarrow>
        wds_ok wds \<and> ht_map (wds_docIDs wds) \<noteq> Map.empty \<and> str_key (wds_word wds) = k)"

text \<open>The words that the structures of an index are for.\<close>

definition index_words :: "mem_index \<Rightarrow> string set" where
  "index_words I = {wds_word wds | wds. \<exists>k. wds_of I k = Some wds}"

text \<open>At most \<open>nw\<close> words and, per word, at most \<open>nd\<close> documents.\<close>

definition mi_bound :: "mem_index \<Rightarrow> nat \<Rightarrow> nat \<Rightarrow> bool" where
  "mi_bound I nw nd \<longleftrightarrow> unat (ht_num_elements (mi_table I)) \<le> nw \<and>
     (\<forall>k wds. wds_of I k = Some wds \<longrightarrow> unat (ht_num_elements (wds_docIDs wds)) \<le> nd)"

lemma mi_inv_owns: "mi_inv I \<Longrightarrow> owns (mi_table I) (mi_store I)"
  by (simp add: mi_inv_def)

lemma wds_of_None:
  assumes "owns (mi_table I) (mi_store I)"
  shows "wds_of I k = None \<longleftrightarrow> ht_map (mi_table I) k = None"
  unfolding wds_of_def by (rule view_None_iff [OF assms])

lemma wds_of_Some:
  assumes "mi_inv I" "wds_of I k = Some wds"
  obtains a where "ht_map (mi_table I) k = Some a" "st_cells (mi_store I) a = Some wds" "wds_ok wds"
    "ht_map (wds_docIDs wds) \<noteq> Map.empty"
proof -
  have ok: "wds_ok wds" "ht_map (wds_docIDs wds) \<noteq> Map.empty" using assms by (auto simp: mi_inv_def)
  obtain a where "ht_map (mi_table I) k = Some a" "st_cells (mi_store I) a = Some wds"
    using view_Some [OF mi_inv_owns [OF assms(1)]] assms(2) unfolding wds_of_def by blast
  then show ?thesis using ok by (rule that)
qed

section \<open>Adding\<close>

text \<open>The structure for a word: the one in the index, or a new one.\<close>

lemma find_word_doc_set_ok:
  assumes inv: "mi_inv I" and room: "Suc (unat (ht_num_elements (mi_table I))) < 2 ^ 32" and m: "never_fails m"
  shows "\<exists>a m' I' wds. find_word_doc_set m I w = Inr (Some a, m', I') \<and> never_fails m' \<and>
     owns (mi_table I') (mi_store I') \<and> ht_map (mi_table I') (str_key w) = Some a \<and>
     st_cells (mi_store I') a = Some wds \<and> wds_ok wds \<and>
     wds_of I' = (wds_of I)(str_key w \<mapsto> wds) \<and>
     (case wds_of I (str_key w) of Some wds0 \<Rightarrow> wds = wds0
      | None \<Rightarrow> wds_word wds = w \<and> ht_map (wds_docIDs wds) = Map.empty \<and> ht_num_elements (wds_docIDs wds) = 0) \<and>
     unat (ht_num_elements (mi_table I')) = unat (ht_num_elements (mi_table I)) + (if wds_of I (str_key w) = None then 1 else 0)"
proof -
  let ?t = "mi_table I" and ?s = "mi_store I" and ?k = "str_key w"
  have o: "owns ?t ?s" using inv by (rule mi_inv_owns)
  obtain m1 where look: "LookupHashTable m ?t ?k =
      Inr (if ht_map ?t ?k = None then 0 else 1, map_option (as_kv ?k) (ht_map ?t ?k), m1)" "never_fails m1"
    using ht.look [OF owns_inv [OF o] m] by blast
  show ?thesis
  proof (cases "wds_of I ?k")
    case None
    then have none: "ht_map ?t ?k = None" using wds_of_None [OF o] by simp
    obtain m2 where m2: "malloc m1 = (True, m2)" "never_fails m2" using look(2) by (rule never_fails_malloc)
    obtain m3 and d :: "DocPositionOffset_t linked_list hash_table" where d:
      "AllocateHashTable m2 64 = Inr (Some d, m3)" "never_fails m3" "ht_inv d" "ht_map d = Map.empty" "ht_num_elements d = 0"
      using Allocate_ok [OF m2(2), of 64] by auto
    let ?wds = "\<lparr>wds_word = w, wds_docIDs = d\<rparr>"
    obtain m4 t' where t': "InsertHashTable m3 ?t \<lparr>kv_key = ?k, kv_value = st_brk ?s\<rparr> = Inr (1, None, m4, t')"
      "never_fails m4" "ht_inv t'" "ht_map t' = (ht_map ?t)(?k \<mapsto> st_brk ?s)"
      "unat (ht_num_elements t') = Suc (unat (ht_num_elements ?t))"
      using ht.ins_full [OF owns_inv [OF o] room d(2), of ?k "st_brk ?s"] none by auto
    let ?I = "\<lparr>mi_table = t', mi_store = snd (st_alloc ?s ?wds)\<rparr>"
    have "find_word_doc_set m I w = Inr (Some (st_brk ?s), m4, ?I)"
      using look(1) none m2(1) d(1) t'(1) by (simp add: find_word_doc_set_def st_alloc_def)
    moreover have "st_cells (snd (st_alloc ?s ?wds)) (st_brk ?s) = Some ?wds" by (simp add: st_alloc_def)
    moreover have "wds_of ?I = (wds_of I)(?k \<mapsto> ?wds)"
      using owns_insert(2) [OF o none t'(3,4), of ?wds] by (simp add: wds_of_def)
    moreover have "wds_ok ?wds" using d by (simp add: wds_ok_def)
    ultimately show ?thesis using t' d None owns_insert(1) [OF o none t'(3,4), of ?wds]
      by (intro exI [of _ "st_brk ?s"] exI [of _ m4] exI [of _ ?I] exI [of _ ?wds]) simp
  next
    case (Some wds)
    obtain a where a: "ht_map ?t ?k = Some a" "st_cells ?s a = Some wds" "wds_ok wds"
      using wds_of_Some [OF inv Some] by blast
    have "find_word_doc_set m I w = Inr (Some a, m1, I)" using look(1) a(1) by (simp add: find_word_doc_set_def)
    moreover have "wds_of I = (wds_of I)(?k \<mapsto> wds)" using Some by (simp add: fun_eq_iff)
    ultimately show ?thesis using a look(2) o Some
      by (intro exI [of _ a] exI [of _ m1] exI [of _ I] exI [of _ wds]) simp
  qed
qed

lemma hits_upd:
  assumes w: "wds_of I' = (wds_of I)(k \<mapsto> wds)" and d': "ht_map (wds_docIDs wds) = (ht_map d0)(d \<mapsto> l)"
    and d0: "case wds_of I k of None \<Rightarrow> ht_map d0 = Map.empty | Some wds0 \<Rightarrow> d0 = wds_docIDs wds0"
  shows "hits I' = (hits I)(k := (hits I k)(d \<mapsto> ll_list l))"
proof (intro ext)
  fix k' d'
  show "hits I' k' d' = ((hits I)(k := (hits I k)(d \<mapsto> ll_list l))) k' d'"
    using w d' d0 by (cases "wds_of I k") (auto simp: hits_def)
qed

lemma MIAddPostingList_ok:
  assumes inv: "mi_inv I" and bound: "mi_bound I nw nd" "Suc nw < 2 ^ 32" "Suc nd < 2 ^ 32"
    and m: "never_fails m" and l: "ll_inv l" and fresh: "hits I (str_key w) d = None"
  shows "\<exists>m' I'. MIAddPostingList m I w d l = Inr (1, m', I') \<and> never_fails m' \<and> mi_inv I' \<and>
     mi_bound I' (Suc nw) (Suc nd) \<and>
     hits I' = (hits I)(str_key w := (hits I (str_key w))(d \<mapsto> ll_list l)) \<and>
     index_words I' \<subseteq> insert w (index_words I)"
proof -
  let ?k = "str_key w"
  have room: "Suc (unat (ht_num_elements (mi_table I))) < 2 ^ 32" using bound by (simp add: mi_bound_def)
  obtain a m1 I1 wds where f: "find_word_doc_set m I w = Inr (Some a, m1, I1)" "never_fails m1"
    and o: "owns (mi_table I1) (mi_store I1)" "ht_map (mi_table I1) ?k = Some a" "st_cells (mi_store I1) a = Some wds"
    and ok: "wds_ok wds" and upd: "wds_of I1 = (wds_of I)(?k \<mapsto> wds)"
    and wds: "case wds_of I ?k of Some wds0 \<Rightarrow> wds = wds0
      | None \<Rightarrow> wds_word wds = w \<and> ht_map (wds_docIDs wds) = Map.empty \<and> ht_num_elements (wds_docIDs wds) = 0"
    and num: "unat (ht_num_elements (mi_table I1)) =
      unat (ht_num_elements (mi_table I)) + (if wds_of I ?k = None then 1 else 0)"
    using find_word_doc_set_ok [OF inv room m, of w] by blast
  let ?d = "wds_docIDs wds"
  have d: "ht_inv ?d" using ok by (simp add: wds_ok_def)
  have none: "ht_map ?d d = None" using fresh wds by (auto simp: hits_def split: option.splits)
  have nd: "unat (ht_num_elements ?d) \<le> nd" using wds bound(1) by (auto simp: mi_bound_def split: option.splits)
  obtain m2 where look: "LookupHashTable m1 ?d d = Inr (0, None, m2)" "never_fails m2"
    using ht.look [OF d f(2), of d] none by auto
  have droom: "Suc (unat (ht_num_elements ?d)) < 2 ^ 32" using nd bound(3) by simp
  obtain m3 d' where d': "InsertHashTable m2 ?d \<lparr>kv_key = d, kv_value = l\<rparr> = Inr (1, None, m3, d')" "never_fails m3"
    "ht_inv d'" "ht_map d' = (ht_map ?d)(d \<mapsto> l)" "unat (ht_num_elements d') = Suc (unat (ht_num_elements ?d))"
    using ht.ins_full [OF d droom look(2), of d l] none by auto
  let ?wds = "wds\<lparr>wds_docIDs := d'\<rparr>"
  let ?I = "I1\<lparr>mi_store := (mi_store I1)\<lparr>st_cells := (st_cells (mi_store I1))(a \<mapsto> ?wds)\<rparr>\<rparr>"
  have run: "MIAddPostingList m I w d l = Inr (1, m3, ?I)"
    using f(1) o(3) look(1) d'(1) by (simp add: MIAddPostingList_def)
  have v: "wds_of ?I = (wds_of I)(?k \<mapsto> ?wds)"
    using owns_write(2) [OF o(1,2), of ?wds] upd by (simp add: wds_of_def)
  have key: "str_key (wds_word wds) = ?k" using wds inv by (auto simp: mi_inv_def split: option.splits)
  have "wds_ok ?wds" using ok d'(3,4) l by (auto simp: wds_ok_def)
  moreover have "ht_map d' \<noteq> Map.empty" using d'(4) by (auto simp: fun_eq_iff)
  ultimately have "mi_inv ?I" using owns_write(1) [OF o(1,2), of ?wds] inv
    by (simp add: mi_inv_def v key)
  moreover have "hits ?I = (hits I)(?k := (hits I ?k)(d \<mapsto> ll_list l))"
    by (rule hits_upd [OF v, of ?d]) (use d'(4) wds in \<open>auto split: option.splits\<close>)
  moreover have "mi_bound ?I (Suc nw) (Suc nd)"
    using bound(1) num nd d'(5) by (auto simp: mi_bound_def v le_SucI)
  moreover have "wds_word wds \<in> insert w (index_words I)"
    using wds by (auto simp: index_words_def split: option.splits)
  then have "index_words ?I \<subseteq> insert w (index_words I)"
    by (auto simp: index_words_def v split: if_splits)
  ultimately show ?thesis using run d'(2) by blast
qed

text \<open>A posting list for a document the word already has fails the check.\<close>

lemma MIAddPostingList_twice:
  assumes inv: "mi_inv I" and room: "Suc (unat (ht_num_elements (mi_table I))) < 2 ^ 32"
    and m: "never_fails m" and old: "hits I (str_key w) d \<noteq> None"
  shows "MIAddPostingList m I w d l = Inl Verify333_Failed"
proof -
  let ?k = "str_key w"
  obtain a m1 I1 wds where f: "find_word_doc_set m I w = Inr (Some a, m1, I1)" "never_fails m1"
    "st_cells (mi_store I1) a = Some wds" "wds_ok wds" "case wds_of I ?k of Some wds0 \<Rightarrow> wds = wds0
      | None \<Rightarrow> wds_word wds = w \<and> ht_map (wds_docIDs wds) = Map.empty \<and> ht_num_elements (wds_docIDs wds) = 0"
    using find_word_doc_set_ok [OF inv room m, of w] by blast
  have "ht_map (wds_docIDs wds) d \<noteq> None" using old f(5) by (auto simp: hits_def split: option.splits)
  then obtain kv m2 where "LookupHashTable m1 (wds_docIDs wds) d = Inr (1, kv, m2)"
    using ht.look [OF _ f(2), of "wds_docIDs wds" d] f(4) by (auto simp: wds_ok_def)
  then show ?thesis using f(1,3) by (simp add: MIAddPostingList_def)
qed

section \<open>Queries\<close>

type_synonym postings = "HTKey_t \<Rightarrow> DocID_t \<Rightarrow> DocPositionOffset_t list option"

definition score :: "postings \<Rightarrow> HTKey_t \<Rightarrow> DocID_t \<Rightarrow> HWSize_t" where
  "score H k d = (case H k d of None \<Rightarrow> 0 | Some ps \<Rightarrow> of_nat (length ps))"

text \<open>
  The results for a list of keys: the documents that all the keys hit, each once, ranked by
  the number of hits, a sum of 32 bits.
\<close>

definition result_of :: "postings \<Rightarrow> HTKey_t list \<Rightarrow> DocID_t \<Rightarrow> search_result" where
  "result_of H ks d = \<lparr>sr_docid = d, sr_rank = sum_list (map (\<lambda>k. score H k d) ks)\<rparr>"

definition results_for :: "postings \<Rightarrow> HTKey_t list \<Rightarrow> search_result list \<Rightarrow> bool" where
  "results_for H ks xs \<longleftrightarrow>
     distinct (map sr_docid xs) \<and> set xs = result_of H ks ` {d. \<forall>k \<in> set ks. H k d \<noteq> None}"

lemma result_of_sel [simp]: "sr_docid (result_of H ks d) = d"
  by (simp add: result_of_def)

lemma of_nat_num: "ll_inv l \<Longrightarrow> ll_num_elements l = of_nat (length (ll_list l))"
proof -
  assume "ll_inv l"
  then have "of_nat (unat (ll_num_elements l)) = (of_nat (length (ll_list l)) :: 32 word)" by (simp add: ll_num_eq)
  then show ?thesis by simp
qed

text \<open>A number below \<open>2 ^ 31\<close> keeps its value as an \<open>int\<close>.\<close>

lemma sint_small:
  fixes w :: "32 word"
  assumes "unat w < 2 ^ 31"
  shows "nat (sint w) = unat w"
proof -
  have "int (unat w) < int (2 ^ 31)" using assms by (simp only: of_nat_less_iff)
  then have "uint w < 2 ^ 31" by simp
  then have "take_bit 31 (uint w) = uint w" "\<not> bit (uint w) 31"
    by (simp_all add: take_bit_int_eq_self bit_iff_odd)
  then have "sint w = uint w" by (simp add: sint_uint signed_take_bit_eq_if_positive)
  then show ?thesis by simp
qed

lemma set_payload_list:
  assumes "ll_inv l" "it_at l it i"
  shows "\<exists>l'. set_payload l (it_node it) x = Inr l' \<and> ll_inv l' \<and> ll_list l' = (ll_list l)[i := x] \<and> it_at l' it i"
proof -
  let ?cs = "ll_cells l"
  have *: "ll_rep l ?cs" "i < length ?cs" "it_node it = Some (fst (?cs ! i))"
    using it_at_rep [OF assms(2,1)] by auto
  have "ll_rep l (take i ?cs @ ?cs ! i # drop (Suc i) ?cs)" using *(1,2) by (simp add: id_take_nth_drop [symmetric])
  from set_payload_rep [OF this, of x] obtain l' where
    l': "set_payload l (it_node it) x = Inr l'" "ll_rep l' (take i ?cs @ (fst (?cs ! i), x) # drop (Suc i) ?cs)"
    unfolding *(3) by blast
  have "ll_list l' = (ll_list l)[i := x]"
    using *(2) unfolding ll_rep_list [OF l'(2)] ll_list_def [of l] by (simp add: upd_conv_take_nth_drop take_map drop_map)
  moreover have "it_at l' it i" using *(2,3) by (simp add: ll_rep_it_at [OF l'(2)] nth_append)
  ultimately show ?thesis using l'(1) ll_rep_inv [OF l'(2)] by blast
qed

text \<open>The documents of the first word.\<close>

definition entry_result :: "DocPositionOffset_t linked_list ht_kv \<Rightarrow> search_result" where
  "entry_result kv = \<lparr>sr_docid = kv_key kv, sr_rank = NumElementsInLinkedList (kv_value kv)\<rparr>"

lemma first_word_loop_ok:
  assumes inv: "ht_inv t"
  shows "hti_at t it kvs \<Longrightarrow> length kvs \<le> fuel \<Longrightarrow> never_fails m \<Longrightarrow> ll_inv ret \<Longrightarrow>
     length (ll_list ret) + length kvs < 2 ^ 32 \<Longrightarrow>
     \<exists>ret' m'. first_word_loop fuel m t it ret = Inr (Some ret', m') \<and> never_fails m' \<and> ll_inv ret' \<and>
       ll_list ret' = ll_list ret @ map entry_result kvs"
proof (induction kvs arbitrary: fuel m it ret)
  case Nil
  then show ?case using PastEnd_ok [OF inv Nil(1)] by (subst first_word_loop.simps) simp
next
  case (Cons kv kvs)
  obtain k where fuel: "fuel = Suc k" "length kvs \<le> k" using Cons.prems(2) by (cases fuel) auto
  note sub = hti_at_subset [OF Cons.prems(1)]
  obtain m1 where m1: "malloc m = (True, m1)" "never_fails m1" using Cons.prems(3) by (rule never_fails_malloc)
  have room: "Suc (length (ll_list ret)) < 2 ^ 32" using Cons.prems(5) by simp
  obtain m2 ret1 where r: "AppendLinkedList m1 ret (entry_result kv) = Inr (True, m2, ret1)" "never_fails m2" "ll_inv ret1"
    "ll_list ret1 = ll_list ret @ [entry_result kv]" using ll.append [OF Cons.prems(4) room m1(2)] by blast
  obtain c m3 it1 where nx: "HTIteratorNext m2 t it = Inr (c, m3, it1)" "never_fails m3" "hti_at t it1 kvs"
    using HTNext_ok [OF inv Cons.prems(1) r(2)] by blast
  have "first_word_loop fuel m t it ret = first_word_loop k m3 t it1 ret1"
    using PastEnd_ok [OF inv Cons.prems(1) sub] Get_ok [OF inv Cons.prems(1) sub] nx(1) fuel(1) m1(1) r(1)
    by (subst first_word_loop.simps) (simp add: entry_result_def)
  with Cons.IH [OF nx(3) fuel(2) nx(2) r(3)] r(4) Cons.prems(5) show ?case by simp
qed

lemma entries_results:
  assumes inv: "mi_inv I" and w: "wds_of I k = Some wds"
  shows "results_for (hits I) [k] (map entry_result (ht_entries (wds_docIDs wds)))"
proof -
  let ?t = "wds_docIDs wds"
  have ok: "wds_ok wds" using inv w by (simp add: mi_inv_def)
  then have t: "ht_inv ?t" by (simp add: wds_ok_def)
  note d = ht_entries_distinct [OF t]
  have e: "kv \<in> set (ht_entries ?t) \<longleftrightarrow> ht_map ?t (kv_key kv) = Some (kv_value kv)" for kv
    unfolding ht_map_def by (rule kv_in_entries [OF d])
  have r: "entry_result kv = result_of (hits I) [k] (kv_key kv)" if "kv \<in> set (ht_entries ?t)" for kv
    using that e ok w by (simp add: entry_result_def result_of_def score_def hits_def wds_ok_def
        NumElementsInLinkedList_def of_nat_num)
  have h: "hits I k d \<noteq> None \<longleftrightarrow> d \<in> kv_key ` set (ht_entries ?t)" for d
  proof -
    have "hits I k d \<noteq> None \<longleftrightarrow> (\<exists>l. ht_map ?t d = Some l)" using w by (auto simp: hits_def)
    also have "\<dots> \<longleftrightarrow> (\<exists>l. as_kv d l \<in> set (ht_entries ?t))" by (simp add: e)
    also have "\<dots> \<longleftrightarrow> d \<in> kv_key ` set (ht_entries ?t)"
      
    proof
      assume "\<exists>l. as_kv d l \<in> set (ht_entries ?t)"
      then show "d \<in> kv_key ` set (ht_entries ?t)" by (metis image_eqI kv_key_as_kv(1))
    next
      assume "d \<in> kv_key ` set (ht_entries ?t)"
      then show "\<exists>l. as_kv d l \<in> set (ht_entries ?t)" by (metis imageE kv_eta)
    qed
    finally show ?thesis .
  qed
  have "map sr_docid (map entry_result (ht_entries ?t)) = keys (ht_entries ?t)"
    by (simp add: entry_result_def)
  then have "distinct (map sr_docid (map entry_result (ht_entries ?t)))" using d by (simp only:)
  moreover have "set (map entry_result (ht_entries ?t)) = result_of (hits I) [k] ` {d. \<forall>k \<in> set [k]. hits I k d \<noteq> None}"
    using r h by (auto simp: image_image)
  ultimately show ?thesis unfolding results_for_def by (rule conjI)
qed

lemma first_query_word_ok:
  assumes inv: "mi_inv I" and m: "never_fails m"
  shows "\<exists>r m'. first_query_word m I w empty_list = Inr (r, m') \<and> never_fails m' \<and>
     (case r of None \<Rightarrow> \<forall>d. hits I (str_key w) d = None
      | Some ret \<Rightarrow> ll_inv ret \<and> ll_list ret \<noteq> [] \<and> results_for (hits I) [str_key w] (ll_list ret))"
proof -
  let ?k = "str_key w"
  have o: "owns (mi_table I) (mi_store I)" using inv by (rule mi_inv_owns)
  obtain m1 where look: "LookupHashTable m (mi_table I) ?k =
      Inr (if ht_map (mi_table I) ?k = None then 0 else 1, map_option (as_kv ?k) (ht_map (mi_table I) ?k), m1)"
    "never_fails m1" using ht.look [OF owns_inv [OF o] m] by blast
  show ?thesis
  proof (cases "wds_of I ?k")
    case None
    then have "ht_map (mi_table I) ?k = None" using wds_of_None [OF o] by simp
    then show ?thesis using look None
      by (simp add: first_query_word_def Free_list [OF ll_inv_empty] hits_def)
  next
    case (Some wds)
    then obtain a where a: "ht_map (mi_table I) ?k = Some a" "st_cells (mi_store I) a = Some wds" "wds_ok wds"
      "ht_map (wds_docIDs wds) \<noteq> Map.empty" using wds_of_Some [OF inv Some] by blast
    let ?t = "wds_docIDs wds"
    have t: "ht_inv ?t" using a(3) by (simp add: wds_ok_def)
    have num: "unat (ht_num_elements ?t) = length (ht_entries ?t)" using t by (simp add: ht_inv_def)
    have ne: "ht_entries ?t \<noteq> []" using a(4) by (auto simp: ht_map_def fun_eq_iff)
    have pos: "0 < NumElementsInHashTable ?t"
      using num ne by (simp add: NumElementsInHashTable_def word_less_nat_alt)
    obtain m2 it where it: "HashTableMakeIterator m1 ?t = Inr (Some it, m2)" "never_fails m2" "hti_at ?t it (ht_entries ?t)"
      using HTMakeIterator_ok [OF t look(2)] by blast
    have room: "length (ll_list (empty_list :: search_result linked_list)) + length (ht_entries ?t) < 2 ^ 32"
      using num unsigned_less [of "ht_num_elements ?t", where ?'a = nat] by simp
    obtain ret m3 where r: "first_word_loop (unat (ht_num_elements ?t)) m2 ?t it empty_list = Inr (Some ret, m3)"
      "never_fails m3" "ll_inv ret" "ll_list ret = map entry_result (ht_entries ?t)"
      using first_word_loop_ok [OF t it(3) _ it(2) ll_inv_empty room, of "unat (ht_num_elements ?t)"] num by auto
    have "first_query_word m I w empty_list = Inr (Some ret, m3)"
      using look(1) a(1,2) pos it(1) r(1) by (simp add: first_query_word_def)
    then show ?thesis using r ne entries_results [OF inv Some] by simp
  qed
qed

text \<open>One further word.\<close>

definition add_score :: "postings \<Rightarrow> HTKey_t \<Rightarrow> search_result \<Rightarrow> search_result" where
  "add_score H k sr = sr\<lparr>sr_rank := sr_rank sr + score H k (sr_docid sr)\<rparr>"

lemma next_word_loop_ok:
  assumes inv: "mi_inv I" and w: "wds_of I k = Some wds"
  shows "ll_inv ret \<Longrightarrow> ll_list ret = pre @ suf \<Longrightarrow> (suf \<noteq> [] \<Longrightarrow> it_at ret llit (length pre)) \<Longrightarrow> never_fails m \<Longrightarrow>
     \<exists>ret' m'. next_word_loop (length suf) m (wds_docIDs wds) llit ret = Inr (ret', m') \<and> never_fails m' \<and> ll_inv ret' \<and>
       ll_list ret' = pre @ map (add_score (hits I) k) (filter (\<lambda>sr. hits I k (sr_docid sr) \<noteq> None) suf)"
proof (induction suf arbitrary: pre ret llit m)
  case (Cons sr suf)
  let ?t = "wds_docIDs wds" and ?i = "length pre"
  have at: "it_at ret llit ?i" using Cons.prems(3) by simp
  have ok: "wds_ok wds" using inv w by (simp add: mi_inv_def)
  then have t: "ht_inv ?t" by (simp add: wds_ok_def)
  have get: "LLIteratorGetPayload ret llit = Inr sr"
    using GetPayload_list [OF Cons.prems(1) at] Cons.prems(2) by simp
  obtain m1 where look: "LookupHashTable m ?t (sr_docid sr) =
      Inr (if ht_map ?t (sr_docid sr) = None then 0 else 1, map_option (as_kv (sr_docid sr)) (ht_map ?t (sr_docid sr)), m1)"
    "never_fails m1" using ht.look [OF t Cons.prems(4)] by blast
  show ?case
  proof (cases "ht_map ?t (sr_docid sr)")
    case None
    obtain ret1 llit1 where d: "LLIteratorDelete ret llit = Inr (length (ll_list ret) \<noteq> 1, ll_list ret ! ?i, ret1, llit1)"
      "ll_inv ret1" "ll_list ret1 = take ?i (ll_list ret) @ drop (Suc ?i) (ll_list ret)"
      "length (ll_list ret) \<noteq> 1 \<Longrightarrow> it_at ret1 llit1 (if Suc ?i < length (ll_list ret) then ?i else ?i - 1)"
      using Delete_list [OF Cons.prems(1) at] by metis
    have "ll_list ret1 = pre @ suf" using d(3) Cons.prems(2) by simp
    moreover have "it_at ret1 llit1 ?i" if "suf \<noteq> []" using d(4) that Cons.prems(2) by simp
    ultimately have "\<exists>ret' m'. next_word_loop (length suf) m1 ?t llit1 ret1 = Inr (ret', m') \<and> never_fails m' \<and> ll_inv ret' \<and>
       ll_list ret' = pre @ map (add_score (hits I) k) (filter (\<lambda>sr. hits I k (sr_docid sr) \<noteq> None) suf)"
      using Cons.IH [OF d(2) _ _ look(2)] by blast
    moreover have "hits I k (sr_docid sr) = None" using None w by (simp add: hits_def)
    ultimately show ?thesis using get look(1) None d(1) by simp
  next
    case (Some l)
    then have l: "ll_inv l" using ok by (simp add: wds_ok_def)
    have sc: "score (hits I) k (sr_docid sr) = NumElementsInLinkedList l" "hits I k (sr_docid sr) \<noteq> None"
      using Some w l by (simp_all add: score_def hits_def NumElementsInLinkedList_def of_nat_num)
    let ?sr = "sr\<lparr>sr_rank := sr_rank sr + NumElementsInLinkedList l\<rparr>"
    obtain ret1 where p: "set_payload ret (it_node llit) ?sr = Inr ret1" "ll_inv ret1"
      "ll_list ret1 = (ll_list ret)[?i := ?sr]" "it_at ret1 llit ?i"
      using set_payload_list [OF Cons.prems(1) at] by blast
    have l1: "ll_list ret1 = (pre @ [?sr]) @ suf" using p(3) Cons.prems(2) by simp
    obtain c llit1 where nx: "LLIteratorNext ret1 llit = Inr (c, llit1)"
      "it_at ret1 llit1 (if Suc ?i < length (ll_list ret1) then Suc ?i else ?i)"
      using Next_list [OF p(2,4)] by blast
    have "it_at ret1 llit1 (length (pre @ [?sr]))" if "suf \<noteq> []" using nx(2) l1 that by simp
    from Cons.IH [OF p(2) l1 this look(2)] show ?thesis
      using get look(1) Some p(1) nx(1) sc by (simp add: add_score_def Let_def)
  qed
qed simp

lemma results_for_add:
  assumes "results_for (hits I) ks xs"
  shows "results_for (hits I) (ks @ [k]) (map (add_score (hits I) k) (filter (\<lambda>sr. hits I k (sr_docid sr) \<noteq> None) xs))"
proof -
  let ?f = "\<lambda>sr. hits I k (sr_docid sr) \<noteq> None"
  have "sr_docid (add_score (hits I) k sr) = sr_docid sr" for sr by (simp add: add_score_def)
  then have 1: "map sr_docid (map (add_score (hits I) k) (filter ?f xs)) = map sr_docid (filter ?f xs)" by simp
  have 2: "distinct (map sr_docid (filter ?f xs))" using assms by (simp add: results_for_def distinct_map_filter)
  have add: "add_score (hits I) k (result_of (hits I) ks d) = result_of (hits I) (ks @ [k]) d" for d
    by (simp add: add_score_def result_of_def)
  have "set (map (add_score (hits I) k) (filter ?f xs)) =
      add_score (hits I) k ` {sr \<in> result_of (hits I) ks ` {d. \<forall>k \<in> set ks. hits I k d \<noteq> None}. ?f sr}"
    using assms by (simp add: results_for_def)
  also have "{sr \<in> result_of (hits I) ks ` {d. \<forall>k \<in> set ks. hits I k d \<noteq> None}. ?f sr} =
      result_of (hits I) ks ` {d. \<forall>k \<in> set (ks @ [k]). hits I k d \<noteq> None}"
    by auto
  finally have "set (map (add_score (hits I) k) (filter ?f xs)) =
      result_of (hits I) (ks @ [k]) ` {d. \<forall>k \<in> set (ks @ [k]). hits I k d \<noteq> None}"
    by (simp add: image_image add)
  with 1 2 show ?thesis unfolding results_for_def by (simp only:)
qed

text \<open>No document is left, and so none for any longer list of keys.\<close>

lemma add_query_word_ok:
  assumes inv: "mi_inv I" and m: "never_fails m" and ret: "ll_inv ret" "ll_list ret \<noteq> []"
    and r: "results_for (hits I) ks (ll_list ret)" and few: "length (ll_list ret) < 2 ^ 31"
  shows "\<exists>r m'. add_query_word m I w ret = Inr (r, m') \<and> never_fails m' \<and>
     (case r of None \<Rightarrow> \<forall>d. \<exists>k \<in> set (ks @ [str_key w]). hits I k d = None
      | Some ret' \<Rightarrow> ll_inv ret' \<and> ll_list ret' \<noteq> [] \<and> length (ll_list ret') \<le> length (ll_list ret) \<and>
          results_for (hits I) (ks @ [str_key w]) (ll_list ret'))"
proof -
  let ?k = "str_key w"
  have o: "owns (mi_table I) (mi_store I)" using inv by (rule mi_inv_owns)
  obtain m1 where look: "LookupHashTable m (mi_table I) ?k =
      Inr (if ht_map (mi_table I) ?k = None then 0 else 1, map_option (as_kv ?k) (ht_map (mi_table I) ?k), m1)"
    "never_fails m1" using ht.look [OF owns_inv [OF o] m] by blast
  show ?thesis
  proof (cases "wds_of I ?k")
    case None
    then have "ht_map (mi_table I) ?k = None" using wds_of_None [OF o] by simp
    then show ?thesis using look None by (simp add: add_query_word_def Free_list [OF ret(1)] hits_def)
  next
    case (Some wds)
    then obtain a where a: "ht_map (mi_table I) ?k = Some a" "st_cells (mi_store I) a = Some wds"
      using wds_of_Some [OF inv Some] by blast
    obtain it m2 where it: "LLMakeIterator m1 ret 0 = Inr (Some it, m2)" "never_fails m2" "it_at ret it (length [])"
      using MakeIterator_list [OF ret(1), of 0 m1] look(2) ret(2) by auto
    have "unat (NumElementsInLinkedList ret) = length (ll_list ret)"
      by (simp add: NumElementsInLinkedList_def ll_num_eq [OF ret(1)])
    then have num: "nat (sint (NumElementsInLinkedList ret)) = length (ll_list ret)"
      using few by (simp add: sint_small)
    obtain ret' m3 where loop: "next_word_loop (length (ll_list ret)) m2 (wds_docIDs wds) it ret = Inr (ret', m3)"
      "never_fails m3" "ll_inv ret'"
      "ll_list ret' = map (add_score (hits I) ?k) (filter (\<lambda>sr. hits I ?k (sr_docid sr) \<noteq> None) (ll_list ret))"
      using next_word_loop_ok [OF inv Some ret(1), of "[]" "ll_list ret" it m2] it by auto
    have new: "results_for (hits I) (ks @ [?k]) (ll_list ret')" unfolding loop(4) by (rule results_for_add [OF r])
    have shorter: "length (ll_list ret') \<le> length (ll_list ret)" by (simp add: loop(4))
    have run: "add_query_word m I w ret = (if ll_list ret' = [] then Inr (None, m3) else Inr (Some ret', m3))"
      using look(1) a it(1) loop(1) by (simp add: add_query_word_def Let_def num)
        (simp add: NumElementsInLinkedList_def ll_num_0 [OF loop(3)] Free_list [OF loop(3)])
    have "\<forall>d. \<exists>k \<in> set (ks @ [?k]). hits I k d = None" if "ll_list ret' = []"
      using new that unfolding results_for_def by (auto simp: Ball_def)
    then show ?thesis using run loop(2,3) new shorter by (cases "ll_list ret' = []") auto
  qed
qed

lemma query_loop_ok:
  assumes inv: "mi_inv I"
  shows "i + n = length query \<Longrightarrow> never_fails m \<Longrightarrow> ll_inv ret \<Longrightarrow> ll_list ret \<noteq> [] \<Longrightarrow>
     results_for (hits I) (map str_key (take i query)) (ll_list ret) \<Longrightarrow> length (ll_list ret) < 2 ^ 31 \<Longrightarrow>
     \<exists>r m'. query_loop n i m I query ret = Inr (r, m') \<and> never_fails m' \<and>
       (case r of None \<Rightarrow> \<forall>d. \<exists>w \<in> set query. hits I (str_key w) d = None
        | Some ret' \<Rightarrow> ll_inv ret' \<and> ll_list ret' \<noteq> [] \<and> results_for (hits I) (map str_key query) (ll_list ret'))"
proof (induction n arbitrary: i m ret)
  case (Suc n)
  have i: "i < length query" using Suc.prems(1) by simp
  have take: "map str_key (take (Suc i) query) = map str_key (take i query) @ [str_key (query ! i)]"
    using i by (simp add: take_Suc_conv_app_nth)
  obtain r m1 where 1: "add_query_word m I (query ! i) ret = Inr (r, m1)" "never_fails m1"
    "case r of None \<Rightarrow> \<forall>d. \<exists>k \<in> set (map str_key (take (Suc i) query)). hits I k d = None
      | Some ret' \<Rightarrow> ll_inv ret' \<and> ll_list ret' \<noteq> [] \<and> length (ll_list ret') \<le> length (ll_list ret) \<and>
          results_for (hits I) (map str_key (take (Suc i) query)) (ll_list ret')"
    using add_query_word_ok [OF inv Suc.prems(2-6), of "query ! i"] unfolding take by blast
  show ?case
  proof (cases r)
    case None
    have "\<forall>d. \<exists>w \<in> set query. hits I (str_key w) d = None"
      using 1(3) None set_take_subset [of "Suc i" query] by fastforce
    then show ?thesis using 1 None i by simp
  next
    case (Some ret')
    have "Suc i + n = length query" using Suc.prems(1) by simp
    from Suc.IH [OF this 1(2)] show ?thesis using 1 Some i Suc.prems(6) by simp
  qed
qed simp

interpretation search_results: payload_comparator MISearchListComparator
  by unfold_locales (auto simp: MISearchListComparator_def split: if_splits)

lemma sort_results_ok:
  assumes "ll_inv ret" "results_for (hits I) ks (ll_list ret)"
  shows "\<exists>ret'. SortLinkedList ret 0 MISearchListComparator = Inr ret' \<and> ll_inv ret' \<and>
     length (ll_list ret') = length (ll_list ret) \<and> results_for (hits I) ks (ll_list ret') \<and>
     sorted_wrt (\<lambda>x y. sr_rank y \<le> sr_rank x) (ll_list ret')"
proof -
  obtain ret' where s: "SortLinkedList ret 0 MISearchListComparator = Inr ret'" "ll_inv ret'"
    "mset (ll_list ret') = mset (ll_list ret)"
    "sorted_wrt (\<lambda>x y. MISearchListComparator y x \<le> 0) (ll_list ret')"
    using search_results.sort_correct [OF assms(1), of 0] by auto
  have "sorted_wrt (\<lambda>x y. sr_rank y \<le> sr_rank x) (ll_list ret')"
    using s(4) by (rule sorted_wrt_mono_rel [rotated]) (auto simp: MISearchListComparator_def split: if_splits)
  moreover have "results_for (hits I) ks (ll_list ret')"
    using assms(2) mset_eq_setD [OF s(3)] s(3) unfolding results_for_def
    by (metis mset_eq_imp_distinct_iff mset_map)
  ultimately show ?thesis using s mset_eq_length [OF s(3)] by blast
qed

text \<open>Each result is a document of the first word.\<close>

lemma results_for_length:
  assumes "results_for H ks xs"
  shows "length xs = card {d. \<forall>k \<in> set ks. H k d \<noteq> None}"
proof -
  have "length xs = card (set (map sr_docid xs))"
    using assms by (metis distinct_card length_map results_for_def)
  also have "set (map sr_docid xs) = {d. \<forall>k \<in> set ks. H k d \<noteq> None}"
    using assms by (simp add: results_for_def image_image)
  finally show ?thesis .
qed

lemma MIProcessQuery_ok:
  assumes inv: "mi_inv I" and m: "never_fails m" and q: "query \<noteq> []" "length query < 256"
    and few: "\<forall>k. card {d. hits I k d \<noteq> None} < 2 ^ 31"
  shows "\<exists>r m'. MIProcessQuery m I query (of_nat (length query)) = Inr (r, m') \<and> never_fails m' \<and>
     (case r of None \<Rightarrow> \<forall>d. \<exists>w \<in> set query. hits I (str_key w) d = None
      | Some l \<Rightarrow> ll_inv l \<and> ll_list l \<noteq> [] \<and> results_for (hits I) (map str_key query) (ll_list l) \<and>
          sorted_wrt (\<lambda>x y. sr_rank y \<le> sr_rank x) (ll_list l))"
proof -
  let ?q = "of_nat (length query) :: 8 word"
  obtain w ws where query: "query = w # ws" using q(1) by (cases query) auto
  have u: "unat ?q = Suc (length ws)" using q(2) query by (simp add: unsigned_of_nat take_bit_nat_eq_self del: of_nat_Suc)
  have z: "?q \<noteq> 0" using u by (metis nat.distinct(1) unsigned_0)
  have one: "?q = 1 \<longleftrightarrow> ws = []" using u by (auto simp: word_unat_eq_iff)
  obtain m1 where m1: "malloc m = (True, m1)" "never_fails m1" using m by (rule never_fails_malloc)
  obtain r m2 where f: "first_query_word m1 I w empty_list = Inr (r, m2)" "never_fails m2"
    "case r of None \<Rightarrow> \<forall>d. hits I (str_key w) d = None
      | Some ret \<Rightarrow> ll_inv ret \<and> ll_list ret \<noteq> [] \<and> results_for (hits I) [str_key w] (ll_list ret)"
    using first_query_word_ok [OF inv m1(2), of w] by blast
  show ?thesis
  proof (cases r)
    case None
    then show ?thesis using f m1(1) z query by (simp add: MIProcessQuery_def AllocateLinkedList_def)
  next
    case (Some ret)
    then have ret: "ll_inv ret" "ll_list ret \<noteq> []" "results_for (hits I) [str_key w] (ll_list ret)" using f(3) by simp_all
    have short: "length (ll_list ret) < 2 ^ 31" using few results_for_length [OF ret(3)] by simp
    show ?thesis
    proof (cases "ws = []")
      case True
      obtain l where "SortLinkedList ret 0 MISearchListComparator = Inr l" "ll_inv l"
        "length (ll_list l) = length (ll_list ret)" "results_for (hits I) [str_key w] (ll_list l)"
        "sorted_wrt (\<lambda>x y. sr_rank y \<le> sr_rank x) (ll_list l)" using sort_results_ok [OF ret(1,3)] by blast
      then show ?thesis using f(1,2) m1(1) z one True query Some ret(2)
        by (auto simp: MIProcessQuery_def AllocateLinkedList_def)
    next
      case False
      obtain r2 m3 where 2: "query_loop (length ws) 1 m2 I query ret = Inr (r2, m3)" "never_fails m3"
        "case r2 of None \<Rightarrow> \<forall>d. \<exists>w \<in> set query. hits I (str_key w) d = None
          | Some ret' \<Rightarrow> ll_inv ret' \<and> ll_list ret' \<noteq> [] \<and> results_for (hits I) (map str_key query) (ll_list ret')"
        using query_loop_ok [OF inv _ f(2) ret(1,2), of 1 "length ws" query] ret(3) query short by auto
      have run: "MIProcessQuery m I query ?q = (case r2 of None \<Rightarrow> Inr (None, m3)
          | Some ret \<Rightarrow> bindE (SortLinkedList ret 0 MISearchListComparator) (\<lambda>ret. Inr (Some ret, m3)))"
        using f(1) m1(1) z one False query Some 2(1) u
        by (simp add: MIProcessQuery_def AllocateLinkedList_def)
      show ?thesis
      proof (cases r2)
        case None
        then show ?thesis using run 2 by simp
      next
        case (Some ret2)
        then have ret2: "ll_inv ret2" "ll_list ret2 \<noteq> []" "results_for (hits I) (map str_key query) (ll_list ret2)"
          using 2(3) by simp_all
        obtain l where "SortLinkedList ret2 0 MISearchListComparator = Inr l" "ll_inv l"
          "length (ll_list l) = length (ll_list ret2)" "results_for (hits I) (map str_key query) (ll_list l)"
          "sorted_wrt (\<lambda>x y. sr_rank y \<le> sr_rank x) (ll_list l)" using sort_results_ok [OF ret2(1,3)] by blast
        then show ?thesis using run Some 2(2) ret2(2) by auto
      qed
    qed
  qed
qed

section \<open>Creating and freeing\<close>

lemma AllocateMemIndex_ok:
  assumes "never_fails m"
  shows "\<exists>I m'. AllocateMemIndex m = Inr (I, m') \<and> never_fails m' \<and> mi_inv I \<and> mi_bound I 0 0 \<and> hits I = (\<lambda>k d. None)"
proof -
  obtain m1 and t :: "nat hash_table" where t: "AllocateHashTable m 128 = Inr (Some t, m1)" "never_fails m1"
    "ht_inv t" "ht_map t = Map.empty" "ht_num_elements t = 0" using Allocate_ok [OF assms, of 128] by auto
  let ?I = "\<lparr>mi_table = t, mi_store = empty_store\<rparr>"
  have none: "wds_of ?I k = None" for k using t(4) by (simp add: wds_of_def view_empty)
  then have "mi_inv ?I" "mi_bound ?I 0 0" "hits ?I = (\<lambda>k d. None)"
    using t by (simp_all add: mi_inv_def mi_bound_def hits_def fun_eq_iff owns_empty)
  then show ?thesis using t by (auto simp: AllocateMemIndex_def)
qed

lemma MIListFree_all_ok: "\<forall>l \<in> set ls. ll_inv l \<Longrightarrow> MIListFree_all ls = Inr ()"
  by (induction ls) (simp_all add: MIListFree_def Free_list)

lemma MIFree_ok:
  assumes "st_cells s a = Some wds" "wds_ok wds"
  shows "MIFree s a = Inr (s\<lparr>st_cells := (st_cells s)(a := None)\<rparr>)"
proof -
  let ?t = "wds_docIDs wds"
  have t: "ht_inv ?t" using assms(2) by (simp add: wds_ok_def)
  have "ll_inv l" if l: "l \<in> set (map kv_value (ht_entries ?t))" for l
  proof -
    obtain kv where "kv \<in> set (ht_entries ?t)" "l = kv_value kv" using l by auto
    then have "ht_map ?t (kv_key kv) = Some l"
      unfolding ht_map_def by (simp add: kv_in_entries [OF ht_entries_distinct [OF t]])
    then show ?thesis using assms(2) by (simp add: wds_ok_def)
  qed
  then show ?thesis using assms(1) Free_ok [OF t] MIListFree_all_ok [of "map kv_value (ht_entries ?t)"]
    by (simp add: MIFree_def)
qed

lemma FreeMemIndex_ok:
  assumes "mi_inv I"
  shows "\<exists>s. FreeMemIndex I = Inr s \<and> st_cells s = Map.empty"
proof -
  let ?t = "mi_table I" and ?s = "mi_store I"
  have o: "owns ?t ?s" using assms by (rule mi_inv_owns)
  have "\<exists>s'. MIFree_all (map kv_value (ht_entries ?t)) ?s = Inr s' \<and> st_cells s' = Map.empty"
  proof (rule free_table_ok [OF o, where P = wds_ok and f = MIFree])
    show "wds_ok x" if "view ?t ?s k = Some x" for k x
      using assms that unfolding mi_inv_def wds_of_def by blast
    show "MIFree_all (a # as) s = bindE (MIFree s a) (MIFree_all as)" for a "as" s
      by (simp add: bindE_def split: sum.splits)
  qed (simp_all add: MIFree_ok)
  with Free_ok [OF owns_inv [OF o]] show ?thesis by (simp add: FreeMemIndex_def)
qed

section \<open>Building an index from posting lists\<close>

type_synonym posting = "string \<times> DocID_t \<times> DocPositionOffset_t linked_list"

fun add_postings :: "allocator \<Rightarrow> mem_index \<Rightarrow> posting list \<Rightarrow> (allocator \<times> mem_index) res" where
  "add_postings m I [] = Inr (m, I)"
| "add_postings m I ((w, d, l) # ps) =
     bindE (MIAddPostingList m I w d l) (\<lambda>(r, m, I). bindE (Verify333 (r = 1)) (\<lambda>_. add_postings m I ps))"

fun posted :: "posting list \<Rightarrow> postings \<Rightarrow> postings" where
  "posted [] H = H"
| "posted ((w, d, l) # ps) H = posted ps (H(str_key w := (H (str_key w))(d \<mapsto> ll_list l)))"

definition posting_key :: "posting \<Rightarrow> HTKey_t \<times> DocID_t" where
  "posting_key = (\<lambda>(w, d, l). (str_key w, d))"

definition posting_list :: "posting \<Rightarrow> DocPositionOffset_t linked_list" where
  "posting_list = (\<lambda>(w, d, l). l)"

lemma posting_sel [simp]: "posting_key (w, d, l) = (str_key w, d)" "posting_list (w, d, l) = l"
  by (simp_all add: posting_key_def posting_list_def)

lemma posted_other: "(k, d) \<notin> set (map posting_key ps) \<Longrightarrow> posted ps H k d = H k d"
  by (induction ps H rule: posted.induct) auto

lemma posted_here:
  "distinct (map posting_key ps) \<Longrightarrow> (w, d, l) \<in> set ps \<Longrightarrow> posted ps H (str_key w) d = Some (ll_list l)"
  by (induction ps H rule: posted.induct) (auto simp: posted_other)

lemma add_postings_ok:
  "mi_inv I \<Longrightarrow> mi_bound I nw nd \<Longrightarrow> nw + length ps < 2 ^ 32 \<Longrightarrow> nd + length ps < 2 ^ 32 \<Longrightarrow> never_fails m \<Longrightarrow>
   distinct (map posting_key ps) \<Longrightarrow> \<forall>p \<in> set ps. ll_inv (posting_list p) \<and> (case posting_key p of (k, d) \<Rightarrow> hits I k d = None) \<Longrightarrow>
   \<exists>m' I'. add_postings m I ps = Inr (m', I') \<and> never_fails m' \<and> mi_inv I' \<and>
     mi_bound I' (nw + length ps) (nd + length ps) \<and> hits I' = posted ps (hits I)"
proof (induction ps arbitrary: I m nw nd)
  case (Cons p ps)
  obtain w d l where p: "p = (w, d, l)" by (cases p)
  have new: "ll_inv l" "hits I (str_key w) d = None" using Cons.prems(7) p by auto
  obtain m1 I1 where 1: "MIAddPostingList m I w d l = Inr (1, m1, I1)" "never_fails m1" "mi_inv I1"
    "mi_bound I1 (Suc nw) (Suc nd)" "hits I1 = (hits I)(str_key w := (hits I (str_key w))(d \<mapsto> ll_list l))"
    using MIAddPostingList_ok [OF Cons.prems(1,2) _ _ Cons.prems(5) new] Cons.prems(3,4) by auto
  have "\<forall>q \<in> set ps. ll_inv (posting_list q) \<and> (case posting_key q of (k, d) \<Rightarrow> hits I1 k d = None)"
    using Cons.prems(6,7) p 1(5) by force
  moreover have "distinct (map posting_key ps)" using Cons.prems(6) by simp
  ultimately obtain m2 I2 where "add_postings m1 I1 ps = Inr (m2, I2)" "never_fails m2" "mi_inv I2"
    "mi_bound I2 (Suc nw + length ps) (Suc nd + length ps)" "hits I2 = posted ps (hits I1)"
    using Cons.IH [OF 1(3,4) _ _ 1(2)] Cons.prems(3,4) by auto
  then show ?case using 1 p by simp
qed simp

text \<open>
  What posting lists say of words and documents: the documents that every word of a query occurs
  in, and how often the words occur in one of them.
\<close>

definition posting_word :: "posting \<Rightarrow> string" where
  "posting_word = (\<lambda>(w, d, l). w)"

definition posting_place :: "posting \<Rightarrow> string \<times> DocID_t" where
  "posting_place = (\<lambda>(w, d, l). (w, d))"

definition times_posted :: "posting list \<Rightarrow> string \<Rightarrow> DocID_t \<Rightarrow> nat" where
  "times_posted ps w d = sum_list (map (\<lambda>p. if posting_place p = (w, d) then length (ll_list (posting_list p)) else 0) ps)"

definition docs_with_all :: "posting list \<Rightarrow> string list \<Rightarrow> DocID_t set" where
  "docs_with_all ps query = {d. \<forall>w \<in> set query. (w, d) \<in> set (map posting_place ps)}"

lemma posting_word_sel [simp]: "posting_word (w, d, l) = w" "posting_place (w, d, l) = (w, d)"
  by (simp_all add: posting_word_def posting_place_def)

lemma posting_in:
  assumes "(w, d, l) \<in> set ps"
  shows "w \<in> posting_word ` set ps" "(w, d) \<in> set (map posting_place ps)"
  using imageI [OF assms, of posting_word] imageI [OF assms, of posting_place] by simp_all

lemma posting_placed: "(w, d) \<in> set (map posting_place ps) \<Longrightarrow> \<exists>l. (w, d, l) \<in> set ps"
  by auto

text \<open>As long as no two words have the same key, what is posted under a key is posted for the word.\<close>

lemma distinct_posting_keys:
  assumes "distinct (map posting_place ps)" "inj_on str_key (posting_word ` set ps)"
  shows "distinct (map posting_key ps)"
  using assms
proof (induction ps)
  case (Cons p ps)
  obtain w d l where p: "p = (w, d, l)" by (cases p)
  have "posting_key q \<noteq> (str_key w, d)" if q: "q \<in> set ps" for q
  proof
    assume k: "posting_key q = (str_key w, d)"
    obtain v e r where q': "q = (v, e, r)" by (cases q)
    have "v \<in> posting_word ` set (p # ps)" "w \<in> posting_word ` set (p # ps)"
      using posting_in(1) [of v e r ps] q q' p by auto
    moreover have "str_key v = str_key w" "e = d" using k q' by simp_all
    ultimately have "v = w" using inj_onD [OF Cons.prems(2)] by blast
    then show False using posting_in(2) [of v e r ps] q q' p \<open>e = d\<close> Cons.prems(1) by simp
  qed
  then have "posting_key p \<notin> posting_key ` set ps" using p by (metis (no_types, lifting) image_iff posting_sel(1))
  moreover have "inj_on str_key (posting_word ` set ps)" by (rule inj_on_subset [OF Cons.prems(2)]) auto
  ultimately show ?case using Cons by simp
qed simp

lemma posted_word:
  assumes ps: "distinct (map posting_place ps)" "inj_on str_key (posting_word ` set ps \<union> set query)" and w: "w \<in> set query"
  shows "posted ps (\<lambda>k d. None) (str_key w) d \<noteq> None \<longleftrightarrow> (w, d) \<in> set (map posting_place ps)"
    "score (posted ps (\<lambda>k d. None)) (str_key w) d = of_nat (times_posted ps w d)"
proof -
  let ?H = "posted ps (\<lambda>k d. None)"
  have inj: "inj_on str_key (posting_word ` set ps)" by (rule inj_on_subset [OF ps(2)]) auto
  have keys: "distinct (map posting_key ps)" by (rule distinct_posting_keys [OF ps(1) inj])
  have times0: "times_posted qs w d = 0" if "(w, d) \<notin> set (map posting_place qs)" for qs
    using that by (induction qs) (auto simp: times_posted_def)
  have times1: "times_posted qs w d = length (ll_list l)"
    if "(w, d, l) \<in> set qs" "distinct (map posting_place qs)" for l qs
    using that
  proof (induction qs)
    case (Cons q qs)
    have step: "times_posted (q # qs) w d =
        (if posting_place q = (w, d) then length (ll_list (posting_list q)) else 0) + times_posted qs w d"
      by (simp add: times_posted_def)
    show ?case
    proof (cases "q = (w, d, l)")
      case True
      then show ?thesis using Cons.prems(2) step times0 [of qs] by simp
    next
      case False
      then have l: "(w, d, l) \<in> set qs" using Cons.prems(1) by auto
      have "posting_place q \<notin> set (map posting_place qs)" using Cons.prems(2) by simp
      then have "posting_place q \<noteq> (w, d)" using posting_in(2) [OF l] by metis
      then show ?thesis using step Cons l by simp
    qed
  qed simp
  have none: "?H (str_key w) d = None" if "(w, d) \<notin> set (map posting_place ps)"
  proof -
    have "(str_key w, d) \<notin> set (map posting_key ps)"
    proof
      assume "(str_key w, d) \<in> set (map posting_key ps)"
      then obtain v l where v: "(v, d, l) \<in> set ps" "str_key v = str_key w" by auto
      then have "v \<in> posting_word ` set ps \<union> set query" using posting_in(1) by blast
      then have "v = w" using inj_onD [OF ps(2) v(2)] w by blast
      with posting_in(2) [OF v(1)] that show False by simp
    qed
    then show ?thesis by (simp add: posted_other)
  qed
  have some: "\<exists>l. ?H (str_key w) d = Some (ll_list l) \<and> times_posted ps w d = length (ll_list l)"
    if here: "(w, d) \<in> set (map posting_place ps)"
  proof -
    obtain l where l: "(w, d, l) \<in> set ps" using posting_placed [OF here] by blast
    then show ?thesis using posted_here [OF keys l] times1 [OF l ps(1)] by blast
  qed
  show "?H (str_key w) d \<noteq> None \<longleftrightarrow> (w, d) \<in> set (map posting_place ps)" using none some by (metis option.distinct(1))
  show "score ?H (str_key w) d = of_nat (times_posted ps w d)"
    using none some times0 [of ps] by (cases "(w, d) \<in> set (map posting_place ps)") (auto simp: score_def)
qed

lemma few_documents: "card {d. posted ps (\<lambda>k d. None) k d \<noteq> None} \<le> length ps"
proof -
  have "{d. posted ps (\<lambda>k d. None) k d \<noteq> None} \<subseteq> set (map (snd \<circ> posting_key) ps)"
  proof
    fix d assume "d \<in> {d. posted ps (\<lambda>k d. None) k d \<noteq> None}"
    then have "(k, d) \<in> set (map posting_key ps)" by (metis (mono_tags, lifting) mem_Collect_eq posted_other)
    then show "d \<in> set (map (snd \<circ> posting_key) ps)" by force
  qed
  then have "card {d. posted ps (\<lambda>k d. None) k d \<noteq> None} \<le> card (set (map (snd \<circ> posting_key) ps))"
    by (intro card_mono) simp_all
  also have "\<dots> \<le> length (map (snd \<circ> posting_key) ps)" by (rule card_length)
  finally show ?thesis by simp
qed

lemma results_for_words:
  assumes ps: "distinct (map posting_place ps)" "inj_on str_key (posting_word ` set ps \<union> set query)"
    and r: "results_for (posted ps (\<lambda>k d. None)) (map str_key query) xs"
  shows "distinct (map sr_docid xs)" "set (map sr_docid xs) = docs_with_all ps query"
    "sr \<in> set xs \<Longrightarrow> sr_rank sr = sum_list (map (\<lambda>w. of_nat (times_posted ps w (sr_docid sr))) query)"
proof -
  let ?H = "posted ps (\<lambda>k d. None)"
  have d: "{d. \<forall>k \<in> set (map str_key query). ?H k d \<noteq> None} = docs_with_all ps query"
    using posted_word(1) [OF ps] by (auto simp: docs_with_all_def simp del: not_None_eq)
  show "distinct (map sr_docid xs)" using r by (simp add: results_for_def)
  have xs: "set xs = result_of ?H (map str_key query) ` docs_with_all ps query"
    using r unfolding results_for_def d by blast
  then show "set (map sr_docid xs) = docs_with_all ps query" by (simp add: image_image)
  show "sr_rank sr = sum_list (map (\<lambda>w. of_nat (times_posted ps w (sr_docid sr))) query)" if "sr \<in> set xs"
    using that posted_word(2) [OF ps] unfolding xs by (auto simp: result_of_def comp_def intro!: arg_cong [of _ _ sum_list])
qed

section \<open>Properties\<close>

text \<open>
  Property C9: an index built from any posting lists, no two for the same word and document, answers
  a query of 1 to 255 words with exactly the documents that have a posting list for every word
  of it, each once, in descending order of rank, where the rank is the number of positions in
  these lists (a sum of 32 bits, a word that is typed twice counted twice); with \<open>NULL\<close> when
  there is no such document.  It terminates, fails no check and reads no structure that is
  not there.  The index only compares keys, so the words must have different ones; and with
  \<open>2 ^ 31\<close> results or more the \<open>int\<close> that counts the rounds for a further word is negative.
\<close>

theorem index_answers_queries:
  assumes "distinct (map posting_place ps)" "inj_on str_key (posting_word ` set ps \<union> set query)"
    and "\<forall>p \<in> set ps. ll_inv (posting_list p)" "length ps < 2 ^ 31"
    and "query \<noteq> []" "length query < 256" "never_fails m"
  shows "\<exists>I m1 I' m2 r m3. AllocateMemIndex m = Inr (I, m1) \<and> add_postings m1 I ps = Inr (m2, I') \<and>
     MIProcessQuery m2 I' query (of_nat (length query)) = Inr (r, m3) \<and>
     (case r of None \<Rightarrow> docs_with_all ps query = {}
      | Some l \<Rightarrow> ll_inv l \<and> docs_with_all ps query \<noteq> {} \<and>
          distinct (map sr_docid (ll_list l)) \<and> set (map sr_docid (ll_list l)) = docs_with_all ps query \<and>
          (\<forall>sr \<in> set (ll_list l). sr_rank sr = sum_list (map (\<lambda>w. of_nat (times_posted ps w (sr_docid sr))) query)) \<and>
          sorted_wrt (\<lambda>x y. sr_rank y \<le> sr_rank x) (ll_list l))"
proof -
  let ?H = "posted ps (\<lambda>k d. None)"
  obtain I m1 where 1: "AllocateMemIndex m = Inr (I, m1)" "never_fails m1" "mi_inv I" "mi_bound I 0 0"
    "hits I = (\<lambda>k d. None)" using AllocateMemIndex_ok [OF assms(7)] by blast
  have "inj_on str_key (posting_word ` set ps)" by (rule inj_on_subset [OF assms(2)]) auto
  note keys = distinct_posting_keys [OF assms(1) this]
  have "\<forall>p \<in> set ps. ll_inv (posting_list p) \<and> (case posting_key p of (k, d) \<Rightarrow> hits I k d = None)"
    using assms(3) 1(5) by auto
  then obtain m2 I' where 2: "add_postings m1 I ps = Inr (m2, I')" "never_fails m2" "mi_inv I'" "hits I' = ?H"
    using add_postings_ok [OF 1(3,4) _ _ 1(2) keys] assms(4) 1(5) by auto
  have few: "\<forall>k. card {d. hits I' k d \<noteq> None} < 2 ^ 31"
    unfolding 2(4) using few_documents assms(4) by (meson le_less_trans)
  obtain r m3 where r: "MIProcessQuery m2 I' query (of_nat (length query)) = Inr (r, m3)"
    "case r of None \<Rightarrow> \<forall>d. \<exists>w \<in> set query. ?H (str_key w) d = None
      | Some l \<Rightarrow> ll_inv l \<and> ll_list l \<noteq> [] \<and> results_for ?H (map str_key query) (ll_list l) \<and>
          sorted_wrt (\<lambda>x y. sr_rank y \<le> sr_rank x) (ll_list l)"
    using MIProcessQuery_ok [OF 2(3,2) assms(5,6) few] unfolding 2(4) by blast
  have "case r of None \<Rightarrow> docs_with_all ps query = {}
      | Some l \<Rightarrow> ll_inv l \<and> docs_with_all ps query \<noteq> {} \<and>
          distinct (map sr_docid (ll_list l)) \<and> set (map sr_docid (ll_list l)) = docs_with_all ps query \<and>
          (\<forall>sr \<in> set (ll_list l). sr_rank sr = sum_list (map (\<lambda>w. of_nat (times_posted ps w (sr_docid sr))) query)) \<and>
          sorted_wrt (\<lambda>x y. sr_rank y \<le> sr_rank x) (ll_list l)"
  proof (cases r)
    case None
    then have none: "\<forall>d. \<exists>w \<in> set query. ?H (str_key w) d = None" using r(2) by simp
    have "d \<notin> docs_with_all ps query" for d
    proof -
      obtain w where "w \<in> set query" "?H (str_key w) d = None" using none by blast
      then show ?thesis using posted_word(1) [OF assms(1,2)] unfolding docs_with_all_def by blast
    qed
    then show ?thesis using None by auto
  next
    case (Some l)
    then have l: "ll_inv l" "ll_list l \<noteq> []" "results_for ?H (map str_key query) (ll_list l)"
      "sorted_wrt (\<lambda>x y. sr_rank y \<le> sr_rank x) (ll_list l)" using r(2) by simp_all
    note w = results_for_words [OF assms(1,2) l(3)]
    have "docs_with_all ps query \<noteq> {}" using w(2) l(2) by (metis empty_set map_is_Nil_conv set_empty)
    then show ?thesis using Some l w by simp
  qed
  then show ?thesis using 1(1) 2(1) r(1) by blast
qed

definition position_list :: "DocPositionOffset_t list \<Rightarrow> DocPositionOffset_t linked_list" where
  "position_list xs = (case add_all AppendLinkedList [] empty_list xs of Inr (_, _, l) \<Rightarrow> l | Inl _ \<Rightarrow> empty_list)"

lemma position_list:
  assumes "length xs < 2 ^ 32"
  shows "ll_inv (position_list xs)" "ll_list (position_list xs) = xs"
  using ll.append_all [of "empty_list :: DocPositionOffset_t linked_list" xs "[]"] assms by (auto simp: position_list_def)

definition demo_postings :: "posting list" where
  "demo_postings = [(''cat'', 1, position_list [0, 5]), (''dog'', 1, position_list [9]), (''cat'', 2, position_list [3])]"

lemma cat_not_dog: "str_key ''cat'' \<noteq> str_key ''dog''"
proof -
  have "(str_key ''cat'' = str_key ''dog'') = False" by code_simp
  then show ?thesis by simp
qed

lemma demo_postings:
  "distinct (map posting_key demo_postings)" "\<forall>p \<in> set demo_postings. ll_inv (posting_list p)"
  using cat_not_dog by (simp_all add: demo_postings_def position_list)

lemma demo_places:
  "distinct (map posting_place demo_postings)" "inj_on str_key (posting_word ` set demo_postings \<union> set [''cat'', ''dog''])"
  using cat_not_dog by (auto simp: demo_postings_def inj_on_def)

lemma index_answers_queries_witness:
  "\<exists>I m1 I' m2 l m3. AllocateMemIndex [] = Inr (I, m1) \<and> add_postings m1 I demo_postings = Inr (m2, I') \<and>
     MIProcessQuery m2 I' [''cat'', ''dog''] 2 = Inr (Some l, m3) \<and> ll_list l = [\<lparr>sr_docid = 1, sr_rank = 3\<rparr>]"
proof -
  let ?ps = demo_postings and ?q = "[''cat'', ''dog'']"
  have few: "length ?ps < 2 ^ 31" by (simp add: demo_postings_def)
  have docs: "docs_with_all ?ps ?q = {1}" by (auto simp: docs_with_all_def demo_postings_def)
  have times: "times_posted ?ps ''cat'' 1 = 2" "times_posted ?ps ''dog'' 1 = 1"
    by (simp_all add: times_posted_def demo_postings_def position_list)
  obtain I m1 I' m2 r m3 where r: "AllocateMemIndex [] = Inr (I, m1)" "add_postings m1 I ?ps = Inr (m2, I')"
    "MIProcessQuery m2 I' ?q 2 = Inr (r, m3)"
    "case r of None \<Rightarrow> docs_with_all ?ps ?q = {}
      | Some l \<Rightarrow> ll_inv l \<and> docs_with_all ?ps ?q \<noteq> {} \<and>
          distinct (map sr_docid (ll_list l)) \<and> set (map sr_docid (ll_list l)) = docs_with_all ?ps ?q \<and>
          (\<forall>sr \<in> set (ll_list l). sr_rank sr = sum_list (map (\<lambda>w. of_nat (times_posted ?ps w (sr_docid sr))) ?q)) \<and>
          sorted_wrt (\<lambda>x y. sr_rank y \<le> sr_rank x) (ll_list l)"
    using index_answers_queries [OF demo_places demo_postings(2) few, of "[]"] by auto
  obtain l where l: "r = Some l" using r(4) docs by (cases r) simp_all
  then have "distinct (map sr_docid (ll_list l))" "set (map sr_docid (ll_list l)) = {1}"
    and rank: "\<forall>sr \<in> set (ll_list l). sr_rank sr = sum_list (map (\<lambda>w. of_nat (times_posted ?ps w (sr_docid sr))) ?q)"
    using r(4) docs by simp_all
  then have "map sr_docid (ll_list l) = [1]"
    by (metis distinct_card length_0_conv length_Suc_conv One_nat_def card.empty card_insert_disjoint empty_iff finite.emptyI
        list.set_intros(1) singletonD)
  then obtain sr where sr: "ll_list l = [sr]" "sr_docid sr = 1" by auto
  then have "sr = \<lparr>sr_docid = 1, sr_rank = 3\<rparr>" using rank times by simp
  then show ?thesis using r l sr(1) by blast
qed

text \<open>
  Property C32: adding a posting list to a well-formed index returns 1, keeps the invariant and
  changes what the index holds at this word and document only; adding one where the word
  already has the document fails the check of the code.
\<close>

theorem MIAddPostingList_updates:
  assumes "mi_inv I" "mi_bound I nw nd" "Suc nw < 2 ^ 32" "Suc nd < 2 ^ 32" "never_fails m" "ll_inv l"
  shows "if hits I (str_key w) d = None
     then \<exists>m' I'. MIAddPostingList m I w d l = Inr (1, m', I') \<and> mi_inv I' \<and> mi_bound I' (Suc nw) (Suc nd) \<and>
       hits I' = (hits I)(str_key w := (hits I (str_key w))(d \<mapsto> ll_list l))
     else MIAddPostingList m I w d l = Inl Verify333_Failed"
proof (cases "hits I (str_key w) d = None")
  case True
  then show ?thesis using MIAddPostingList_ok [OF assms True] by auto
next
  case False
  have "Suc (unat (ht_num_elements (mi_table I))) < 2 ^ 32" using assms(2,3) by (simp add: mi_bound_def)
  with False MIAddPostingList_twice [OF assms(1) _ assms(5) False] show ?thesis by simp
qed

lemma MIAddPostingList_updates_witness:
  "\<exists>I m' m2 I'. AllocateMemIndex [] = Inr (I, m') \<and>
     MIAddPostingList m' I ''cat'' 7 (position_list [1, 2]) = Inr (1, m2, I') \<and> hits I' (str_key ''cat'') 7 = Some [1, 2]"
proof -
  obtain I m' where 1: "AllocateMemIndex [] = Inr (I, m')" "never_fails m'" "mi_inv I" "mi_bound I 0 0"
    "hits I = (\<lambda>k d. None)" using AllocateMemIndex_ok [of "[]"] by auto
  from MIAddPostingList_updates [OF 1(3,4) _ _ 1(2) position_list(1), of "[1, 2]" "''cat''" 7] 1(1,5) show ?thesis
    by (auto simp: position_list)
qed



end
