(* ===== verification/FileCrawler.thy ===== *)
theory FileCrawler
  imports MemIndex
begin

text \<open>
  The crawler of src/hw2/filecrawler.c: it walks a directory tree, and indexes the words of the
  regular files in it under the id the document table gives to their path.
\<close>

record crawl =
  cr_doctable :: doc_table
  cr_index :: mem_index

section \<open>One file\<close>

text \<open>
  The loop that moves the structures of the word table into the index.  It ignores the result of
  \<open>HTIteratorDelete\<close>; when that call stores no pair, the code goes on with whatever \<open>kv\<close> held
  before: nothing in the first round, a pointer to a freed structure later.
\<close>

fun drain_words ::
  "nat \<Rightarrow> allocator \<Rightarrow> word_ht \<Rightarrow> ht_iter \<Rightarrow> DocID_t \<Rightarrow> mem_index \<Rightarrow>
   (allocator \<times> word_ht \<times> ht_iter \<times> mem_index) res" where
  "drain_words fuel m tab it docID index =
     (if NumElementsInHashTable (wh_table tab) = 0 then Inr (m, tab, it, index)
      else case fuel of
        0 \<Rightarrow> Inl Out_Of_Fuel
      | Suc fuel \<Rightarrow>
          bindE (HTIteratorDelete m (wh_table tab) it) (\<lambda>(_, kv, m, table, it).
          case kv of
            None \<Rightarrow> Inl Undefined_Behaviour
          | Some kv \<Rightarrow>
              bindE (st_read (wh_store tab) (kv_value kv)) (\<lambda>wp.
              bindE (MIAddPostingList m index (wp_word wp) docID (wp_positions wp)) (\<lambda>(res, m, index).
              bindE (Verify333 (res = 1)) (\<lambda>_.
              bindE (st_free (wh_store tab) (kv_value kv)) (\<lambda>store.
              drain_words fuel m \<lparr>wh_table = table, wh_store = store\<rparr> it docID index))))))"

declare drain_words.simps [simp del]

definition HandleFile :: "allocator \<Rightarrow> os \<Rightarrow> string \<Rightarrow> crawl \<Rightarrow> (allocator \<times> crawl) res" where
  "HandleFile m sys fpath c =
     bindE (BuildWordHT m sys fpath) (\<lambda>(tab, m).
     case tab of
       None \<Rightarrow> Inr (m, c)
     | Some tab \<Rightarrow>
         bindE (DTRegisterDocumentName m (cr_doctable c) fpath) (\<lambda>(docID, m, doctable).
         bindE (HashTableMakeIterator m (wh_table tab)) (\<lambda>(it, m).
         case it of
           None \<Rightarrow> Inl Verify333_Failed
         | Some it \<Rightarrow>
             bindE (drain_words (unat (ht_num_elements (wh_table tab))) m tab it docID (cr_index c))
               (\<lambda>(m, tab, it, index).
             bindE (FreeWordHT tab) (\<lambda>_.
             Inr (m, \<lparr>cr_doctable = doctable, cr_index = index\<rparr>))))))"

section \<open>Directories\<close>

text \<open>
  The path of an entry.  The code looks at the last character of the directory's path, which an
  empty path does not have.
\<close>

definition entry_path :: "string \<Rightarrow> string \<Rightarrow> string res" where
  "entry_path dirpath d_name =
     bindE (if dirpath = [] then Inl Undefined_Behaviour else Inr (last dirpath)) (\<lambda>c.
     if c = CHR ''/'' then Inr (dirpath @ d_name) else Inr (dirpath @ ''/'' @ d_name))"

text \<open>
  The path of an entry is a string on the heap, which \<open>HandleDir\<close> frees.  Freeing it again, or
  reading it after it has been freed, is undefined.
\<close>

datatype heap_string = Allocated string | Freed

fun free_string :: "heap_string \<Rightarrow> heap_string res" where
  "free_string (Allocated s) = Inr Freed"
| "free_string Freed = Inl Undefined_Behaviour"

fun read_string :: "heap_string \<Rightarrow> string res" where
  "read_string (Allocated s) = Inr s"
| "read_string Freed = Inl Undefined_Behaviour"

text \<open>
  \<open>HandleDir\<close> gets the entries that \<open>readdir\<close> has still to deliver.  The fuel bounds the depth of
  the recursion; the loop over the entries needs none.  What an entry leaves is the path that is
  to be freed at the end of the round, or \<open>None\<close> for the \<open>return\<close> after a subdirectory that cannot be
  opened, which leaves this directory only: the path is freed first and then read for the
  message.  Closing an open directory succeeds.
\<close>

fun HandleDir :: "nat \<Rightarrow> allocator \<Rightarrow> os \<Rightarrow> string \<Rightarrow> string list \<Rightarrow> crawl \<Rightarrow> (allocator \<times> crawl) res" where
  "HandleDir fuel m sys dirpath [] c = Inr (m, c)"
| "HandleDir fuel m sys dirpath (d_name # ds) c =
     (if d_name = ''.'' \<or> d_name = ''..'' then HandleDir fuel m sys dirpath ds c
      else case malloc m of (ok, m) \<Rightarrow>
      bindE (Verify333 ok) (\<lambda>_.
      bindE (entry_path dirpath d_name) (\<lambda>path.
      let newfile = Allocated path in
      bindE
        (case os_stat sys path of
           None \<Rightarrow> Inr (Some newfile, m, c)
         | Some nextstat \<Rightarrow>
             if si_isreg nextstat then
               bindE (HandleFile m sys path c) (\<lambda>(m, c). Inr (Some newfile, m, c))
             else if si_isdir nextstat then
               (case os_opendir sys path of
                  None \<Rightarrow>
                    bindE (free_string newfile) (\<lambda>newfile.
                    bindE (read_string newfile) (\<lambda>_. Inr (None, m, c)))
                | Some new_dir \<Rightarrow>
                    (case fuel of
                       0 \<Rightarrow> Inl Out_Of_Fuel
                     | Suc fuel \<Rightarrow>
                         bindE (HandleDir fuel m sys path new_dir c) (\<lambda>(m, c). Inr (Some newfile, m, c))))
             else Inr (Some newfile, m, c))
        (\<lambda>(newfile, m, c).
         case newfile of
           None \<Rightarrow> Inr (m, c)
         | Some newfile \<Rightarrow> bindE (free_string newfile) (\<lambda>_. HandleDir fuel m sys dirpath ds c)))))"

text \<open>\<open>None\<close> is the return value 0, when nothing has been allocated.\<close>

definition CrawlFileTree :: "nat \<Rightarrow> allocator \<Rightarrow> os \<Rightarrow> string \<Rightarrow> (allocator \<times> crawl option) res" where
  "CrawlFileTree fuel m sys rootdir =
     (case os_stat sys rootdir of
        None \<Rightarrow> Inr (m, None)
      | Some rootstat \<Rightarrow>
          if \<not> si_isdir rootstat then Inr (m, None)
          else case os_opendir sys rootdir of
            None \<Rightarrow> Inr (m, None)
          | Some rd \<Rightarrow>
              bindE (AllocateDocTable m) (\<lambda>(doctable, m).
              bindE (AllocateMemIndex m) (\<lambda>(index, m).
              bindE (HandleDir fuel m sys rootdir rd \<lparr>cr_doctable = doctable, cr_index = index\<rparr>)
                (\<lambda>(m, c). Inr (m, Some c)))))"

end
