(* ===== verification/FileCrawlerSpec.thy ===== *)
theory FileCrawlerSpec
  imports FileCrawler MemIndexSpec
begin

text \<open>
  What the crawler leaves behind: \<open>crawl_rep\<close> ties the document table and the index to the list
  of documents with their words.  \<open>crawls\<close> is the walk over a directory tree, \<open>stops\<close> one that meets a
  subdirectory that cannot be opened, and the properties relate the crawl of the code to them.
\<close>

section \<open>What a crawl stands for\<close>

type_synonym document = "string \<times> (string \<times> nat) list"

definition doc_hits :: "document list \<Rightarrow> postings" where
  "doc_hits docs k d =
     (if 0 < unat d \<and> unat d \<le> length docs
      then (case with_key k (occurrences (snd (docs ! (unat d - 1)))) of [] \<Rightarrow> None | ps \<Rightarrow> Some (map snd ps))
      else None)"

definition num_words :: "document list \<Rightarrow> nat" where
  "num_words docs = sum_list (map (length \<circ> snd) docs)"

definition doc_words :: "document list \<Rightarrow> string set" where
  "doc_words docs = (\<Union>d \<in> set docs. fst ` set (snd d))"

definition crawl_rep :: "crawl \<Rightarrow> document list \<Rightarrow> bool" where
  "crawl_rep c docs \<longleftrightarrow>
     dt_rep (cr_doctable c) (map fst docs) \<and> mi_inv (cr_index c) \<and>
     mi_bound (cr_index c) (num_words docs) (num_words docs) \<and>
     hits (cr_index c) = doc_hits docs \<and> index_words (cr_index c) \<subseteq> doc_words docs \<and>
     (\<forall>d \<in> set docs. snd d \<noteq> [])"

lemma doc_hits_Nil: "doc_hits [] = (\<lambda>k d. None)"
  by (auto simp: doc_hits_def fun_eq_iff)

lemma num_words_simps [simp]:
  "num_words [] = 0" "num_words (docs @ docs') = num_words docs + num_words docs'"
  "num_words [(f, ws)] = length ws"
  by (simp_all add: num_words_def)

lemma no_hits_no_words:
  assumes "mi_inv I" "hits I = (\<lambda>k d. None)"
  shows "index_words I = {}"
proof -
  have "wds_of I k \<noteq> Some wds" for k wds
  proof
    assume w: "wds_of I k = Some wds"
    then have "ht_map (wds_docIDs wds) \<noteq> Map.empty" using assms(1) by (simp add: mi_inv_def)
    then obtain d l where "ht_map (wds_docIDs wds) d = Some l" by (auto simp: fun_eq_iff)
    then have "hits I k d \<noteq> None" using w by (simp add: hits_def)
    then show False by (simp add: assms(2))
  qed
  then show ?thesis by (simp add: index_words_def)
qed

lemma length_docs_le: "\<forall>d \<in> set docs. snd d \<noteq> [] \<Longrightarrow> length docs \<le> num_words docs"
  by (induction docs) (auto simp: num_words_def Suc_le_eq add_strict_increasing)

lemma mi_bound_mono: "mi_bound I nw nd \<Longrightarrow> nw \<le> nw' \<Longrightarrow> nd \<le> nd' \<Longrightarrow> mi_bound I nw' nd'"
  unfolding mi_bound_def by (meson order_trans)

section \<open>One file\<close>

lemma drain_words_ok:
  "owns t s \<Longrightarrow> hti_at t it kvs \<Longrightarrow> distinct (keys kvs) \<Longrightarrow> dom (ht_map t) = set (keys kvs) \<Longrightarrow>
   unat (ht_num_elements t) = length kvs \<Longrightarrow> length kvs \<le> fuel \<Longrightarrow>
   (\<And>k wp. view t s k = Some wp \<Longrightarrow> str_key (wp_word wp) = k \<and> ll_inv (wp_positions wp)) \<Longrightarrow>
   mi_inv I \<Longrightarrow> mi_bound I N N \<Longrightarrow> N + length kvs < 2 ^ 32 \<Longrightarrow> (\<forall>k \<in> set (keys kvs). hits I k d = None) \<Longrightarrow>
   never_fails m \<Longrightarrow>
   \<exists>m' t' s' it' I'. drain_words fuel m \<lparr>wh_table = t, wh_store = s\<rparr> it d I =
        Inr (m', \<lparr>wh_table = t', wh_store = s'\<rparr>, it', I') \<and> never_fails m' \<and>
      owns t' s' \<and> ht_map t' = Map.empty \<and> ht_num_elements t' = 0 \<and>
      mi_inv I' \<and> mi_bound I' (N + length kvs) (N + length kvs) \<and>
      hits I' = (\<lambda>k. case view t s k of None \<Rightarrow> hits I k | Some wp \<Rightarrow> (hits I k)(d \<mapsto> ll_list (wp_positions wp))) \<and>
      index_words I' \<subseteq> index_words I \<union> {wp_word wp | k wp. view t s k = Some wp}"
proof (induction kvs arbitrary: fuel m t s it I N)
  case Nil
  have num: "ht_num_elements t = 0" using Nil.prems(5) by (simp add: word32_eq_0_iff)
  have e: "ht_map t = Map.empty" using Nil.prems(4) by simp
  have "drain_words fuel m \<lparr>wh_table = t, wh_store = s\<rparr> it d I = Inr (m, \<lparr>wh_table = t, wh_store = s\<rparr>, it, I)"
    using num by (subst drain_words.simps) (simp add: NumElementsInHashTable_def)
  moreover have "hits I = (\<lambda>k. case view t s k of None \<Rightarrow> hits I k | Some wp \<Rightarrow> (hits I k)(d \<mapsto> ll_list (wp_positions wp)))"
    by (simp add: view_empty [OF e])
  ultimately show ?case using Nil.prems num e by auto
next
  case (Cons kv kvs)
  let ?k = "kv_key kv"
  obtain n where fuel: "fuel = Suc n" "length kvs \<le> n" using Cons.prems(6) by (cases fuel) auto
  have inv: "ht_inv t" using Cons.prems(1) by (rule owns_inv)
  have num: "ht_num_elements t \<noteq> 0" using Cons.prems(5) by (simp add: word32_eq_0_iff)
  have "kv \<in> set (ht_entries t)" using hti_at_subset [OF Cons.prems(2)] by simp
  then have a: "ht_map t ?k = Some (kv_value kv)"
    unfolding ht_map_def by (simp add: kv_in_entries [OF ht_entries_distinct [OF inv]])
  obtain wp where wp: "st_cells s (kv_value kv) = Some wp" "view t s ?k = Some wp"
    using owns_cell [OF Cons.prems(1) a] by blast
  have w: "str_key (wp_word wp) = ?k" "ll_inv (wp_positions wp)" using Cons.prems(7) [OF wp(2)] by simp_all
  obtain r m1 t1 it1 where del: "HTIteratorDelete m t it = Inr (r, Some kv, m1, t1, it1)" "never_fails m1" "ht_inv t1"
    "ht_map t1 = (ht_map t)(?k := None)" "ht_num_elements t1 = ht_num_elements t - 1" "hti_at t1 it1 kvs"
    using HTIteratorDelete_ok [OF inv Cons.prems(2,3,12)] by auto
  have room: "Suc N < 2 ^ 32" using Cons.prems(10) by simp
  have fresh: "hits I (str_key (wp_word wp)) d = None" using Cons.prems(11) w(1) by simp
  obtain m2 I1 where add: "MIAddPostingList m1 I (wp_word wp) d (wp_positions wp) = Inr (1, m2, I1)" "never_fails m2"
    "mi_inv I1" "mi_bound I1 (Suc N) (Suc N)" "hits I1 = (hits I)(?k := (hits I ?k)(d \<mapsto> ll_list (wp_positions wp)))"
    "index_words I1 \<subseteq> insert (wp_word wp) (index_words I)"
    using MIAddPostingList_ok [OF Cons.prems(8,9) room room del(2) w(2) fresh] unfolding w(1) by blast
  let ?s1 = "s\<lparr>st_cells := (st_cells s)(kv_value kv := None)\<rparr>"
  note o1 = owns_remove [OF Cons.prems(1) a del(3,4)]
  have step: "drain_words fuel m \<lparr>wh_table = t, wh_store = s\<rparr> it d I =
      drain_words n m2 \<lparr>wh_table = t1, wh_store = ?s1\<rparr> it1 d I1"
    using num fuel(1) del(1) wp(1) add(1) by (subst drain_words.simps) (simp add: NumElementsInHashTable_def)
  have d1: "distinct (keys kvs)" "?k \<notin> set (keys kvs)" using Cons.prems(3) by simp_all
  have dom1: "dom (ht_map t1) = set (keys kvs)" using Cons.prems(4) d1(2) del(4) by auto
  have num1: "unat (ht_num_elements t1) = length kvs"
    using Cons.prems(5) del(5) unat32_pred [of "ht_num_elements t"] by simp
  have v1: "str_key (wp_word x) = k \<and> ll_inv (wp_positions x)" if "view t1 ?s1 k = Some x" for k x
    using that Cons.prems(7) [of k x] unfolding o1(2) by (auto split: if_splits)
  have fresh1: "\<forall>k \<in> set (keys kvs). hits I1 k d = None"
  proof
    fix k assume k: "k \<in> set (keys kvs)"
    then have "k \<noteq> ?k" using d1(2) by blast
    moreover have "hits I k d = None" using k Cons.prems(11) by auto
    ultimately show "hits I1 k d = None" using add(5) by simp
  qed
  have room1: "Suc N + length kvs < 2 ^ 32" using Cons.prems(10) by simp
  obtain m' t' s' it' I' where rest: "drain_words n m2 \<lparr>wh_table = t1, wh_store = ?s1\<rparr> it1 d I1 =
        Inr (m', \<lparr>wh_table = t', wh_store = s'\<rparr>, it', I')" "never_fails m'"
      "owns t' s'" "ht_map t' = Map.empty" "ht_num_elements t' = 0"
      "mi_inv I'" "mi_bound I' (Suc N + length kvs) (Suc N + length kvs)"
      "hits I' = (\<lambda>k. case view t1 ?s1 k of None \<Rightarrow> hits I1 k | Some wp \<Rightarrow> (hits I1 k)(d \<mapsto> ll_list (wp_positions wp)))"
      "index_words I' \<subseteq> index_words I1 \<union> {wp_word wp | k wp. view t1 ?s1 k = Some wp}"
    using Cons.IH [OF o1(1) del(6) d1(1) dom1 num1 fuel(2) v1 add(3,4) room1 fresh1 add(2)] by blast
  have "hits I' = (\<lambda>k. case view t s k of None \<Rightarrow> hits I k | Some wp \<Rightarrow> (hits I k)(d \<mapsto> ll_list (wp_positions wp)))"
    unfolding rest(8) o1(2) add(5) using wp(2) by (auto simp: fun_eq_iff split: option.splits)
  moreover have "index_words I' \<subseteq> index_words I \<union> {wp_word wp | k wp. view t s k = Some wp}"
  proof -
    define V where "V = {wp_word wp | k wp. view t s k = Some wp}"
    define V1 where "V1 = {wp_word wp | k wp. view t1 ?s1 k = Some wp}"
    have "wp_word wp \<in> V" unfolding V_def using wp(2) by blast
    moreover have "V1 \<subseteq> V" unfolding V_def V1_def o1(2) by (auto split: if_splits)
    moreover have "index_words I' \<subseteq> index_words I1 \<union> V1" unfolding V1_def by (rule rest(9))
    ultimately have "index_words I' \<subseteq> index_words I \<union> V" using add(6) by auto
    then show ?thesis by (simp only: V_def)
  qed
  moreover have "mi_bound I' (N + length (kv # kvs)) (N + length (kv # kvs))" using rest(7) by simp
  moreover have "drain_words fuel m \<lparr>wh_table = t, wh_store = s\<rparr> it d I =
      Inr (m', \<lparr>wh_table = t', wh_store = s'\<rparr>, it', I')" using step rest(1) by (simp only:)
  ultimately show ?case
    by (intro exI [of _ m'] exI [of _ t'] exI [of _ s'] exI [of _ it'] exI [of _ I'] conjI) (assumption | rule rest)+
qed

definition index_file :: "string \<Rightarrow> string \<Rightarrow> document list" where
  "index_file f s = (if plain_text s \<and> words_of s \<noteq> [] then [(f, words_of s)] else [])"

lemma unat_docid: "n < 2 ^ 32 \<Longrightarrow> unat (of_nat n :: DocID_t) = n"
  by (simp add: unsigned_of_nat take_bit_nat_eq_self)

lemma doc_hits_new:
  assumes "length docs < 2 ^ 32" "unat (d :: DocID_t) = Suc (length docs)"
  shows "doc_hits docs k d = None"
    "doc_hits (docs @ [(f, ws)]) k = (case with_key k (occurrences ws) of [] \<Rightarrow> doc_hits docs k
       | ps \<Rightarrow> (doc_hits docs k)(d \<mapsto> map snd ps))"
proof -
  show "doc_hits docs k d = None" using assms by (simp add: doc_hits_def)
  have new: "doc_hits (docs @ [(f, ws)]) k d = (case with_key k (occurrences ws) of [] \<Rightarrow> None | ps \<Rightarrow> Some (map snd ps))"
    using assms by (simp add: doc_hits_def nth_append)
  have old: "doc_hits (docs @ [(f, ws)]) k d' = doc_hits docs k d'" if "d' \<noteq> d" for d'
  proof -
    have "unat d' \<noteq> Suc (length docs)" using that assms(2) by (metis word_unat_eq_iff)
    then show ?thesis by (auto simp: doc_hits_def nth_append)
  qed
  have "doc_hits docs k d = None" using assms by (simp add: doc_hits_def)
  with new old show "doc_hits (docs @ [(f, ws)]) k = (case with_key k (occurrences ws) of [] \<Rightarrow> doc_hits docs k
       | ps \<Rightarrow> (doc_hits docs k)(d \<mapsto> map snd ps))"
    by (intro ext, case_tac "x = d") (auto split: list.splits)
qed

lemma HandleFile_ok:
  assumes rep: "crawl_rep c docs" and f: "file_is sys f s" "length s < 2 ^ 32"
    and new: "str_key f \<notin> str_key ` fst ` set docs" and room: "num_words docs + length (words_of s) < 2 ^ 32"
    and m: "never_fails m"
  shows "\<exists>m' c'. HandleFile m sys f c = Inr (m', c') \<and> never_fails m' \<and> crawl_rep c' (docs @ index_file f s)"
proof -
  obtain r m1 where b: "BuildWordHT m sys f = Inr (r, m1)" "never_fails m1"
    "if plain_text s \<and> words_of s \<noteq> [] then \<exists>W. r = Some W \<and> wht_rep W (occurrences (words_of s)) else r = None"
    using BuildWordHT_ok [OF f m] by blast
  show ?thesis
  proof (cases "plain_text s \<and> words_of s \<noteq> []")
    case False
    then have "r = None" "index_file f s = []" using b(3) by (simp_all only: index_file_def if_False)
    then show ?thesis using b(1,2) rep by (simp add: HandleFile_def)
  next
    case True
    let ?ws = "words_of s"
    obtain W where W: "r = Some W" "wht_rep W (occurrences ?ws)" using b(3) True by auto
    let ?t = "wh_table W" and ?s = "wh_store W" and ?d = "of_nat (Suc (length docs)) :: DocID_t"
    have o: "owns ?t ?s" using W(2) by (simp add: wht_rep_def)
    have t: "ht_inv ?t" using o by (rule owns_inv)
    have "length docs \<le> num_words docs" using rep by (intro length_docs_le) (simp add: crawl_rep_def)
    moreover have "0 < length ?ws" using True by simp
    ultimately have ld: "Suc (length docs) < 2 ^ 32" using room by linarith
    have rep': "dt_rep (cr_doctable c) (map fst docs)" "mi_inv (cr_index c)"
      "mi_bound (cr_index c) (num_words docs) (num_words docs)" "hits (cr_index c) = doc_hits docs"
      "\<forall>d \<in> set docs. snd d \<noteq> []" "index_words (cr_index c) \<subseteq> doc_words docs" using rep by (simp_all add: crawl_rep_def)
    have "spec_register (map fst docs) f = (?d, map fst docs @ [f])" using new by (simp add: spec_register_def)
    then obtain m2 dt where reg: "DTRegisterDocumentName m1 (cr_doctable c) f = Inr (?d, m2, dt)" "never_fails m2"
      "dt_rep dt (map fst docs @ [f])"
      using DTRegister_ok [OF rep'(1) _ b(2), of f] ld by auto
    obtain m3 it where it: "HashTableMakeIterator m2 ?t = Inr (Some it, m3)" "never_fails m3" "hti_at ?t it (ht_entries ?t)"
      using HTMakeIterator_ok [OF t reg(2)] by blast
    have num: "unat (ht_num_elements ?t) = length (ht_entries ?t)" using t by (simp add: ht_inv_def)
    have few: "length (ht_entries ?t) \<le> length ?ws" using W(2) num by (simp add: wht_rep_def)
    have u: "unat ?d = Suc (length docs)" using ld by (rule unat_docid)
    have ld': "length docs < 2 ^ 32" using ld by simp
    note dh = doc_hits_new [OF ld' u]
    have dom: "dom (ht_map ?t) = set (keys (ht_entries ?t))" unfolding ht_map_def by (rule dom_kv_map)
    have room': "num_words docs + length (ht_entries ?t) < 2 ^ 32" using room few by simp
    have fuel: "length (ht_entries ?t) \<le> unat (ht_num_elements ?t)" using num by simp
    have words: "str_key (wp_word wp) = k \<and> ll_inv (wp_positions wp)" if "view ?t ?s k = Some wp" for k wp
      using word_table_words(1,2) [OF W(2) that] by simp
    have fresh: "\<forall>k \<in> set (keys (ht_entries ?t)). hits (cr_index c) k ?d = None" using rep'(4) dh(1) by simp
    obtain m4 t' s' it' I' where drain: "drain_words (unat (ht_num_elements ?t)) m3 \<lparr>wh_table = ?t, wh_store = ?s\<rparr> it ?d (cr_index c) =
        Inr (m4, \<lparr>wh_table = t', wh_store = s'\<rparr>, it', I')" "never_fails m4" "owns t' s'" "ht_map t' = Map.empty"
      "ht_num_elements t' = 0" "mi_inv I'"
      "mi_bound I' (num_words docs + length (ht_entries ?t)) (num_words docs + length (ht_entries ?t))"
      "hits I' = (\<lambda>k. case view ?t ?s k of None \<Rightarrow> hits (cr_index c) k
         | Some wp \<Rightarrow> (hits (cr_index c) k)(?d \<mapsto> ll_list (wp_positions wp)))"
      "index_words I' \<subseteq> index_words (cr_index c) \<union> {wp_word wp | k wp. view ?t ?s k = Some wp}"
      using drain_words_ok [OF o it(3) ht_entries_distinct [OF t] dom num fuel words rep'(2,3) room' fresh it(2)]
      by blast
    have "wht_rep \<lparr>wh_table = t', wh_store = s'\<rparr> []"
      using drain(3,4,5) by (simp add: wht_rep_def view_empty entry_ok_def with_key_def)
    from FreeWordHT_ok [OF this] obtain sf where free: "FreeWordHT \<lparr>wh_table = t', wh_store = s'\<rparr> = Inr sf" by blast
    let ?c = "\<lparr>cr_doctable = dt, cr_index = I'\<rparr>"
    have eta: "\<lparr>wh_table = ?t, wh_store = ?s\<rparr> = W" by simp
    have "HandleFile m sys f c = Inr (m4, ?c)"
      using b(1) W(1) reg(1) it(1) drain(1) [unfolded eta] free by (simp add: HandleFile_def)
    moreover have "hits I' = doc_hits (docs @ [(f, ?ws)])"
    proof (rule ext)
      fix k
      show "hits I' k = doc_hits (docs @ [(f, ?ws)]) k"
        unfolding drain(8) dh(2) rep'(4)
        using word_table_words(3,4) [OF W(2), of k] word_table_none [OF W(2), of k]
        by (cases "view ?t ?s k") (auto split: list.splits)
    qed
    moreover have "mi_bound I' (num_words (docs @ [(f, ?ws)])) (num_words (docs @ [(f, ?ws)]))"
      using drain(7) few by (intro mi_bound_mono [OF drain(7)]) simp_all
    moreover have "index_words I' \<subseteq> doc_words (docs @ [(f, ?ws)])"
    proof -
      have "{wp_word wp | k wp. view ?t ?s k = Some wp} \<subseteq> fst ` set (occurrences ?ws)"
        using word_table_words(5) [OF W(2)] by blast
      also have "fst ` set (occurrences ?ws) = fst ` set ?ws" by (force simp: occurrences_def)
      finally have "index_words I' \<subseteq> doc_words docs \<union> fst ` set ?ws" using drain(9) rep'(6) by blast
      moreover have "doc_words (docs @ [(f, ?ws)]) = doc_words docs \<union> fst ` set ?ws" by (simp add: doc_words_def Un_commute)
      ultimately show ?thesis by (simp only:)
    qed
    ultimately show ?thesis using True drain(2,6) reg(3) rep'(5)
      by (simp add: crawl_rep_def index_file_def)
  qed
qed

section \<open>Directory trees\<close>

text \<open>
  \<open>crawls sys dir entries fs\<close>: the walk over the entries of a directory, depth first, meets the
  regular files \<open>fs\<close> in this order.  A derivation is finite, so the tree is: a tree in which
  directories contain each other has none.
\<close>

definition sub_path :: "string \<Rightarrow> string \<Rightarrow> string" where
  "sub_path dir d = (if last dir = CHR ''/'' then dir @ d else dir @ ''/'' @ d)"

inductive crawls :: "os \<Rightarrow> string \<Rightarrow> string list \<Rightarrow> string list \<Rightarrow> bool" for sys where
  crawls_end: "crawls sys dir [] []"
| crawls_dot: "d = ''.'' \<or> d = ''..'' \<Longrightarrow> crawls sys dir ds fs \<Longrightarrow> crawls sys dir (d # ds) fs"
| crawls_skip: "d \<noteq> ''.'' \<Longrightarrow> d \<noteq> ''..'' \<Longrightarrow>
    (case os_stat sys (sub_path dir d) of None \<Rightarrow> True | Some st \<Rightarrow> \<not> si_isreg st \<and> \<not> si_isdir st) \<Longrightarrow>
    crawls sys dir ds fs \<Longrightarrow> crawls sys dir (d # ds) fs"
| crawls_file: "d \<noteq> ''.'' \<Longrightarrow> d \<noteq> ''..'' \<Longrightarrow> os_stat sys (sub_path dir d) = Some st \<Longrightarrow> si_isreg st \<Longrightarrow>
    crawls sys dir ds fs \<Longrightarrow> crawls sys dir (d # ds) (sub_path dir d # fs)"
| crawls_dir: "d \<noteq> ''.'' \<Longrightarrow> d \<noteq> ''..'' \<Longrightarrow> os_stat sys (sub_path dir d) = Some st \<Longrightarrow> \<not> si_isreg st \<Longrightarrow> si_isdir st \<Longrightarrow>
    os_opendir sys (sub_path dir d) = Some es \<Longrightarrow> crawls sys (sub_path dir d) es gs \<Longrightarrow>
    crawls sys dir ds fs \<Longrightarrow> crawls sys dir (d # ds) (gs @ fs)"

text \<open>\<open>txt f\<close> is the text of a file, \<open>None\<close> when it cannot be opened.\<close>

definition readable :: "os \<Rightarrow> (string \<Rightarrow> string option) \<Rightarrow> string \<Rightarrow> bool" where
  "readable sys txt f \<longleftrightarrow>
     (case txt f of Some s \<Rightarrow> file_is sys f s \<and> length s < 2 ^ 32
      | None \<Rightarrow> (\<exists>st. os_stat sys f = Some st) \<and> \<not> os_open sys f)"

definition document_of :: "(string \<Rightarrow> string option) \<Rightarrow> string \<Rightarrow> document list" where
  "document_of txt f = (case txt f of None \<Rightarrow> [] | Some s \<Rightarrow> index_file f s)"

definition documents :: "(string \<Rightarrow> string option) \<Rightarrow> string list \<Rightarrow> document list" where
  "documents txt fs = concat (map (document_of txt) fs)"

definition size_of :: "(string \<Rightarrow> string option) \<Rightarrow> string list \<Rightarrow> nat" where
  "size_of txt fs = sum_list (map (\<lambda>f. case txt f of None \<Rightarrow> 0 | Some s \<Rightarrow> length s) fs)"

lemma documents_simps [simp]:
  "documents txt [] = []" "documents txt (f # fs) = document_of txt f @ documents txt fs"
  "documents txt (fs @ gs) = documents txt fs @ documents txt gs"
  by (simp_all add: documents_def)

lemma size_of_simps [simp]:
  "size_of txt [] = 0" "size_of txt (f # fs) = (case txt f of None \<Rightarrow> 0 | Some s \<Rightarrow> length s) + size_of txt fs"
  "size_of txt (fs @ gs) = size_of txt fs + size_of txt gs"
  by (simp_all add: size_of_def)

lemma length_words_of: "length (words_of s) \<le> length s"
  by (simp add: words_of_def length_text_words)

lemma document_of_size: "num_words (document_of txt f) \<le> (case txt f of None \<Rightarrow> 0 | Some s \<Rightarrow> length s)"
  using length_words_of by (simp add: document_of_def index_file_def split: option.splits)

lemma documents_size: "num_words (documents txt fs) \<le> size_of txt fs"
  by (induction fs) (simp_all add: add_mono document_of_size)

lemma documents_names: "fst ` set (documents txt fs) \<subseteq> set fs"
  by (induction fs) (auto simp: document_of_def index_file_def split: option.splits if_splits)

text \<open>The files a crawl has still to see are new to it and leave room for their words.\<close>

definition crawl_room :: "(string \<Rightarrow> string option) \<Rightarrow> document list \<Rightarrow> string list \<Rightarrow> bool" where
  "crawl_room txt docs fs \<longleftrightarrow> num_words docs + size_of txt fs < 2 ^ 32 \<and>
     distinct (map str_key fs) \<and> str_key ` fst ` set docs \<inter> str_key ` set fs = {}"

lemma crawl_room_append:
  assumes "crawl_room txt docs (fs @ gs)"
  shows "crawl_room txt docs fs" "crawl_room txt (docs @ documents txt fs) gs"
proof -
  let ?D = "str_key ` fst ` set docs"
  have room: "num_words docs + size_of txt fs + size_of txt gs < 2 ^ 32" "distinct (map str_key fs)"
    "distinct (map str_key gs)" "str_key ` set fs \<inter> str_key ` set gs = {}"
    using assms by (simp_all add: crawl_room_def)
  have "?D \<inter> (str_key ` set fs \<union> str_key ` set gs) = {}" using assms by (simp add: crawl_room_def image_Un)
  then have D: "?D \<inter> str_key ` set fs = {}" "?D \<inter> str_key ` set gs = {}" by blast+
  then show "crawl_room txt docs fs" using room by (simp add: crawl_room_def)
  have "str_key ` fst ` set (documents txt fs) \<subseteq> str_key ` set fs"
    using documents_names by (rule image_mono)
  then have "(?D \<union> str_key ` fst ` set (documents txt fs)) \<inter> str_key ` set gs = {}" using D(2) room(4) by blast
  then show "crawl_room txt (docs @ documents txt fs) gs"
    using room documents_size [of "txt" fs] by (simp add: crawl_room_def image_Un)
qed

lemma HandleFile_readable:
  assumes rep: "crawl_rep c docs" and r: "readable sys txt f" and room: "crawl_room txt docs [f]" and m: "never_fails m"
  shows "\<exists>m' c'. HandleFile m sys f c = Inr (m', c') \<and> never_fails m' \<and> crawl_rep c' (docs @ documents txt [f])"
proof (cases "txt f")
  case None
  then have "ReadFile m sys f = Inr (None, m)" using r by (auto simp: readable_def ReadFile_def)
  then show ?thesis using rep m None by (simp add: HandleFile_def BuildWordHT_def document_of_def)
next
  case (Some s)
  then have f: "file_is sys f s" "length s < 2 ^ 32" using r by (simp_all add: readable_def)
  have new: "str_key f \<notin> str_key ` fst ` set docs" using room by (simp add: crawl_room_def)
  have "num_words docs + length (words_of s) < 2 ^ 32"
    using room Some length_words_of [of s] by (simp add: crawl_room_def)
  from HandleFile_ok [OF rep f new this m] Some show ?thesis by (simp add: document_of_def)
qed

lemma entry_path_ok: "dir \<noteq> [] \<Longrightarrow> entry_path dir d = Inr (sub_path dir d)"
  by (simp add: entry_path_def sub_path_def)

lemma sub_path_ne [simp]: "dir \<noteq> [] \<Longrightarrow> sub_path dir d \<noteq> []"
  by (simp add: sub_path_def)

text \<open>From some depth on, the walk of the code over the entries succeeds.\<close>

definition walks :: "os \<Rightarrow> (string \<Rightarrow> string option) \<Rightarrow> nat \<Rightarrow> string \<Rightarrow> string list \<Rightarrow> string list \<Rightarrow> bool" where
  "walks sys txt fuel dir es fs \<longleftrightarrow>
     (\<forall>m c docs. crawl_rep c docs \<longrightarrow> never_fails m \<longrightarrow> crawl_room txt docs fs \<longrightarrow> (\<forall>f \<in> set fs. readable sys txt f) \<longrightarrow>
       (\<exists>m' c'. HandleDir fuel m sys dir es c = Inr (m', c') \<and> never_fails m' \<and> crawl_rep c' (docs @ documents txt fs)))"

text \<open>What \<open>HandleDir\<close> does with one entry.\<close>

abbreviation entry_step ::
  "nat \<Rightarrow> allocator \<Rightarrow> os \<Rightarrow> string \<Rightarrow> crawl \<Rightarrow> (heap_string option \<times> allocator \<times> crawl) res" where
  "entry_step fuel m sys path c \<equiv>
     (case os_stat sys path of
        None \<Rightarrow> Inr (Some (Allocated path), m, c)
      | Some nextstat \<Rightarrow>
          if si_isreg nextstat then
            bindE (HandleFile m sys path c) (\<lambda>(m, c). Inr (Some (Allocated path), m, c))
          else if si_isdir nextstat then
            (case os_opendir sys path of
               None \<Rightarrow>
                 bindE (free_string (Allocated path)) (\<lambda>newfile.
                 bindE (read_string newfile) (\<lambda>_. Inr (None, m, c)))
             | Some new_dir \<Rightarrow>
                 (case fuel of
                    0 \<Rightarrow> Inl Out_Of_Fuel
                  | Suc fuel \<Rightarrow>
                      bindE (HandleDir fuel m sys path new_dir c) (\<lambda>(m, c). Inr (Some (Allocated path), m, c))))
          else Inr (Some (Allocated path), m, c))"

lemma walks_step:
  assumes dir: "dir \<noteq> []" and d: "d \<noteq> ''.''" "d \<noteq> ''..''" and rest: "walks sys txt fuel dir ds fs"
    and first: "\<And>m c docs. crawl_rep c docs \<Longrightarrow> never_fails m \<Longrightarrow> crawl_room txt docs gs \<Longrightarrow> \<forall>f \<in> set gs. readable sys txt f \<Longrightarrow>
      \<exists>m' c'. entry_step fuel m sys (sub_path dir d) c = Inr (Some (Allocated (sub_path dir d)), m', c') \<and> never_fails m' \<and>
        crawl_rep c' (docs @ documents txt gs)"
  shows "walks sys txt fuel dir (d # ds) (gs @ fs)"
  unfolding walks_def
proof (intro allI impI)
  fix m c docs
  assume rep: "crawl_rep c docs" and m: "never_fails m" and room: "crawl_room txt docs (gs @ fs)"
    and r: "\<forall>f \<in> set (gs @ fs). readable sys txt f"
  obtain m1 where m1: "malloc m = (True, m1)" "never_fails m1" using m by (rule never_fails_malloc)
  note room' = crawl_room_append [OF room]
  have r': "\<forall>f \<in> set gs. readable sys txt f" "\<forall>f \<in> set fs. readable sys txt f" using r by simp_all
  from first [OF rep m1(2) room'(1) r'(1)] obtain m2 c2 where
    2: "entry_step fuel m1 sys (sub_path dir d) c = Inr (Some (Allocated (sub_path dir d)), m2, c2)" "never_fails m2"
      "crawl_rep c2 (docs @ documents txt gs)" by blast
  have "HandleDir fuel m sys dir (d # ds) c = HandleDir fuel m2 sys dir ds c2"
    using m1(1) 2(1) d entry_path_ok [OF dir, of d] by (simp add: Let_def)
  moreover obtain m3 c3 where "HandleDir fuel m2 sys dir ds c2 = Inr (m3, c3)" "never_fails m3"
    "crawl_rep c3 ((docs @ documents txt gs) @ documents txt fs)"
    using rest 2(2,3) room'(2) r'(2) unfolding walks_def by blast
  ultimately show "\<exists>m' c'. HandleDir fuel m sys dir (d # ds) c = Inr (m', c') \<and> never_fails m' \<and>
      crawl_rep c' (docs @ documents txt (gs @ fs))" by simp
qed

lemma HandleDir_ok:
  "crawls sys dir es fs \<Longrightarrow> dir \<noteq> [] \<Longrightarrow> \<exists>n. \<forall>fuel \<ge> n. walks sys txt fuel dir es fs"
proof (induction rule: crawls.induct)
  case (crawls_end dir)
  then show ?case by (auto simp: walks_def)
next
  case (crawls_dot d dir ds fs)
  then obtain n where "\<forall>fuel \<ge> n. walks sys txt fuel dir ds fs" by blast
  then show ?case using crawls_dot(1) by (intro exI [of _ n]) (auto simp: walks_def)
next
  case (crawls_skip d dir ds fs)
  then obtain n where n: "\<forall>fuel \<ge> n. walks sys txt fuel dir ds fs" by blast
  have "walks sys txt fuel dir (d # ds) ([] @ fs)" if "n \<le> fuel" for fuel
    by (rule walks_step [OF crawls_skip(6,1,2)]) (use n that crawls_skip(3) in \<open>auto split: option.splits\<close>)
  then show ?case by auto
next
  case (crawls_file d dir st ds fs)
  then obtain n where n: "\<forall>fuel \<ge> n. walks sys txt fuel dir ds fs" by blast
  have "walks sys txt fuel dir (d # ds) ([sub_path dir d] @ fs)" if "n \<le> fuel" for fuel
  proof (rule walks_step [OF crawls_file(7,1,2)])
    show "walks sys txt fuel dir ds fs" using n that by blast
  next
    fix m c docs
    assume "crawl_rep c docs" "never_fails m" "crawl_room txt docs [sub_path dir d]"
      "\<forall>f \<in> set [sub_path dir d]. readable sys txt f"
    with HandleFile_readable [of c docs sys "txt" "sub_path dir d" m] obtain m' c' where
      "HandleFile m sys (sub_path dir d) c = Inr (m', c')" "never_fails m'" "crawl_rep c' (docs @ documents txt [sub_path dir d])"
      by auto
    then show "\<exists>m' c'. entry_step fuel m sys (sub_path dir d) c = Inr (Some (Allocated (sub_path dir d)), m', c') \<and>
        never_fails m' \<and> crawl_rep c' (docs @ documents txt [sub_path dir d])"
      using crawls_file(3,4) by simp
  qed
  then show ?case by auto
next
  case (crawls_dir d dir st es gs ds fs)
  obtain n where n: "\<forall>fuel \<ge> n. walks sys txt fuel dir ds fs" using crawls_dir by blast
  obtain k where k: "\<forall>fuel \<ge> k. walks sys txt fuel (sub_path dir d) es gs" using crawls_dir by auto
  have "walks sys txt fuel dir (d # ds) (gs @ fs)" if f: "max n (Suc k) \<le> fuel" for fuel
  proof (rule walks_step [OF crawls_dir(11,1,2)])
    show "walks sys txt fuel dir ds fs" using n f by simp
  next
    fix m c docs
    assume c: "crawl_rep c docs" "never_fails m" "crawl_room txt docs gs" "\<forall>f \<in> set gs. readable sys txt f"
    obtain f' where f': "fuel = Suc f'" "k \<le> f'" using f by (cases fuel) auto
    then have "walks sys txt f' (sub_path dir d) es gs" using k by blast
    then obtain m' c' where "HandleDir f' m sys (sub_path dir d) es c = Inr (m', c')" "never_fails m'"
      "crawl_rep c' (docs @ documents txt gs)" using c unfolding walks_def by blast
    then show "\<exists>m' c'. entry_step fuel m sys (sub_path dir d) c = Inr (Some (Allocated (sub_path dir d)), m', c') \<and>
        never_fails m' \<and> crawl_rep c' (docs @ documents txt gs)"
      using crawls_dir(3,4,5,6) f'(1) by simp
  qed
  then show ?case by blast
qed

lemma empty_crawl:
  assumes "never_fails m"
  shows "\<exists>m1 dt I m2. AllocateDocTable m = Inr (dt, m1) \<and> AllocateMemIndex m1 = Inr (I, m2) \<and> never_fails m2 \<and>
     crawl_rep \<lparr>cr_doctable = dt, cr_index = I\<rparr> []"
proof -
  obtain m1 dt where 1: "AllocateDocTable m = Inr (dt, m1)" "never_fails m1" "dt_rep dt []"
    using AllocateDocTable_ok [OF assms] by blast
  obtain I m2 where 2: "AllocateMemIndex m1 = Inr (I, m2)" "never_fails m2" "mi_inv I" "mi_bound I 0 0"
    "hits I = (\<lambda>k d. None)" using AllocateMemIndex_ok [OF 1(2)] by blast
  have "index_words I = {}" by (rule no_hits_no_words [OF 2(3,5)])
  then show ?thesis using 1 2 by (simp add: crawl_rep_def doc_hits_Nil)
qed

lemma crawl_tree_ok:
  assumes "os_stat sys root = Some st" "si_isdir st" "os_opendir sys root = Some es" "root \<noteq> []"
    and "crawls sys root es fs" "\<forall>f \<in> set fs. readable sys txt f"
    and "distinct (map str_key fs)" "size_of txt fs < 2 ^ 32" "never_fails m"
  shows "\<exists>n. \<forall>fuel \<ge> n. \<exists>m' c. CrawlFileTree fuel m sys root = Inr (m', Some c) \<and> never_fails m' \<and>
     crawl_rep c (documents txt fs)"
proof -
  obtain m1 dt I m2 where start: "AllocateDocTable m = Inr (dt, m1)" "AllocateMemIndex m1 = Inr (I, m2)" "never_fails m2"
    and rep: "crawl_rep \<lparr>cr_doctable = dt, cr_index = I\<rparr> []" using empty_crawl [OF assms(9)] by blast
  have room: "crawl_room txt [] fs" using assms(7,8) by (simp add: crawl_room_def)
  obtain n where n: "\<forall>fuel \<ge> n. walks sys txt fuel root es fs" using HandleDir_ok [OF assms(5,4)] by blast
  show ?thesis
  proof (intro exI [of _ n] allI impI)
    fix fuel assume "n \<le> fuel"
    then have "walks sys txt fuel root es fs" using n by blast
    then obtain m3 c where "HandleDir fuel m2 sys root es \<lparr>cr_doctable = dt, cr_index = I\<rparr> = Inr (m3, c)" "never_fails m3"
      "crawl_rep c ([] @ documents txt fs)" using rep start(3) room assms(6) unfolding walks_def by blast
    then show "\<exists>m' c. CrawlFileTree fuel m sys root = Inr (m', Some c) \<and> never_fails m' \<and> crawl_rep c (documents txt fs)"
      using assms(1-3) start by (simp add: CrawlFileTree_def)
  qed
qed

section \<open>Directories that cannot be opened\<close>

text \<open>
  \<open>stops sys dir entries fs\<close>: the walk meets the regular files \<open>fs\<close> and then, in this directory
  or deeper, a subdirectory that cannot be opened.
\<close>

inductive stops :: "os \<Rightarrow> string \<Rightarrow> string list \<Rightarrow> string list \<Rightarrow> bool" for sys where
  stops_here: "d \<noteq> ''.'' \<Longrightarrow> d \<noteq> ''..'' \<Longrightarrow> os_stat sys (sub_path dir d) = Some st \<Longrightarrow> \<not> si_isreg st \<Longrightarrow> si_isdir st \<Longrightarrow>
    os_opendir sys (sub_path dir d) = None \<Longrightarrow> stops sys dir (d # ds) []"
| stops_inside: "d \<noteq> ''.'' \<Longrightarrow> d \<noteq> ''..'' \<Longrightarrow> os_stat sys (sub_path dir d) = Some st \<Longrightarrow> \<not> si_isreg st \<Longrightarrow> si_isdir st \<Longrightarrow>
    os_opendir sys (sub_path dir d) = Some es \<Longrightarrow> stops sys (sub_path dir d) es fs \<Longrightarrow> stops sys dir (d # ds) fs"
| stops_later: "crawls sys dir [d] gs \<Longrightarrow> stops sys dir ds fs \<Longrightarrow> stops sys dir (d # ds) (gs @ fs)"

definition fails :: "os \<Rightarrow> (string \<Rightarrow> string option) \<Rightarrow> nat \<Rightarrow> string \<Rightarrow> string list \<Rightarrow> string list \<Rightarrow> bool" where
  "fails sys txt fuel dir es fs \<longleftrightarrow>
     (\<forall>m c docs. crawl_rep c docs \<longrightarrow> never_fails m \<longrightarrow> crawl_room txt docs fs \<longrightarrow> (\<forall>f \<in> set fs. readable sys txt f) \<longrightarrow>
       HandleDir fuel m sys dir es c = Inl Undefined_Behaviour)"

lemma HandleDir_dirs:
  assumes "dir \<noteq> []" "d \<noteq> ''.''" "d \<noteq> ''..''" "os_stat sys (sub_path dir d) = Some st" "\<not> si_isreg st" "si_isdir st"
    and "never_fails m"
  shows "os_opendir sys (sub_path dir d) = None \<Longrightarrow> HandleDir fuel m sys dir (d # ds) c = Inl Undefined_Behaviour"
    "os_opendir sys (sub_path dir d) = Some es \<Longrightarrow> \<forall>m. never_fails m \<longrightarrow>
       HandleDir fuel m sys (sub_path dir d) es c = Inl Undefined_Behaviour \<Longrightarrow>
     HandleDir (Suc fuel) m sys dir (d # ds) c = Inl Undefined_Behaviour"
proof -
  obtain m1 where m1: "malloc m = (True, m1)" "never_fails m1" using assms(7) by (rule never_fails_malloc)
  show "HandleDir fuel m sys dir (d # ds) c = Inl Undefined_Behaviour" if "os_opendir sys (sub_path dir d) = None"
    using that assms(2-6) m1(1) entry_path_ok [OF assms(1), of d] by simp
  show "HandleDir (Suc fuel) m sys dir (d # ds) c = Inl Undefined_Behaviour"
    if "os_opendir sys (sub_path dir d) = Some es"
      "\<forall>m. never_fails m \<longrightarrow> HandleDir fuel m sys (sub_path dir d) es c = Inl Undefined_Behaviour"
    using that assms(2-6) m1 entry_path_ok [OF assms(1), of d] by simp
qed

lemma HandleDir_Cons:
  "HandleDir fuel m sys dir [d] c = Inr (m', c') \<Longrightarrow>
   HandleDir fuel m sys dir (d # ds) c = HandleDir fuel m' sys dir ds c'"
  by (auto simp: Let_def bindE_def split: if_splits prod.splits sum.splits option.splits nat.splits)

lemma stops_fails:
  "stops sys dir es fs \<Longrightarrow> dir \<noteq> [] \<Longrightarrow> \<exists>n. \<forall>fuel \<ge> n. fails sys txt fuel dir es fs"
proof (induction rule: stops.induct)
  case (stops_here d dir st ds)
  then show ?case using HandleDir_dirs(1) unfolding fails_def by blast
next
  case (stops_inside d dir st es fs ds)
  then obtain n where n: "\<forall>fuel \<ge> n. fails sys txt fuel (sub_path dir d) es fs" by auto
  have "fails sys txt fuel dir (d # ds) fs" if f: "Suc n \<le> fuel" for fuel
  proof -
    obtain k where k: "fuel = Suc k" "n \<le> k" using f by (cases fuel) auto
    then have "fails sys txt k (sub_path dir d) es fs" using n by blast
    then show ?thesis unfolding fails_def k(1)
      using HandleDir_dirs(2) [OF stops_inside(9,1-5) _ stops_inside(6)] by blast
  qed
  then show ?case by blast
next
  case (stops_later dir d gs ds fs)
  obtain n where n: "\<forall>fuel \<ge> n. walks sys txt fuel dir [d] gs" using HandleDir_ok [OF stops_later(1,4)] by blast
  obtain k where k: "\<forall>fuel \<ge> k. fails sys txt fuel dir ds fs" using stops_later by blast
  have "fails sys txt fuel dir (d # ds) (gs @ fs)" if f: "max n k \<le> fuel" for fuel
    unfolding fails_def
  proof (intro allI impI)
    fix m c docs
    assume c: "crawl_rep c docs" "never_fails m" and room: "crawl_room txt docs (gs @ fs)"
      and r: "\<forall>f \<in> set (gs @ fs). readable sys txt f"
    note room' = crawl_room_append [OF room]
    have r': "\<forall>f \<in> set gs. readable sys txt f" "\<forall>f \<in> set fs. readable sys txt f" using r by simp_all
    have w: "walks sys txt fuel dir [d] gs" "fails sys txt fuel dir ds fs" using n k f by simp_all
    obtain m' c' where "HandleDir fuel m sys dir [d] c = Inr (m', c')" "never_fails m'" "crawl_rep c' (docs @ documents txt gs)"
      using w(1) c room'(1) r'(1) unfolding walks_def by blast
    with w(2) room'(2) r'(2) show "HandleDir fuel m sys dir (d # ds) c = Inl Undefined_Behaviour"
      unfolding fails_def by (metis HandleDir_Cons)
  qed
  then show ?case by blast
qed

text \<open>The files that are indexed: plain text in which a word is followed by another character.\<close>

definition indexed :: "(string \<Rightarrow> string option) \<Rightarrow> string \<Rightarrow> bool" where
  "indexed txt f \<longleftrightarrow> (case txt f of None \<Rightarrow> False | Some s \<Rightarrow> plain_text s \<and> (\<exists>w i. is_word_at s w i))"

lemma document_of_indexed: "document_of txt f = (if indexed txt f then [(f, words_of (the (txt f)))] else [])"
  by (simp add: document_of_def index_file_def indexed_def words_of_Nil split: option.split)

lemma documents_indexed: "documents txt fs = map (\<lambda>f. (f, words_of (the (txt f)))) (filter (indexed txt) fs)"
  by (induction fs) (simp_all add: document_of_indexed)

text \<open>No other word of the files has the key of \<open>w\<close>.\<close>

definition own_key :: "(string \<Rightarrow> string option) \<Rightarrow> string list \<Rightarrow> string \<Rightarrow> bool" where
  "own_key texts fs w \<longleftrightarrow>
     (\<forall>f \<in> set fs. \<forall>s v i. texts f = Some s \<longrightarrow> is_word_at s v i \<longrightarrow> str_key v = str_key w \<longrightarrow> v = w)"

text \<open>The offsets that the index holds for a word and the \<open>j\<close>-th file, counted from 0.\<close>

lemma doc_hits_offsets:
  assumes few: "length (filter (indexed texts) fs) < 2 ^ 32" and w: "own_key texts fs w" and j: "j < length (filter (indexed texts) fs)"
    and s: "texts (filter (indexed texts) fs ! j) = Some s" "length s < 2 ^ 32"
  shows "map_option (map unat) (doc_hits (documents texts fs) (str_key w) (of_nat (Suc j))) =
     (if \<exists>i. is_word_at s w i then Some (sorted_list_of_set {i. is_word_at s w i}) else None)"
proof -
  let ?fs = "filter (indexed texts) fs"
  have u: "unat (of_nat (Suc j) :: DocID_t) = Suc j" using j few by (intro unat_docid) simp
  have doc: "documents texts fs ! j = (?fs ! j, words_of s)" "j < length (documents texts fs)"
    using j s by (simp_all add: documents_indexed)
  let ?ps = "with_key (str_key w) (occurrences (words_of s))"
  have "?fs ! j \<in> set fs" using nth_mem [OF j] by simp
  then have ps: "map snd ?ps = map of_nat (word_offsets w s)"
    using w s(1) by (intro with_key_offsets) (unfold own_key_def, blast)
  have "unat (of_nat i :: DocPositionOffset_t) = i" if "i \<in> set (word_offsets w s)" for i
    using word_offset_less [OF that] s(2) by (intro unat_of_nat32) simp
  then have "map unat (map snd ?ps) = word_offsets w s" unfolding ps by (simp add: map_idI)
  then have offs: "map (unat \<circ> snd) ?ps = word_offsets w s" by simp
  have "?ps = [] \<longleftrightarrow> \<not> (\<exists>i. is_word_at s w i)"
    using offs times_in_pos [of w s] unfolding times_in_offsets by (metis length_0_conv length_map not_gr_zero)
  moreover have "map_option (map unat) (doc_hits (documents texts fs) (str_key w) (of_nat (Suc j))) =
      (if ?ps = [] then None else Some (map (unat \<circ> snd) ?ps))"
    using doc u by (cases ?ps) (simp_all add: doc_hits_def Suc_le_eq)
  ultimately show ?thesis unfolding offs by (simp add: word_offsets_def)
qed

section \<open>Properties\<close>

text \<open>
  Property C8: crawling a directory tree without cycles in which every subdirectory can be opened
  terminates.  The document table then numbers, in the order of the walk, the regular files
  of the tree that are plain text and have a word that is followed by another character, and the
  index holds, by key, the words of these files.  For a word whose key no other word of the files
  has it holds, for each file, exactly the offsets at which the word occurs in it.  Other files,
  also those of plain text that have no such word, are neither numbered nor indexed.  The
  paths must have different keys, and the text fewer than \<open>2 ^ 32\<close> bytes.
\<close>

theorem crawl_indexes_tree:
  assumes "os_stat sys root = Some st" "si_isdir st" "os_opendir sys root = Some es" "root \<noteq> []"
    and "crawls sys root es fs" "\<forall>f \<in> set fs. readable sys texts f"
    and "distinct (map str_key fs)" "size_of texts fs < 2 ^ 32" "never_fails m"
  shows "\<exists>n. \<forall>fuel \<ge> n. \<exists>m' c. CrawlFileTree fuel m sys root = Inr (m', Some c) \<and> never_fails m' \<and>
     crawl_rep c (documents texts fs) \<and>
     (let files = filter (indexed texts) fs in
      dt_rep (cr_doctable c) files \<and>
      (\<forall>j s w. j < length files \<longrightarrow> texts (files ! j) = Some s \<longrightarrow> own_key texts fs w \<longrightarrow>
        map_option (map unat) (hits (cr_index c) (str_key w) (of_nat (Suc j))) =
          (if \<exists>i. is_word_at s w i then Some (sorted_list_of_set {i. is_word_at s w i}) else None)))"
proof -
  let ?files = "filter (indexed texts) fs"
  have names: "map fst (documents texts fs) = ?files" by (simp add: documents_indexed comp_def)
  have dt: "dt_rep (cr_doctable c) ?files" if "crawl_rep c (documents texts fs)" for c
    using that unfolding crawl_rep_def names by blast
  have offs: "map_option (map unat) (hits (cr_index c) (str_key w) (of_nat (Suc j))) =
      (if \<exists>i. is_word_at s w i then Some (sorted_list_of_set {i. is_word_at s w i}) else None)"
    if c: "crawl_rep c (documents texts fs)" and j: "j < length ?files" "texts (?files ! j) = Some s" and w: "own_key texts fs w"
    for c j s w
  proof -
    have "readable sys texts (?files ! j)" using nth_mem [OF j(1)] assms(6) by simp
    then have "length s < 2 ^ 32" using j(2) by (simp add: readable_def)
    moreover have "length ?files < 2 ^ 32" using dt [OF c] by (simp add: dt_rep_def)
    ultimately show ?thesis using doc_hits_offsets [OF _ w j] c unfolding crawl_rep_def by metis
  qed
  show ?thesis using crawl_tree_ok [OF assms] dt offs unfolding Let_def by blast
qed

definition tree_files :: "(string \<times> string) list" where
  "tree_files = [(''d/a'', ''one two. ''), (''d/s/b'', ''two two!'')]"

definition tree_os :: os where
  "tree_os = os_of tree_files [(''d'', [''.'', ''..'', ''a'', ''s'']), (''d/s'', [''b''])]"

lemma tree_crawls: "crawls tree_os ''d'' [''.'', ''..'', ''a'', ''s''] [''d/a'', ''d/s/b'']"
proof -
  have b: "crawls tree_os ''d/s'' [''b''] [sub_path ''d/s'' ''b'']"
    by (rule crawls_file [where st = "\<lparr>si_isreg = True, si_isdir = False, si_size = 8\<rparr>", OF _ _ _ _ crawls_end]) (simp_all add: tree_os_def os_of_def tree_files_def sub_path_def)
  have p: "sub_path ''d/s'' ''b'' = ''d/s/b''" "sub_path ''d'' ''a'' = ''d/a''" "sub_path ''d'' ''s'' = ''d/s''"
    by (simp_all add: sub_path_def)
  have s: "crawls tree_os ''d'' [''s''] ([''d/s/b''] @ [])"
    by (rule crawls_dir [where d = "''s''" and es = "[''b'']" and
          st = "\<lparr>si_isreg = False, si_isdir = True, si_size = 0\<rparr>", OF _ _ _ _ _ _ _ crawls_end])
      (use b in \<open>simp_all add: p tree_os_def os_of_def tree_files_def\<close>)
  have a: "crawls tree_os ''d'' [''a'', ''s''] (sub_path ''d'' ''a'' # [''d/s/b''])"
    by (rule crawls_file [where st = "\<lparr>si_isreg = True, si_isdir = False, si_size = 9\<rparr>", OF _ _ _ _ s [simplified]]) (simp_all add: p tree_os_def os_of_def tree_files_def)
  show ?thesis using a unfolding p by (intro crawls_dot [of "''.''"] crawls_dot [of "''..''"]) simp_all
qed

lemma tree_readable: "\<forall>f \<in> set [''d/a'', ''d/s/b'']. readable tree_os (map_of tree_files) f"
  using os_of_file [of tree_files] by (simp add: readable_def tree_os_def tree_files_def)

lemma tree_keys: "distinct (map str_key [''d/a'', ''d/s/b''])"
proof -
  have "(str_key ''d/a'' = str_key ''d/s/b'') = False" by code_simp
  then show ?thesis by simp
qed

lemma tree_documents:
  "documents (map_of tree_files) [''d/a'', ''d/s/b''] =
     [(''d/a'', [(''one'', 0), (''two'', 4)]), (''d/s/b'', [(''two'', 0), (''two'', 4)])]"
  by code_simp

lemma crawl_indexes_tree_witness:
  "\<exists>n. \<forall>fuel \<ge> n. \<exists>m' c. CrawlFileTree fuel [] tree_os ''d'' = Inr (m', Some c) \<and>
     crawl_rep c [(''d/a'', [(''one'', 0), (''two'', 4)]), (''d/s/b'', [(''two'', 0), (''two'', 4)])]"
proof -
  have "size_of (map_of tree_files) [''d/a'', ''d/s/b''] < 2 ^ 32" by (simp add: tree_files_def)
  moreover have "os_stat tree_os ''d'' = Some \<lparr>si_isreg = False, si_isdir = True, si_size = 0\<rparr>"
    "os_opendir tree_os ''d'' = Some [''.'', ''..'', ''a'', ''s'']"
    by (simp_all add: tree_os_def os_of_def tree_files_def)
  ultimately show ?thesis
    using crawl_indexes_tree [OF _ _ _ _ tree_crawls tree_readable tree_keys, of _ "[]"]
    unfolding tree_documents by simp blast
qed

text \<open>
  Property C34: a tree in which a subdirectory, at any depth, cannot be opened is not crawled to its
  end: when the walk gets there the code frees the path of the subdirectory and then reads it
  for its message, which is undefined.  (Were the read to succeed, the \<open>return\<close> behind it would skip
  the rest of the directory that the subdirectory is in, and no more.)
\<close>

theorem unopenable_directory_use_after_free:
  assumes "os_stat sys root = Some st" "si_isdir st" "os_opendir sys root = Some es" "root \<noteq> []"
    and "stops sys root es fs" "\<forall>f \<in> set fs. readable sys txt f"
    and "distinct (map str_key fs)" "size_of txt fs < 2 ^ 32" "never_fails m"
  shows "\<exists>n. \<forall>fuel \<ge> n. CrawlFileTree fuel m sys root = Inl Undefined_Behaviour"
proof -
  obtain m1 dt I m2 where start: "AllocateDocTable m = Inr (dt, m1)" "AllocateMemIndex m1 = Inr (I, m2)" "never_fails m2"
    "crawl_rep \<lparr>cr_doctable = dt, cr_index = I\<rparr> []" using empty_crawl [OF assms(9)] by blast
  have room: "crawl_room txt [] fs" using assms(7,8) by (simp add: crawl_room_def)
  obtain n where n: "\<forall>fuel \<ge> n. fails sys txt fuel root es fs" using stops_fails [OF assms(5,4)] by blast
  have "CrawlFileTree fuel m sys root = Inl Undefined_Behaviour" if "n \<le> fuel" for fuel
  proof -
    have "fails sys txt fuel root es fs" using n that by blast
    then have "HandleDir fuel m2 sys root es \<lparr>cr_doctable = dt, cr_index = I\<rparr> = Inl Undefined_Behaviour"
      using start(3,4) room assms(6) unfolding fails_def by blast
    then show ?thesis using assms(1-3) start(1,2) by (simp add: CrawlFileTree_def)
  qed
  then show ?thesis by blast
qed

definition locked_os :: os where
  "locked_os = tree_os\<lparr>os_opendir := (os_opendir tree_os)(''d/s'' := None)\<rparr>"

lemma locked_stops: "stops locked_os ''d'' [''.'', ''..'', ''a'', ''s''] [''d/a'']"
proof -
  note os = locked_os_def tree_os_def os_of_def tree_files_def
  have s: "stops locked_os ''d'' [''s''] []"
    by (rule stops_here [where st = "\<lparr>si_isreg = False, si_isdir = True, si_size = 0\<rparr>"]) (simp_all add: os sub_path_def)
  have p: "sub_path ''d'' ''a'' = ''d/a''" by (simp add: sub_path_def)
  have a: "crawls locked_os ''d'' [''a''] [sub_path ''d'' ''a'']"
    by (rule crawls_file [where st = "\<lparr>si_isreg = True, si_isdir = False, si_size = 9\<rparr>", OF _ _ _ _ crawls_end])
      (simp_all add: os p)
  have dots: "crawls locked_os ''d'' [''.''] []" "crawls locked_os ''d'' [''..''] []"
    by (rule crawls_dot; simp add: crawls_end)+
  show ?thesis using stops_later [OF dots(1) stops_later [OF dots(2) stops_later [OF a s]]] by (simp add: p)
qed

lemma unopenable_directory_use_after_free_witness:
  "\<exists>n. \<forall>fuel \<ge> n. CrawlFileTree fuel [] locked_os ''d'' = Inl Undefined_Behaviour"
proof -
  have os: "os_stat locked_os ''d'' = Some \<lparr>si_isreg = False, si_isdir = True, si_size = 0\<rparr>"
    "os_opendir locked_os ''d'' = Some [''.'', ''..'', ''a'', ''s'']"
    by (simp_all add: locked_os_def tree_os_def os_of_def tree_files_def)
  have files: "\<forall>f \<in> set [''d/a'']. readable locked_os (map_of tree_files) f"
    using tree_readable by (simp add: readable_def file_is_def locked_os_def tree_files_def)
  have small: "distinct (map str_key [''d/a''])" "size_of (map_of tree_files) [''d/a''] < 2 ^ 32"
    by (simp_all add: tree_files_def)
  show ?thesis
    by (rule unopenable_directory_use_after_free [OF os(1) _ os(2) _ locked_stops files small never_fails_Nil]) simp_all
qed

end
