(* ===== verification/SearchShell.thy ===== *)
theory SearchShell
  imports FileCrawler
begin

text \<open>
  The query shell of src/hw2/searchshell.c: it crawls a directory, and answers the queries it
  reads from its standard input.  The standard input is a string, and what the program prints
  is the list of its messages.
\<close>

datatype message = Indexing string | Enter_Query | Search_Hit string HWSize_t

section \<open>Standard library\<close>

text \<open>
  \<open>fgets\<close> with a buffer of \<open>n\<close> characters reads up to the end of the line or to \<open>n - 1\<close>
  characters; \<open>None\<close> is its \<open>NULL\<close> at the end of the input.
\<close>

fun read_line :: "nat \<Rightarrow> string \<Rightarrow> string \<times> string" where
  "read_line 0 inp = ([], inp)"
| "read_line (Suc n) [] = ([], [])"
| "read_line (Suc n) (c # inp) =
     (if c = CHR 0x0A then ([c], inp) else case read_line n inp of (line, rest) \<Rightarrow> (c # line, rest))"

definition fgets :: "nat \<Rightarrow> string \<Rightarrow> (string \<times> string) option" where
  "fgets n inp = (if inp = [] then None else Some (read_line (n - 1) inp))"

text \<open>
  \<open>strtok_r(rest, " ", &rest)\<close>: the next token and the new \<open>rest\<close>.
\<close>

definition strtok_space :: "string \<Rightarrow> (string \<times> string) option" where
  "strtok_space rest =
     (let s = dropWhile (\<lambda>c. c = CHR '' '') rest in
      if s = [] then None
      else Some (takeWhile (\<lambda>c. c \<noteq> CHR '' '') s, tl (dropWhile (\<lambda>c. c \<noteq> CHR '' '') s)))"

lemma strtok_shorter: "strtok_space s = Some (tok, rest) \<Longrightarrow> length rest < length s"
proof -
  assume a: "strtok_space s = Some (tok, rest)"
  let ?s = "dropWhile (\<lambda>c. c = CHR '' '') s"
  have ne: "?s \<noteq> []" and r: "rest = tl (dropWhile (\<lambda>c. c \<noteq> CHR '' '') ?s)"
    using a by (auto simp: strtok_space_def Let_def split: if_splits)
  have "length rest \<le> length ?s - 1" using r length_dropWhile_le [of "\<lambda>c. c \<noteq> CHR '' ''" ?s] by simp
  moreover have "length ?s \<le> length s" by (rule length_dropWhile_le)
  moreover have "0 < length ?s" using ne by simp
  ultimately show ?thesis by linarith
qed

text \<open>The tokens that the loop over \<open>strtok_r\<close> finds.\<close>

function tokens :: "string \<Rightarrow> string list" where
  "tokens s = (case strtok_space s of None \<Rightarrow> [] | Some (tok, rest) \<Rightarrow> tok # tokens rest)"
  by auto
termination by (relation "measure length") (use strtok_shorter in auto)

declare tokens.simps [simp del]

section \<open>Printing the results\<close>

text \<open>
  The loop of \<open>PrintLinkedList\<close>; printing a missing name would hand \<open>NULL\<close> to \<open>printf\<close>.
  Each round but the last moves the iterator on, so the length of the list bounds the rounds.
\<close>

fun print_loop ::
  "nat \<Rightarrow> allocator \<Rightarrow> search_result linked_list \<Rightarrow> doc_table \<Rightarrow> ll_iter \<Rightarrow> (message list \<times> allocator) res" where
  "print_loop fuel m l doctable it =
     bindE (LLIteratorGetPayload l it) (\<lambda>sr.
     bindE (DTLookupDocID m doctable (sr_docid sr)) (\<lambda>(docname, m).
     case docname of
       None \<Rightarrow> Inl Undefined_Behaviour
     | Some docname \<Rightarrow>
         bindE (LLIteratorNext l it) (\<lambda>(more, it).
         if \<not> more then Inr ([Search_Hit docname (sr_rank sr)], m)
         else case fuel of
           0 \<Rightarrow> Inl Out_Of_Fuel
         | Suc fuel \<Rightarrow>
             bindE (print_loop fuel m l doctable it) (\<lambda>(out, m).
             Inr (Search_Hit docname (sr_rank sr) # out, m)))))"

declare print_loop.simps [simp del]

definition PrintLinkedList ::
  "allocator \<Rightarrow> search_result linked_list \<Rightarrow> doc_table \<Rightarrow> (message list \<times> allocator) res" where
  "PrintLinkedList m l doctable =
     bindE (LLMakeIterator m l 0) (\<lambda>(it, m).
     case it of
       None \<Rightarrow> Inl Verify333_Failed
     | Some it \<Rightarrow> print_loop (unat (NumElementsInLinkedList l)) m l doctable it)"

section \<open>One query\<close>

text \<open>Copying the tokens into the array of words; \<open>room\<close> is the number of entries left in it.\<close>

fun copy_tokens :: "nat \<Rightarrow> allocator \<Rightarrow> string list \<Rightarrow> (string list \<times> allocator) res" where
  "copy_tokens room m [] = Inr ([], m)"
| "copy_tokens room m (tok # toks) =
     (case room of
        0 \<Rightarrow> Inl Undefined_Behaviour
      | Suc room \<Rightarrow>
          (case malloc m of (ok, m) \<Rightarrow>
           bindE (Verify333 ok) (\<lambda>_.
           bindE (copy_tokens room m toks) (\<lambda>(query, m). Inr (tok # query, m)))))"

text \<open>Freeing the words: entries of the array that were never set are not pointers to free.\<close>

fun free_query :: "nat \<Rightarrow> nat \<Rightarrow> string list \<Rightarrow> unit res" where
  "free_query 0 i query = Inr ()"
| "free_query (Suc n) i query = bindE (index_res query i) (\<lambda>_. free_query n (Suc i) query)"

text \<open>
  One round of the loop, on the buffer that \<open>fgets\<close> has filled.  The words are counted before the
  last character is cut off, and copied after it.
\<close>

definition shell_round :: "allocator \<Rightarrow> crawl \<Rightarrow> string \<Rightarrow> (message list \<times> allocator) res" where
  "shell_round m c line =
     (let usr_input = takeWhile (\<lambda>ch. ch \<noteq> NUL) line;
          num_split_query = length (tokens usr_input)
      in case malloc m of (ok, m) \<Rightarrow>
      bindE (Verify333 ok) (\<lambda>_.
      bindE (if usr_input = [] then Inl Undefined_Behaviour else Inr (butlast usr_input)) (\<lambda>usr_input.
      bindE (copy_tokens num_split_query m (tokens usr_input)) (\<lambda>(query, m).
      bindE (MIProcessQuery m (cr_index c) query (of_nat num_split_query)) (\<lambda>(llres, m).
      bindE
        (case llres of
           None \<Rightarrow> Inr ([], m)
         | Some llres \<Rightarrow>
             bindE (PrintLinkedList m llres (cr_doctable c)) (\<lambda>(out, m).
             bindE (FreeLinkedList llres) (\<lambda>_. Inr (out, m))))
        (\<lambda>(out, m).
      bindE (free_query num_split_query 0 query) (\<lambda>_. Inr (out, m))))))))"

section \<open>The program\<close>

lemma read_line_length: "length (fst (read_line n inp)) + length (snd (read_line n inp)) = length inp"
  by (induction n inp rule: read_line.induct) (auto split: prod.splits)

lemma read_line_nonempty: "inp \<noteq> [] \<Longrightarrow> 0 < n \<Longrightarrow> fst (read_line n inp) \<noteq> []"
  by (cases n; cases inp) (auto split: prod.splits)

lemma fgets_shorter: "fgets 256 inp = Some (line, rest) \<Longrightarrow> length rest < length inp"
proof -
  assume a: "fgets 256 inp = Some (line, rest)"
  then have "inp \<noteq> []" "read_line 255 inp = (line, rest)" by (simp_all add: fgets_def split: if_splits)
  then have "0 < length line" "length line + length rest = length inp"
    using read_line_length [of 255 inp] read_line_nonempty [of inp 255] by simp_all
  then show ?thesis by linarith
qed

function shell_loop :: "allocator \<Rightarrow> crawl \<Rightarrow> string \<Rightarrow> (message list \<times> allocator) res" where
  "shell_loop m c inp =
     (case fgets 256 inp of
        None \<Rightarrow> Inr ([Enter_Query], m)
      | Some (line, rest) \<Rightarrow>
          bindE (shell_round m c line) (\<lambda>(out, m).
          bindE (shell_loop m c rest) (\<lambda>(outs, m). Inr (Enter_Query # out @ outs, m))))"
  by auto
termination by (relation "measure (\<lambda>(m, c, inp). length inp)") (use fgets_shorter in auto)

declare shell_loop.simps [simp del]

text \<open>\<open>main\<close>; \<open>fuel\<close> bounds the depth of the directory tree.\<close>

definition searchshell_main :: "nat \<Rightarrow> allocator \<Rightarrow> os \<Rightarrow> string list \<Rightarrow> string \<Rightarrow> message list res" where
  "searchshell_main fuel m sys argv stdin =
     (case argv of
        [_, docroot] \<Rightarrow>
          bindE (CrawlFileTree fuel m sys docroot) (\<lambda>(m, c).
          case c of
            None \<Rightarrow> Inl Verify333_Failed
          | Some c \<Rightarrow>
              bindE (shell_loop m c stdin) (\<lambda>(out, m).
              bindE (FreeMemIndex (cr_index c)) (\<lambda>_.
              bindE (FreeDocTable (cr_doctable c)) (\<lambda>_. Inr (Indexing docroot # out)))))
      | _ \<Rightarrow> Inl Exit_Failure)"

end
