(* ===== verification/SearchShellSpec.thy ===== *)
theory SearchShellSpec
  imports SearchShell FileCrawlerSpec
begin

text \<open>
  What the shell answers.  \<open>right_answer\<close> says which messages are right for a query over the texts of some
  files; \<open>answer\<close> says the same by the keys of the words, as the code works, and is the right answer
  where no two words have the same key.
\<close>

section \<open>Tokens\<close>

text \<open>The line a user types for a list of words, and the lists of words it works for.\<close>

definition is_word :: "string \<Rightarrow> bool" where
  "is_word w \<longleftrightarrow> w \<noteq> [] \<and> (\<forall>c \<in> set w. c \<noteq> CHR '' '' \<and> c \<noteq> CHR 0x0A \<and> c \<noteq> NUL)"

fun join_words :: "string list \<Rightarrow> string" where
  "join_words [] = []"
| "join_words [w] = w"
| "join_words (w # ws) = w @ CHR '' '' # join_words ws"

lemma strtok_word:
  assumes "is_word w" "rest = [] \<or> hd rest = CHR '' ''"
  shows "strtok_space (w @ rest) = Some (w, tl rest)"
proof -
  obtain c cs where w: "w = c # cs" using assms(1) by (cases w) (auto simp: is_word_def)
  have ns: "\<forall>c \<in> set w. c \<noteq> CHR '' ''" using assms(1) by (simp add: is_word_def)
  have d: "dropWhile (\<lambda>c. c = CHR '' '') (w @ rest) = w @ rest" using ns w by simp
  have "takeWhile (\<lambda>c. c \<noteq> CHR '' '') (w @ rest) = w" "dropWhile (\<lambda>c. c \<noteq> CHR '' '') (w @ rest) = rest"
    using ns assms(2) by (cases rest; simp add: takeWhile_append2 dropWhile_append2)+
  then show ?thesis using d w by (simp add: strtok_space_def)
qed

lemma tokens_Nil [simp]: "tokens [] = []"
  by (simp add: tokens.simps strtok_space_def)

lemma tokens_join: "\<forall>w \<in> set ws. is_word w \<Longrightarrow> tokens (join_words ws) = ws"
proof (induction ws rule: join_words.induct)
  case (2 w)
  then show ?case using strtok_word [of w "[]"] by (simp add: tokens.simps [of w])
next
  case (3 w v ws)
  then show ?case using strtok_word [of w "CHR '' '' # join_words (v # ws)"]
    by (simp add: tokens.simps [of "w @ _"])
qed simp

text \<open>The newline at the end of the line belongs to the last token and does not make another one.\<close>

lemma tokens_newline:
  "ws \<noteq> [] \<Longrightarrow> \<forall>w \<in> set ws. is_word w \<Longrightarrow>
   tokens (join_words ws @ [CHR 0x0A]) = butlast ws @ [last ws @ [CHR 0x0A]]"
proof (induction ws rule: join_words.induct)
  case (2 w)
  have ns: "\<forall>c \<in> set (w @ [CHR 0x0A]). c \<noteq> CHR '' ''" "w \<noteq> []" using 2 by (auto simp: is_word_def)
  then have "strtok_space (w @ [CHR 0x0A]) = Some (w @ [CHR 0x0A], [])"
    by (cases w) (simp_all add: strtok_space_def takeWhile_eq_all_conv [THEN iffD2] dropWhile_eq_Nil_conv [THEN iffD2])
  then show ?case by (simp add: tokens.simps [of "w @ _"])
next
  case (3 w v ws)
  then show ?case using strtok_word [of w "CHR '' '' # join_words (v # ws) @ [CHR 0x0A]"]
    by (simp add: tokens.simps [of "w @ _"])
qed simp

lemma join_words_clean:
  assumes "\<forall>w \<in> set ws. is_word w"
  shows "NUL \<notin> set (join_words ws)" "CHR 0x0A \<notin> set (join_words ws)"
  using assms by (induction ws rule: join_words.induct) (auto simp: is_word_def NUL_def)

lemma join_words_length: "\<forall>w \<in> set ws. is_word w \<Longrightarrow> length ws \<le> length (join_words ws)"
  by (induction ws rule: join_words.induct) (auto simp: is_word_def Suc_le_eq neq_Nil_conv)

lemma read_line_newline:
  "CHR 0x0A \<notin> set l \<Longrightarrow> length l < n \<Longrightarrow> read_line n (l @ CHR 0x0A # rest) = (l @ [CHR 0x0A], rest)"
proof (induction l arbitrary: n)
  case Nil
  then show ?case by (cases n) auto
next
  case (Cons c l)
  then show ?case by (cases n) auto
qed

section \<open>Answers\<close>

definition word_hits :: "string \<Rightarrow> (string \<times> nat) list \<Rightarrow> nat" where
  "word_hits w ws = length (with_key (str_key w) (occurrences ws))"

text \<open>
  The answer to a query by key: the documents in which a word with the key of each word of it
  occurs, each once, with the number of occurrences, in descending order of it.
\<close>

definition answer :: "document list \<Rightarrow> string list \<Rightarrow> message list \<Rightarrow> bool" where
  "answer docs query out \<longleftrightarrow>
     (\<exists>rs. out = map (\<lambda>(f, r). Search_Hit f r) rs \<and> distinct (map fst rs) \<and>
        set rs = {(f, sum_list (map (\<lambda>w. of_nat (word_hits w ws)) query)) | f ws.
                  (f, ws) \<in> set docs \<and> (\<forall>w \<in> set query. 0 < word_hits w ws)} \<and>
        sorted_wrt (\<lambda>x y. snd y \<le> snd x) rs)"

fun answers :: "document list \<Rightarrow> string list list \<Rightarrow> message list \<Rightarrow> bool" where
  "answers docs [] out \<longleftrightarrow> out = [Enter_Query]"
| "answers docs (q # qs) out \<longleftrightarrow>
     (\<exists>out1 out2. out = Enter_Query # out1 @ out2 \<and> answer docs q out1 \<and> answers docs qs out2)"

text \<open>
  The right answer to a query over the files \<open>fs\<close>: the files of plain text in which each word occurs
  and another character follows it, each once, with the number of such occurrences of the words, a
  sum of 32 bits, in descending order of it.  The words of a text are kept in lower case and the
  words of a query are not changed, so a query with a capital letter finds nothing.
\<close>

definition found_in :: "(string \<Rightarrow> string option) \<Rightarrow> string list \<Rightarrow> string list \<Rightarrow> (string \<times> HWSize_t) set" where
  "found_in texts fs query =
     {(f, sum_list (map (\<lambda>w. of_nat (times_in w s)) query)) | f s.
        f \<in> set fs \<and> texts f = Some s \<and> plain_text s \<and> (\<forall>w \<in> set query. 0 < times_in w s)}"

definition right_answer :: "(string \<Rightarrow> string option) \<Rightarrow> string list \<Rightarrow> string list \<Rightarrow> message list \<Rightarrow> bool" where
  "right_answer texts fs query out \<longleftrightarrow>
     (if \<exists>w \<in> set query. map tolower w \<noteq> w then out = []
      else \<exists>rs. out = map (\<lambda>(f, r). Search_Hit f r) rs \<and> distinct (map fst rs) \<and> set rs = found_in texts fs query \<and>
        sorted_wrt (\<lambda>x y. snd y \<le> snd x) rs)"

fun right_answers :: "(string \<Rightarrow> string option) \<Rightarrow> string list \<Rightarrow> string list list \<Rightarrow> message list \<Rightarrow> bool" where
  "right_answers texts fs [] out \<longleftrightarrow> out = [Enter_Query]"
| "right_answers texts fs (q # qs) out \<longleftrightarrow>
     (\<exists>out1 out2. out = Enter_Query # out1 @ out2 \<and> right_answer texts fs q out1 \<and> right_answers texts fs qs out2)"

lemma word_hits_times:
  assumes "own_key texts fs w" "f \<in> set fs" "texts f = Some s"
  shows "word_hits w (words_of s) = times_in w s"
proof -
  have "map snd (with_key (str_key w) (occurrences (words_of s))) = map of_nat (word_offsets w s)"
    by (rule with_key_offsets) (use assms in \<open>unfold own_key_def, blast\<close>)
  then have "length (map snd (with_key (str_key w) (occurrences (words_of s)))) = length (word_offsets w s)"
    by (metis length_map)
  then show ?thesis by (simp add: word_hits_def times_in_offsets)
qed

lemma found_in_words:
  assumes q: "query \<noteq> []" and keys: "\<forall>w \<in> set query. own_key texts fs w"
  shows "{(f, sum_list (map (\<lambda>w. of_nat (word_hits w ws)) query)) | f ws.
      (f, ws) \<in> set (documents texts fs) \<and> (\<forall>w \<in> set query. 0 < word_hits w ws)} = found_in texts fs query" (is "?A = _")
proof -
  have hits: "word_hits w (words_of s) = times_in w s" if "f \<in> set fs" "texts f = Some s" "w \<in> set query" for f s w
    using word_hits_times keys that by blast
  have sum: "map (\<lambda>w. of_nat (word_hits w (words_of s))) query = (map (\<lambda>w. of_nat (times_in w s)) query :: HWSize_t list)"
    if "f \<in> set fs" "texts f = Some s" for f s
    using hits that by simp
  have docs: "(f, ws) \<in> set (documents texts fs) \<longleftrightarrow>
      f \<in> set fs \<and> (\<exists>s. texts f = Some s \<and> plain_text s \<and> (\<exists>w i. is_word_at s w i) \<and> ws = words_of s)" for f ws
  proof -
    have "(f, ws) \<in> set (documents texts fs) \<longleftrightarrow> f \<in> set fs \<and> indexed texts f \<and> ws = words_of (the (texts f))"
      by (auto simp: documents_indexed)
    then show ?thesis by (cases "texts f") (auto simp: indexed_def)
  qed
  show ?thesis
  proof (rule set_eqI, rule iffI)
    fix x assume "x \<in> ?A"
    then obtain f ws where x: "x = (f, sum_list (map (\<lambda>w. of_nat (word_hits w ws)) query))"
      "(f, ws) \<in> set (documents texts fs)" "\<forall>w \<in> set query. 0 < word_hits w ws" by blast
    obtain s where s: "f \<in> set fs" "texts f = Some s" "plain_text s" "ws = words_of s" using x(2) docs by blast
    have "\<forall>w \<in> set query. 0 < times_in w s" using x(3) hits [OF s(1,2)] s(4) by simp
    then show "x \<in> found_in texts fs query" unfolding x(1) s(4) sum [OF s(1,2)] found_in_def using s(1-3) by blast
  next
    fix x assume "x \<in> found_in texts fs query"
    then obtain f s where x: "x = (f, sum_list (map (\<lambda>w. of_nat (times_in w s)) query))" "f \<in> set fs"
      "texts f = Some s" "plain_text s" "\<forall>w \<in> set query. 0 < times_in w s" unfolding found_in_def by blast
    obtain w where "w \<in> set query" using q by (meson list.set_sel(1))
    then have "\<exists>i. is_word_at s w i" using x(5) times_in_pos by blast
    then have "(f, words_of s) \<in> set (documents texts fs)" unfolding docs using x(2-4) by blast
    moreover have "\<forall>w \<in> set query. 0 < word_hits w (words_of s)" using hits x(2,3,5) by simp
    ultimately show "x \<in> ?A" unfolding x(1) sum [OF x(2,3), symmetric] by blast
  qed
qed

lemma answer_right:
  assumes a: "answer (documents texts fs) query out" and q: "query \<noteq> []" and keys: "\<forall>w \<in> set query. own_key texts fs w"
  shows "right_answer texts fs query out"
proof -
  obtain rs where rs: "out = map (\<lambda>(f, r). Search_Hit f r) rs" "distinct (map fst rs)" "set rs = found_in texts fs query"
    "sorted_wrt (\<lambda>x y. snd y \<le> snd x) rs" using a unfolding answer_def found_in_words [OF q keys] by blast
  have "found_in texts fs query = {}" if "w \<in> set query" "map tolower w \<noteq> w" for w
    using that times_in_capital [OF that(2)] unfolding found_in_def by fastforce
  then have "out = []" if "w \<in> set query" "map tolower w \<noteq> w" for w
    using that rs(1,3) by simp
  then show ?thesis using rs unfolding right_answer_def by auto
qed

lemma answers_right:
  "answers (documents texts fs) qs out \<Longrightarrow> \<forall>q \<in> set qs. q \<noteq> [] \<and> (\<forall>w \<in> set q. own_key texts fs w) \<Longrightarrow>
   right_answers texts fs qs out"
proof (induction qs arbitrary: out)
  case (Cons q qs)
  then obtain out1 out2 where o: "out = Enter_Query # out1 @ out2" "answer (documents texts fs) q out1"
    "answers (documents texts fs) qs out2" by auto
  from answer_right [OF o(2)] Cons.IH [OF o(3)] Cons.prems(2) o(1) show ?case by auto
qed simp

lemma print_loop_ok:
  assumes l: "ll_inv l" and dt: "dt_rep dt names"
  shows "it_at l it i \<Longrightarrow> length (ll_list l) - i \<le> fuel \<Longrightarrow> never_fails m \<Longrightarrow>
     \<forall>sr \<in> set (ll_list l). 0 < unat (sr_docid sr) \<and> unat (sr_docid sr) \<le> length names \<Longrightarrow>
     \<exists>m'. print_loop fuel m l dt it = Inr (map (\<lambda>sr. Search_Hit (names ! (unat (sr_docid sr) - 1)) (sr_rank sr))
         (drop i (ll_list l)), m') \<and> never_fails m'"
proof (induction fuel arbitrary: it i m)
  case 0
  then show ?case using it_at_less [of l it i] by simp
next
  case (Suc fuel)
  let ?sr = "ll_list l ! i" and ?out = "\<lambda>sr. Search_Hit (names ! (unat (sr_docid sr) - 1)) (sr_rank sr)"
  have i: "i < length (ll_list l)" using Suc.prems(1) by (rule it_at_less)
  have get: "LLIteratorGetPayload l it = Inr ?sr" using GetPayload_list [OF l Suc.prems(1)] .
  have id: "0 < unat (sr_docid ?sr)" "unat (sr_docid ?sr) \<le> length names" using Suc.prems(4) i by simp_all
  then have nz: "sr_docid ?sr \<noteq> 0" by auto
  then obtain m1 where look: "DTLookupDocID m dt (sr_docid ?sr) = Inr (Some (names ! (unat (sr_docid ?sr) - 1)), m1)" "never_fails m1"
    using DTLookupDocID_ok [OF dt Suc.prems(3) nz] id(2) by auto
  obtain it1 where nx: "LLIteratorNext l it = Inr (Suc i < length (ll_list l), it1)"
    "it_at l it1 (if Suc i < length (ll_list l) then Suc i else i)" using Next_list [OF l Suc.prems(1)] by blast
  have d: "drop i (ll_list l) = ?sr # drop (Suc i) (ll_list l)" using i by (simp add: Cons_nth_drop_Suc)
  show ?case
  proof (cases "Suc i < length (ll_list l)")
    case True
    then have "it_at l it1 (Suc i)" "length (ll_list l) - Suc i \<le> fuel" using nx(2) Suc.prems(2) by simp_all
    from Suc.IH [OF this look(2) Suc.prems(4)] obtain m2 where
      "print_loop fuel m1 l dt it1 = Inr (map ?out (drop (Suc i) (ll_list l)), m2)" "never_fails m2" by blast
    then show ?thesis using get look(1) nx(1) True d by (subst print_loop.simps) simp
  next
    case False
    then show ?thesis using get look nx(1) d by (subst print_loop.simps) simp
  qed
qed

lemma PrintLinkedList_ok:
  assumes l: "ll_inv l" "ll_list l \<noteq> []" and dt: "dt_rep dt names" and m: "never_fails m"
    and ids: "\<forall>sr \<in> set (ll_list l). 0 < unat (sr_docid sr) \<and> unat (sr_docid sr) \<le> length names"
  shows "\<exists>m'. PrintLinkedList m l dt = Inr (map (\<lambda>sr. Search_Hit (names ! (unat (sr_docid sr) - 1)) (sr_rank sr)) (ll_list l), m') \<and>
     never_fails m'"
proof -
  obtain it m1 where it: "LLMakeIterator m l 0 = Inr (Some it, m1)" "never_fails m1" "it_at l it 0"
    using MakeIterator_list [OF l(1), of 0 m] m l(2) by auto
  have "length (ll_list l) - 0 \<le> unat (NumElementsInLinkedList l)"
    by (simp add: NumElementsInLinkedList_def ll_num_eq [OF l(1)])
  from print_loop_ok [OF l(1) dt it(3) this it(2) ids] it(1) show ?thesis by (simp add: PrintLinkedList_def)
qed

text \<open>What the results of a query say about the documents.\<close>

lemma doc_hits_iff:
  "doc_hits docs k d \<noteq> None \<longleftrightarrow>
     0 < unat d \<and> unat d \<le> length docs \<and> with_key k (occurrences (snd (docs ! (unat d - 1)))) \<noteq> []"
  by (auto simp: doc_hits_def split: list.splits)

lemma score_docs:
  assumes "doc_hits docs (str_key w) d \<noteq> None"
  shows "score (doc_hits docs) (str_key w) d = of_nat (word_hits w (snd (docs ! (unat d - 1))))"
proof -
  have "doc_hits docs (str_key w) d = Some (map snd (with_key (str_key w) (occurrences (snd (docs ! (unat d - 1))))))"
    using assms by (auto simp: doc_hits_def split: if_splits list.splits)
  then show ?thesis by (simp add: score_def word_hits_def)
qed

definition hit_docs :: "document list \<Rightarrow> string list \<Rightarrow> DocID_t set" where
  "hit_docs docs query = {d. \<forall>k \<in> set (map str_key query). doc_hits docs k d \<noteq> None}"

lemma hit_docs_iff:
  assumes "query \<noteq> []"
  shows "d \<in> hit_docs docs query \<longleftrightarrow> 0 < unat d \<and> unat d \<le> length docs \<and>
     (\<forall>w \<in> set query. 0 < word_hits w (snd (docs ! (unat d - 1))))"
proof -
  have "d \<in> hit_docs docs query \<longleftrightarrow> (\<forall>w \<in> set query. doc_hits docs (str_key w) d \<noteq> None)"
    by (simp add: hit_docs_def del: not_None_eq)
  moreover have "\<exists>w. w \<in> set query" using assms by (cases query) auto
  ultimately show ?thesis unfolding doc_hits_iff word_hits_def length_greater_0_conv by blast
qed

definition ranked :: "document list \<Rightarrow> string list \<Rightarrow> (string \<times> HWSize_t) set" where
  "ranked docs query = {(f, sum_list (map (\<lambda>w. of_nat (word_hits w ws)) query)) | f ws.
                        (f, ws) \<in> set docs \<and> (\<forall>w \<in> set query. 0 < word_hits w ws)}"

lemma ranked_image:
  assumes q: "query \<noteq> []" and n: "length docs < 2 ^ 32"
  shows "ranked docs query = (\<lambda>d. (fst (docs ! (unat d - 1)), sr_rank (result_of (doc_hits docs) (map str_key query) d))) `
    hit_docs docs query" (is "_ = ?g ` _")
proof (rule set_eqI, rule iffI)
  have g: "?g d = (fst (docs ! (unat d - 1)), sum_list (map (\<lambda>w. of_nat (word_hits w (snd (docs ! (unat d - 1))))) query))"
    if "d \<in> hit_docs docs query" for d
  proof -
    have "score (doc_hits docs) (str_key w) d = of_nat (word_hits w (snd (docs ! (unat d - 1))))" if "w \<in> set query" for w
      by (rule score_docs) (use \<open>d \<in> hit_docs docs query\<close> that in \<open>auto simp: hit_docs_def\<close>)
    then show ?thesis by (simp add: result_of_def comp_def cong: map_cong)
  qed
  {
    fix x assume "x \<in> ranked docs query"
    then obtain f ws where x: "x = (f, sum_list (map (\<lambda>w. of_nat (word_hits w ws)) query))" "(f, ws) \<in> set docs"
      "\<forall>w \<in> set query. 0 < word_hits w ws" by (auto simp: ranked_def)
    then obtain i where i: "i < length docs" "docs ! i = (f, ws)" by (auto simp: in_set_conv_nth)
    have "unat (of_nat (Suc i) :: DocID_t) = Suc i" using i n by (intro unat_docid) simp
    then obtain d :: DocID_t where u: "unat d = Suc i" by blast
    have d: "d \<in> hit_docs docs query" unfolding hit_docs_iff [OF q] u using i x(3) by simp
    have e: "docs ! (unat d - 1) = (f, ws)" using u i by simp
    have "?g d = x" by (rule trans [OF g [OF d]]) (simp only: e fst_conv snd_conv x(1))
    then show "x \<in> ?g ` hit_docs docs query" by (rule image_eqI [OF sym]) (rule d)
  next
    fix x assume "x \<in> ?g ` hit_docs docs query"
    then obtain d where d: "d \<in> hit_docs docs query" "x = ?g d" by blast
    have i: "unat d - 1 < length docs" "\<forall>w \<in> set query. 0 < word_hits w (snd (docs ! (unat d - 1)))"
      using d(1) unfolding hit_docs_iff [OF q] by auto
    then have "(fst (docs ! (unat d - 1)), snd (docs ! (unat d - 1))) \<in> set docs" by simp
    then show "x \<in> ranked docs query" using i(2) unfolding d(2) g [OF d(1)] ranked_def by blast
  }
qed

lemma results_ranked:
  assumes q: "query \<noteq> []" and n: "length docs < 2 ^ 32" and names: "distinct (map fst docs)"
    and r: "results_for (doc_hits docs) (map str_key query) xs"
  defines "rs \<equiv> map (\<lambda>sr. (map fst docs ! (unat (sr_docid sr) - 1), sr_rank sr)) xs"
  shows "distinct (map fst rs)" "set rs = ranked docs query"
    "\<forall>sr \<in> set xs. 0 < unat (sr_docid sr) \<and> unat (sr_docid sr) \<le> length (map fst docs)"
proof -
  let ?name = "\<lambda>d. map fst docs ! (unat d - 1)"
  have xs: "set xs = result_of (doc_hits docs) (map str_key query) ` hit_docs docs query" "distinct (map sr_docid xs)"
    using r by (simp_all add: results_for_def hit_docs_def)
  have ids: "sr_docid sr \<in> hit_docs docs query" if "sr \<in> set xs" for sr using that xs(1) by auto
  then show valid: "\<forall>sr \<in> set xs. 0 < unat (sr_docid sr) \<and> unat (sr_docid sr) \<le> length (map fst docs)"
    using hit_docs_iff [OF q] by simp
  have "inj_on ?name (set (map sr_docid xs))"
  proof (rule inj_onI)
    fix d e assume d: "d \<in> set (map sr_docid xs)" "e \<in> set (map sr_docid xs)" "?name d = ?name e"
    then have v: "0 < unat d" "unat d \<le> length docs" "0 < unat e" "unat e \<le> length docs" using valid by auto
    then have "unat d - 1 = unat e - 1"
      using d(3) nth_eq_iff_index_eq [OF names, of "unat d - 1" "unat e - 1"] by simp
    then have "unat d = unat e" using v by linarith
    then show "d = e" by (simp add: word_unat_eq_iff)
  qed
  then have "distinct (map ?name (map sr_docid xs))" using xs(2) unfolding distinct_map [of ?name] by blast
  then show "distinct (map fst rs)" by (simp add: rs_def comp_def)
  have "set rs = (\<lambda>d. (?name d, sr_rank (result_of (doc_hits docs) (map str_key query) d))) ` hit_docs docs query"
    unfolding rs_def set_map xs(1) image_image by simp
  also have "\<dots> = ranked docs query"
    unfolding ranked_image [OF q n] by (rule image_cong) (auto simp: hit_docs_iff [OF q])
  finally show "set rs = ranked docs query" .
qed

lemma answer_results:
  assumes q: "query \<noteq> []" and n: "length docs < 2 ^ 32" and names: "distinct (map fst docs)"
    and r: "results_for (doc_hits docs) (map str_key query) xs" and s: "sorted_wrt (\<lambda>x y. sr_rank y \<le> sr_rank x) xs"
  shows "answer docs query (map (\<lambda>sr. Search_Hit (map fst docs ! (unat (sr_docid sr) - 1)) (sr_rank sr)) xs)"
    "\<forall>sr \<in> set xs. 0 < unat (sr_docid sr) \<and> unat (sr_docid sr) \<le> length (map fst docs)"
proof -
  let ?rs = "map (\<lambda>sr. (map fst docs ! (unat (sr_docid sr) - 1), sr_rank sr)) xs"
  note rr = results_ranked [OF q n names r]
  show "\<forall>sr \<in> set xs. 0 < unat (sr_docid sr) \<and> unat (sr_docid sr) \<le> length (map fst docs)" by (rule rr(3))
  have "sorted_wrt (\<lambda>x y. snd y \<le> snd x) ?rs" using s by (simp add: sorted_wrt_map)
  then show "answer docs query (map (\<lambda>sr. Search_Hit (map fst docs ! (unat (sr_docid sr) - 1)) (sr_rank sr)) xs)"
    unfolding answer_def using rr(1,2) unfolding ranked_def by (intro exI [of _ ?rs]) (simp add: comp_def)
qed

lemma answer_none:
  assumes "query \<noteq> []" "length docs < 2 ^ 32" "\<forall>d. \<exists>w \<in> set query. doc_hits docs (str_key w) d = None"
  shows "answer docs query []"
proof -
  have "hit_docs docs query = {}" using assms(3) by (auto simp: hit_docs_def)
  then have "ranked docs query = {}" using ranked_image [OF assms(1,2)] by simp
  then show ?thesis unfolding answer_def ranked_def [symmetric] by (intro exI [of _ "[]"]) simp
qed

lemma few_hit_docs: "card {d. doc_hits docs k d \<noteq> None} \<le> length docs"
proof -
  have "card {d. doc_hits docs k d \<noteq> None} = card (unat ` {d. doc_hits docs k d \<noteq> None})"
    by (rule card_image [symmetric]) (simp add: inj_on_def word_unat_eq_iff)
  also have "\<dots> \<le> card {1..length docs}"
    by (rule card_mono) (auto simp: doc_hits_iff simp del: not_None_eq)
  finally show ?thesis by simp
qed

section \<open>One query\<close>

lemma copy_tokens_ok:
  "length toks \<le> n \<Longrightarrow> never_fails m \<Longrightarrow> \<exists>m'. copy_tokens n m toks = Inr (toks, m') \<and> never_fails m'"
proof (induction toks arbitrary: n m)
  case (Cons tok toks)
  obtain m1 where m1: "malloc m = (True, m1)" "never_fails m1" using Cons.prems(2) by (rule never_fails_malloc)
  obtain k where k: "n = Suc k" "length toks \<le> k" using Cons.prems(1) by (cases n) auto
  from Cons.IH [OF k(2) m1(2)] m1(1) k(1) show ?case by auto
qed simp

lemma free_query_ok: "i + n = length query \<Longrightarrow> free_query n i query = Inr ()"
  by (induction n arbitrary: i) simp_all

lemma shell_round_ok:
  assumes rep: "crawl_rep c docs" and q: "query \<noteq> []" "\<forall>w \<in> set query. is_word w" "length (join_words query) < 255"
    and m: "never_fails m" and docs31: "length docs < 2 ^ 31"
  shows "\<exists>out m'. shell_round m c (join_words query @ [CHR 0x0A]) = Inr (out, m') \<and> never_fails m' \<and> answer docs query out"
proof -
  let ?l = "join_words query @ [CHR 0x0A]"
  have clean: "NUL \<notin> set ?l" using join_words_clean(1) [OF q(2)] by (simp add: NUL_def)
  then have buf: "takeWhile (\<lambda>ch. ch \<noteq> NUL) ?l = ?l" by (auto simp: takeWhile_eq_all_conv)
  have num: "length (tokens ?l) = length query" using tokens_newline [OF q(1,2)] q(1) by (cases query rule: rev_cases) simp_all
  obtain m1 where m1: "malloc m = (True, m1)" "never_fails m1" using m by (rule never_fails_malloc)
  obtain m2 where m2: "copy_tokens (length query) m1 query = Inr (query, m2)" "never_fails m2"
    using copy_tokens_ok [of query "length query" m1] m1(2) by auto
  have few: "length query < 256" using join_words_length [OF q(2)] q(3) by simp
  have dt: "dt_rep (cr_doctable c) (map fst docs)" and inv: "mi_inv (cr_index c)" "hits (cr_index c) = doc_hits docs"
    using rep by (simp_all add: crawl_rep_def)
  have docs: "length docs < 2 ^ 32" using dt by (simp add: dt_rep_def)
  have "distinct (map str_key (map fst docs))" using dt unfolding dt_rep_def by blast
  then have names: "distinct (map fst docs)" unfolding distinct_map [of str_key] by blast
  obtain r m3 where p: "MIProcessQuery m2 (cr_index c) query (of_nat (length query)) = Inr (r, m3)" "never_fails m3"
    "case r of None \<Rightarrow> \<forall>d. \<exists>w \<in> set query. doc_hits docs (str_key w) d = None
      | Some l \<Rightarrow> ll_inv l \<and> ll_list l \<noteq> [] \<and> results_for (doc_hits docs) (map str_key query) (ll_list l) \<and>
          sorted_wrt (\<lambda>x y. sr_rank y \<le> sr_rank x) (ll_list l)"
    using MIProcessQuery_ok [OF inv(1) m2(2) q(1) few] few_hit_docs docs31 unfolding inv(2) by (meson le_less_trans)
  show ?thesis
  proof (cases r)
    case None
    have "shell_round m c ?l = Inr ([], m3)"
      using m1(1) m2(1) p(1) None free_query_ok [of 0 "length query" query]
      by (simp add: shell_round_def Let_def buf num tokens_join [OF q(2)])
    moreover have "answer docs query []" using p(3) None by (intro answer_none [OF q(1) docs]) simp
    ultimately show ?thesis using p(2) by blast
  next
    case (Some l)
    then have l: "ll_inv l" "ll_list l \<noteq> []" "results_for (doc_hits docs) (map str_key query) (ll_list l)"
      "sorted_wrt (\<lambda>x y. sr_rank y \<le> sr_rank x) (ll_list l)" using p(3) by simp_all
    note ans = answer_results [OF q(1) docs names l(3,4)]
    obtain m4 where pr: "PrintLinkedList m3 l (cr_doctable c) =
        Inr (map (\<lambda>sr. Search_Hit (map fst docs ! (unat (sr_docid sr) - 1)) (sr_rank sr)) (ll_list l), m4)" "never_fails m4"
      using PrintLinkedList_ok [OF l(1,2) dt p(2) ans(2)] by blast
    have "shell_round m c ?l =
        Inr (map (\<lambda>sr. Search_Hit (map fst docs ! (unat (sr_docid sr) - 1)) (sr_rank sr)) (ll_list l), m4)"
      using m1(1) m2(1) p(1) Some pr(1) free_query_ok [of 0 "length query" query] Free_list [OF l(1)]
      by (simp add: shell_round_def Let_def buf num tokens_join [OF q(2)])
    then show ?thesis using ans(1) pr(2) by blast
  qed
qed

section \<open>The whole input\<close>

definition query_line :: "string list \<Rightarrow> string" where
  "query_line query = join_words query @ [CHR 0x0A]"

definition good_query :: "string list \<Rightarrow> bool" where
  "good_query query \<longleftrightarrow> query \<noteq> [] \<and> (\<forall>w \<in> set query. is_word w) \<and> length (join_words query) < 255"

lemma shell_loop_ok:
  assumes rep: "crawl_rep c docs" and few: "length docs < 2 ^ 31"
  shows "\<forall>q \<in> set queries. good_query q \<Longrightarrow> never_fails m \<Longrightarrow>
    \<exists>out m'. shell_loop m c (concat (map query_line queries)) = Inr (out, m') \<and> never_fails m' \<and> answers docs queries out"
proof (induction queries arbitrary: m)
  case Nil
  have "shell_loop m c [] = Inr ([Enter_Query], m)" by (subst shell_loop.simps) (simp add: fgets_def)
  then show ?case using Nil by simp
next
  case (Cons q qs)
  have q: "q \<noteq> []" "\<forall>w \<in> set q. is_word w" "length (join_words q) < 255" using Cons.prems(1) by (simp_all add: good_query_def)
  let ?rest = "concat (map query_line qs)"
  have "read_line 255 (query_line q @ ?rest) = (query_line q, ?rest)"
    using read_line_newline [OF join_words_clean(2) [OF q(2)] q(3), of ?rest] by (simp add: query_line_def)
  then have line: "fgets 256 (query_line q @ ?rest) = Some (query_line q, ?rest)" by (simp add: fgets_def query_line_def)
  obtain out1 m1 where 1: "shell_round m c (query_line q) = Inr (out1, m1)" "never_fails m1" "answer docs q out1"
    using shell_round_ok [OF rep q Cons.prems(2) few] unfolding query_line_def by blast
  obtain out2 m2 where 2: "shell_loop m1 c ?rest = Inr (out2, m2)" "never_fails m2" "answers docs qs out2"
    using Cons.IH [OF _ 1(2)] Cons.prems(1) by auto
  have "shell_loop m c (concat (map query_line (q # qs))) = Inr (Enter_Query # out1 @ out2, m2)"
    using line 1(1) 2(1) by (subst shell_loop.simps) simp
  then show ?case using 1(3) 2(2,3) by auto
qed

lemma FreeDocTable_ok:
  assumes "dt_rep t names"
  shows "\<exists>r. FreeDocTable t = Inr r"
  using assms Free_ok [of "docid_to_docname t"] Free_ok [of "docname_to_docid t"]
  by (simp add: FreeDocTable_def dt_rep_def)

section \<open>Properties\<close>

text \<open>
  An empty line, or one of spaces only, counts as one word and is copied as none: the
  shell hands \<open>MIProcessQuery\<close> a word it never set.
\<close>

theorem blank_line_reads_unset_word:
  assumes "never_fails m"
  shows "shell_round m c (replicate n (CHR '' '') @ [CHR 0x0A]) = Inl Undefined_Behaviour"
proof -
  let ?l = "replicate n (CHR '' '')"
  obtain m1 where m1: "malloc m = (True, m1)" "never_fails m1" using assms by (rule never_fails_malloc)
  obtain m2 where m2: "malloc m1 = (True, m2)" using m1(2) by (rule never_fails_malloc)
  have buf: "takeWhile (\<lambda>ch. ch \<noteq> NUL) (?l @ [CHR 0x0A]) = ?l @ [CHR 0x0A]"
    by (induction n) (simp_all add: NUL_def)
  have "dropWhile (\<lambda>c. c = CHR '' '') (?l @ [CHR 0x0A]) = [CHR 0x0A]" "dropWhile (\<lambda>c. c = CHR '' '') ?l = []"
    by (induction n) simp_all
  then have "strtok_space (?l @ [CHR 0x0A]) = Some ([CHR 0x0A], [])" "strtok_space ?l = None"
    by (simp_all add: strtok_space_def)
  then have "tokens (?l @ [CHR 0x0A]) = [[CHR 0x0A]]" "tokens ?l = []"
    by (subst tokens.simps, simp)+
  then show ?thesis using m1(1) m2
    by (simp add: shell_round_def Let_def buf MIProcessQuery_def AllocateLinkedList_def index_res_def)
qed

lemma blank_line_reads_unset_word_witness: "\<forall>c. shell_round [] c [CHR '' '', CHR 0x0A] = Inl Undefined_Behaviour"
  using blank_line_reads_unset_word [of "[]" _ 1] by simp

text \<open>
  When the input ends without a newline, the last character of the last word is cut
  off in its place: the shell answers the query for the shorter word.
\<close>

theorem unterminated_line_loses_character:
  assumes "is_word w" "2 \<le> length w"
  shows "shell_round m c w = shell_round m c (butlast w @ [CHR 0x0A])"
proof -
  obtain v ch where v: "w = v @ [ch]" using assms(2) by (cases w rule: rev_cases) auto
  then have "v \<noteq> []" using assms(2) by (cases v) simp_all
  then have w: "is_word (butlast w)" "w \<noteq> []" using assms(1) v by (simp_all add: is_word_def)
  have "\<forall>ch \<in> set w. ch \<noteq> NUL" "\<forall>ch \<in> set (butlast w @ [CHR 0x0A]). ch \<noteq> NUL"
    using assms(1) w(1) by (auto simp: is_word_def NUL_def)
  then have buf: "takeWhile (\<lambda>ch. ch \<noteq> NUL) w = w"
    "takeWhile (\<lambda>ch. ch \<noteq> NUL) (butlast w @ [CHR 0x0A]) = butlast w @ [CHR 0x0A]"
    by (simp_all only: takeWhile_eq_all_conv)
  have "tokens w = [w]" "tokens (butlast w) = [butlast w]"
    "tokens (butlast w @ [CHR 0x0A]) = [butlast w @ [CHR 0x0A]]"
    using tokens_join [of "[w]"] tokens_join [of "[butlast w]"] tokens_newline [of "[butlast w]"] assms(1) w(1) by simp_all
  then show ?thesis using w(2) by (simp add: shell_round_def Let_def buf)
qed

lemma unterminated_line_loses_character_witness: "\<forall>c. shell_round [] c ''cats'' = shell_round [] c (''cat'' @ [CHR 0x0A])"
  using unterminated_line_loses_character [of "''cats''" "[]"] by (simp add: is_word_def NUL_def)

end
