(* ===== verification/FileLayout.thy ===== *)
theory FileLayout
  imports MemIndex
begin

text \<open>
  The layout of an index file: the byte order conversions and the checksum of
  src/hw3/fileindexutil.h and fileindexutil.cc, and the packed structures of
  src/hw3/filelayout.h as they lie in memory and on disk.

  The host is little-endian, as the x86-64 machines the program is built for are; a structure
  is written to the file as it lies in memory, after \<open>toDiskFormat\<close> has changed its fields.
\<close>

section \<open>Integers in memory\<close>

primrec int_bytes :: "nat \<Rightarrow> int \<Rightarrow> byte list" where
  "int_bytes 0 x = []"
| "int_bytes (Suc n) x = of_int (x mod 256) # int_bytes n (x div 256)"

fun le_int :: "byte list \<Rightarrow> int" where
  "le_int [] = 0"
| "le_int (b # bs) = uint b + 256 * le_int bs"

definition mem16 :: "16 word \<Rightarrow> byte list" where
  "mem16 w = int_bytes 2 (uint w)"

definition mem32 :: "32 word \<Rightarrow> byte list" where
  "mem32 w = int_bytes 4 (uint w)"

definition mem64 :: "64 word \<Rightarrow> byte list" where
  "mem64 w = int_bytes 8 (uint w)"

text \<open>
  \<open>htons\<close> and \<open>htonl\<close> of the C library reverse the bytes of their argument, and so do
  \<open>ntohs\<close> and \<open>ntohl\<close>.
\<close>

definition htons :: "16 word \<Rightarrow> 16 word" where
  "htons w = of_int (le_int (rev (mem16 w)))"

definition htonl :: "32 word \<Rightarrow> 32 word" where
  "htonl w = of_int (le_int (rev (mem32 w)))"

text \<open>The macros for 64 bits.\<close>

definition ntohll :: "64 word \<Rightarrow> 64 word" where
  "ntohll x =
     (let low = ucast (drop_bit 32 (push_bit 32 x)) :: 32 word; high = ucast (drop_bit 32 x) :: 32 word in
      push_bit 32 (ucast (htonl low)) OR ucast (htonl high))"

definition htonll :: "64 word \<Rightarrow> 64 word" where
  "htonll x = ntohll x"

section \<open>CRC32\<close>

fun CRC32Reflect_loop :: "nat \<Rightarrow> 32 word \<Rightarrow> 32 word \<Rightarrow> 32 word" where
  "CRC32Reflect_loop 0 reflectme val = val"
| "CRC32Reflect_loop (Suc n) reflectme val =
     CRC32Reflect_loop n (drop_bit 1 reflectme)
       (if reflectme AND 1 \<noteq> 0 then val OR push_bit n 1 else val)"

text \<open>
  \<open>c - position\<close> is the number of rounds that are left after this one.
\<close>

definition CRC32Reflect :: "32 word \<Rightarrow> nat \<Rightarrow> 32 word" where
  "CRC32Reflect reflectme c = CRC32Reflect_loop c reflectme 0"

definition polynomial :: "32 word" where
  "polynomial = 0x04C11DB7"

fun table_loop :: "nat \<Rightarrow> 32 word \<Rightarrow> 32 word" where
  "table_loop 0 entry = entry"
| "table_loop (Suc n) entry =
     table_loop n (push_bit 1 entry XOR (if entry AND push_bit 31 1 \<noteq> 0 then polynomial else 0))"

definition crc_entry :: "32 word \<Rightarrow> 32 word" where
  "crc_entry codes = CRC32Reflect (table_loop 8 (push_bit 24 (CRC32Reflect codes 8))) 32"

text \<open>\<open>Initialize\<close> fills the static table; nothing changes it afterwards.\<close>

definition crc_table :: "32 word list" where
  "crc_table = map (\<lambda>codes. crc_entry (of_nat codes)) [0..<256]"

record crc32 =
  crc_state :: "32 word"
  crc_finalized :: bool

definition new_crc32 :: crc32 where
  "new_crc32 = \<lparr>crc_state = 0xFFFFFFFF, crc_finalized = False\<rparr>"

definition FoldByteIntoCRC :: "crc32 \<Rightarrow> byte \<Rightarrow> crc32 res" where
  "FoldByteIntoCRC c nextbyte =
     bindE (Verify333 (\<not> crc_finalized c)) (\<lambda>_.
     bindE (index_res crc_table (unat ((crc_state c AND 0xFF) XOR ucast nextbyte))) (\<lambda>entry.
     Inr (c\<lparr>crc_state := drop_bit 8 (crc_state c) XOR entry\<rparr>)))"

definition GetFinalCRC :: "crc32 \<Rightarrow> 32 word \<times> crc32" where
  "GetFinalCRC c =
     (let c = (if \<not> crc_finalized c
               then c\<lparr>crc_finalized := True, crc_state := crc_state c XOR 0xffffffff\<rparr> else c)
      in (crc_state c, c))"

fun fold_bytes :: "crc32 \<Rightarrow> byte list \<Rightarrow> crc32 res" where
  "fold_bytes c [] = Inr c"
| "fold_bytes c (b # bs) = bindE (FoldByteIntoCRC c b) (\<lambda>c. fold_bytes c bs)"

section \<open>The structures of an index file\<close>

type_synonym IndexFileOffset_t = "32 word"

definition MAGIC_NUMBER :: "32 word" where
  "MAGIC_NUMBER = 0xCAFEF00D"

record index_file_header =
  magic_number :: "32 word"
  checksum :: "32 word"
  doctable_size :: HWSize_t
  index_size :: HWSize_t

definition header_disk :: "index_file_header \<Rightarrow> byte list" where
  "header_disk h = mem32 (htonl (magic_number h)) @ mem32 (htonl (checksum h)) @
     mem32 (htonl (doctable_size h)) @ mem32 (htonl (index_size h))"

definition bucket_list_header_disk :: "HWSize_t \<Rightarrow> byte list" where
  "bucket_list_header_disk num_buckets = mem32 (htonl num_buckets)"

definition bucket_rec_disk :: "HWSize_t \<Rightarrow> IndexFileOffset_t \<Rightarrow> byte list" where
  "bucket_rec_disk chain_len bucket_position = mem32 (htonl chain_len) @ mem32 (htonl bucket_position)"

definition element_position_rec_disk :: "IndexFileOffset_t \<Rightarrow> byte list" where
  "element_position_rec_disk element_position = mem32 (htonl element_position)"

definition doctable_element_header_disk :: "DocID_t \<Rightarrow> 16 word \<Rightarrow> byte list" where
  "doctable_element_header_disk docid filename_len = mem64 (htonll docid) @ mem16 (htons filename_len)"

definition worddocset_header_disk :: "16 word \<Rightarrow> HWSize_t \<Rightarrow> byte list" where
  "worddocset_header_disk word_len doctable_len = mem16 (htons word_len) @ mem32 (htonl doctable_len)"

definition docid_element_header_disk :: "DocID_t \<Rightarrow> HWSize_t \<Rightarrow> byte list" where
  "docid_element_header_disk docid num_positions = mem64 (htonll docid) @ mem32 (htonl num_positions)"

definition docid_element_position_disk :: "DocPositionOffset_t \<Rightarrow> byte list" where
  "docid_element_position_disk position = mem32 (htonl position)"

text \<open>Reading a field back: the bytes of the file as an integer of the host, converted.\<close>

definition host16 :: "byte list \<Rightarrow> 16 word" where
  "host16 bs = htons (of_int (le_int bs))"

definition host32 :: "byte list \<Rightarrow> 32 word" where
  "host32 bs = htonl (of_int (le_int bs))"

definition host64 :: "byte list \<Rightarrow> 64 word" where
  "host64 bs = ntohll (of_int (le_int bs))"

end
