(* ===== verification/FileLayoutSpec.thy ===== *)
theory FileLayoutSpec
  imports FileLayout
begin

text \<open>
  Facts about the layout of an index file: every field reads back as it was written, and the
  checksum driven by the table is the bitwise CRC.
\<close>

section \<open>Integers in memory\<close>

lemma length_int_bytes [simp]: "length (int_bytes n x) = n"
  by (induction n arbitrary: x) simp_all

lemma le_int_range: "0 \<le> le_int bs \<and> le_int bs < 256 ^ length bs"
proof (induction bs)
  case (Cons b bs)
  have "0 \<le> uint b" "uint b < 256" using uint_lt2p [of b] by simp_all
  then show ?case using Cons by simp
qed simp

lemma le_int_bytes: "le_int (int_bytes n x) = x mod 256 ^ n"
proof (induction n arbitrary: x)
  case (Suc n)
  have "uint (of_int (x mod 256) :: byte) = x mod 256" by (simp add: unsigned_of_int take_bit_eq_mod)
  then show ?case using Suc by (simp add: zmod_zmult2_eq)
qed simp

lemma int_bytes_le: "length bs = n \<Longrightarrow> int_bytes n (le_int bs) = bs"
proof (induction bs arbitrary: n)
  case (Cons b bs)
  have b: "0 \<le> uint b" "uint b < 256" using uint_lt2p [of b] by simp_all
  then have "(uint b + 256 * le_int bs) mod 256 = uint b" "(uint b + 256 * le_int bs) div 256 = le_int bs"
    by simp_all
  then show ?case using Cons by (cases n) simp_all
qed simp

lemma uint_of_le:
  assumes "256 ^ length bs \<le> (2 :: int) ^ LENGTH('a::len)"
  shows "uint (of_int (le_int bs) :: 'a word) = le_int bs"
proof -
  have "0 \<le> le_int bs" "le_int bs < 2 ^ LENGTH('a)" using le_int_range [of bs] assms by auto
  then show ?thesis by (simp add: unsigned_of_int take_bit_int_eq_self)
qed

lemma length_mem [simp]: "length (mem16 w) = 2" "length (mem32 v) = 4" "length (mem64 u) = 8"
  by (simp_all add: mem16_def mem32_def mem64_def)

lemma mem_of_le:
  "length bs = 2 \<Longrightarrow> mem16 (of_int (le_int bs)) = bs"
  "length bs = 4 \<Longrightarrow> mem32 (of_int (le_int bs)) = bs"
  "length bs = 8 \<Longrightarrow> mem64 (of_int (le_int bs)) = bs"
  by (simp_all add: mem16_def mem32_def mem64_def uint_of_le int_bytes_le)

lemma le_mem: "le_int (mem16 w) = uint w" "le_int (mem32 v) = uint v" "le_int (mem64 u) = uint u"
  using uint_lt2p [of w] uint_lt2p [of v] uint_lt2p [of u]
  by (simp_all add: mem16_def mem32_def mem64_def le_int_bytes)

lemma htons_bytes: "mem16 (htons w) = rev (mem16 w)"
  by (simp add: htons_def mem_of_le)

lemma htonl_bytes: "mem32 (htonl w) = rev (mem32 w)"
  by (simp add: htonl_def mem_of_le)

lemma le_int_append: "le_int (xs @ ys) = le_int xs + 256 ^ length xs * le_int ys"
  by (induction xs) (simp_all add: algebra_simps)

lemma int_bytes_append: "int_bytes (m + n) x = int_bytes m x @ int_bytes n (x div 256 ^ m)"
  by (induction m arbitrary: x) (simp_all add: zdiv_zmult2_eq)

lemma int_bytes_mod: "n \<le> m \<Longrightarrow> int_bytes n (x mod 256 ^ m) = int_bytes n x"
proof (induction n arbitrary: x m)
  case (Suc n)
  then obtain k where m: "m = Suc k" "n \<le> k" by (cases m) auto
  have "x mod 256 ^ m mod 256 = x mod 256" by (simp add: m mod_mod_cancel)
  moreover have "x mod 256 ^ m div 256 = x div 256 mod 256 ^ k" by (simp add: m zmod_zmult2_eq)
  ultimately show ?case using Suc.IH [OF m(2)] by simp
qed simp

lemma uint_ucast_32: "uint (ucast (a :: 32 word) :: 64 word) = uint a"
  using uint_lt2p [of a] by (simp add: unsigned_ucast_eq take_bit_int_eq_self)

lemma uint_high_half: "uint (push_bit 32 (ucast (a :: 32 word)) :: 64 word) = uint a * 2 ^ 32"
proof -
  have "uint (push_bit 32 (ucast a) :: 64 word) = take_bit LENGTH(64) (push_bit 32 (uint (ucast a :: 64 word)))"
    by (rule unsigned_push_bit_eq)
  also have "\<dots> = push_bit 32 (uint a)"
    unfolding uint_ucast_32 using uint_lt2p [of a] by (intro take_bit_int_eq_self) (simp_all add: push_bit_eq_mult)
  finally show ?thesis by (simp only: push_bit_eq_mult)
qed

lemma uint_halves:
  fixes a b :: "32 word"
  shows "uint (push_bit 32 (ucast a) OR ucast b :: 64 word) = uint a * 2 ^ 32 + uint b"
proof -
  have sum: "push_bit 32 (ucast a) OR ucast b = (push_bit 32 (ucast a) + ucast b :: 64 word)"
    by (rule disjunctive_add [symmetric]) (auto simp: bit_simps dest: bit_imp_le_length)
  have "uint (push_bit 32 (ucast a) :: 64 word) + uint (ucast b :: 64 word) < 2 ^ LENGTH(64)"
    unfolding uint_ucast_32 uint_high_half using uint_lt2p [of a] uint_lt2p [of b] by simp
  from uint_add_lem [THEN iffD1, OF this] show ?thesis unfolding sum by (simp only: uint_ucast_32 uint_high_half)
qed

lemma ntohll_bytes: "mem64 (ntohll x) = rev (mem64 x)"
proof -
  let ?low = "ucast (drop_bit 32 (push_bit 32 x)) :: 32 word" and ?high = "ucast (drop_bit 32 x) :: 32 word"
  have low: "uint ?low = uint x mod 256 ^ 4"
  proof -
    have "?low = ucast x" by (rule bit_word_eqI) (auto simp: bit_simps)
    then show ?thesis by (simp add: unsigned_ucast_eq take_bit_eq_mod)
  qed
  have high: "uint ?high = uint x div 256 ^ 4"
  proof -
    have "uint (drop_bit 32 x) = drop_bit 32 (uint x)" by (simp only: unsigned_drop_bit_eq) (simp add: bintr_uint)
    then have d: "uint (drop_bit 32 x) = uint x div 256 ^ 4" by (simp only: drop_bit_eq_div) simp
    have "uint x div 256 ^ 4 < 2 ^ 32" "0 \<le> uint x div 256 ^ 4"
      using uint_lt2p [of x] by (simp_all add: div_less_iff_less_mult pos_imp_zdiv_nonneg_iff)
    then show ?thesis unfolding unsigned_ucast_eq d by (simp add: take_bit_int_eq_self)
  qed
  have mem: "mem64 x = mem32 ?low @ mem32 ?high"
    using int_bytes_append [of 4 4 "uint x"] int_bytes_mod [of 4 4 "uint x"] by (simp add: mem64_def mem32_def low high)
  have "uint (ntohll x) = le_int (rev (mem32 ?low)) * 2 ^ 32 + le_int (rev (mem32 ?high))"
    by (simp add: ntohll_def Let_def uint_halves htonl_def uint_of_le)
  also have "\<dots> = le_int (rev (mem64 x))" by (simp add: mem le_int_append)
  finally have "mem64 (ntohll x) = int_bytes 8 (le_int (rev (mem64 x)))" by (simp only: mem64_def)
  then show ?thesis by (simp add: int_bytes_le)
qed

lemma host_mem:
  "host16 (mem16 (htons w)) = w" "host32 (mem32 (htonl v)) = v" "host64 (mem64 (htonll u)) = u"
proof -
  have w: "of_int (le_int (mem16 a)) = a" for a by (simp add: le_mem)
  have v: "of_int (le_int (mem32 a)) = a" for a by (simp add: le_mem)
  have u: "of_int (le_int (mem64 a)) = a" for a by (simp add: le_mem)
  have "mem16 (htons (htons w)) = mem16 w" by (simp add: htons_bytes)
  then have "htons (htons w) = w" using w by metis
  then show "host16 (mem16 (htons w)) = w" by (simp add: host16_def w)
  have "mem32 (htonl (htonl v)) = mem32 v" by (simp add: htonl_bytes)
  then have "htonl (htonl v) = v" using v by metis
  then show "host32 (mem32 (htonl v)) = v" by (simp add: host32_def v)
  have "mem64 (ntohll (ntohll u)) = mem64 u" by (simp add: ntohll_bytes)
  then have "ntohll (ntohll u) = u" using u by metis
  then show "host64 (mem64 (htonll u)) = u" by (simp add: host64_def htonll_def u)
qed

section \<open>The checksum as a bitwise CRC\<close>

text \<open>
  The reference: the reflected CRC-32, one bit at a time.
\<close>

definition crc_step :: "32 word \<Rightarrow> 32 word" where
  "crc_step x = drop_bit 1 x XOR (if bit x 0 then 0xEDB88320 else 0)"

definition crc_byte :: "32 word \<Rightarrow> byte \<Rightarrow> 32 word" where
  "crc_byte x b = (crc_step ^^ 8) (x XOR ucast b)"

definition crc_bytes :: "byte list \<Rightarrow> 32 word" where
  "crc_bytes bs = foldl crc_byte 0xFFFFFFFF bs XOR 0xFFFFFFFF"

lemma and_one_bit: "(x :: 32 word) AND 1 \<noteq> 0 \<longleftrightarrow> bit x 0"
  by (simp add: and_one_eq bit_0 odd_iff_mod_2_eq_one)

lemma bit_reflect_loop:
  "n \<le> 32 \<Longrightarrow> bit (CRC32Reflect_loop n r v) i \<longleftrightarrow> bit v i \<or> i < n \<and> bit r (n - 1 - i)"
proof (induction n arbitrary: r v)
  case (Suc n)
  have "bit (if r AND 1 \<noteq> 0 then v OR push_bit n 1 else v) i \<longleftrightarrow> bit v i \<or> i = n \<and> bit r 0"
    using Suc.prems by (auto simp: and_one_bit bit_simps)
  moreover have "i < n \<Longrightarrow> Suc (n - 1 - i) = n - i" by simp
  ultimately show ?case using Suc by (auto simp: bit_simps less_Suc_eq)
qed simp

lemma bit_reflect: "c \<le> 32 \<Longrightarrow> bit (CRC32Reflect r c) i \<longleftrightarrow> i < c \<and> bit r (c - 1 - i)"
  by (simp add: CRC32Reflect_def bit_reflect_loop)

lemma bit_xor_if: "bit (a XOR (if c then p else 0)) i \<longleftrightarrow> bit a i \<noteq> (c \<and> bit (p :: 32 word) i)"
  by (simp add: bit_simps)

lemma reflect_polynomial: "CRC32Reflect polynomial 32 = 0xEDB88320"
  by code_simp

lemma top_bit: "(e :: 32 word) AND push_bit 31 1 \<noteq> 0 \<longleftrightarrow> bit e 31"
  by (rule bit_iff_and_push_bit_not_eq_0 [symmetric])

lemma bit_push: "bit (push_bit m (e :: 32 word)) i \<longleftrightarrow> m \<le> i \<and> i < 32 \<and> bit e (i - m)"
  by (auto simp: bit_simps)

lemma bit_drop: "bit (drop_bit m (e :: 32 word)) i \<longleftrightarrow> bit e (m + i)"
  by (simp add: bit_simps)

lemma reflect_step:
  "CRC32Reflect (push_bit 1 e XOR (if e AND push_bit 31 1 \<noteq> 0 then polynomial else 0)) 32 =
     crc_step (CRC32Reflect e 32)"
proof (rule bit_word_eqI)
  fix i :: nat
  assume i: "i < LENGTH(32)"
  have p: "bit (0xEDB88320 :: 32 word) i \<longleftrightarrow> bit polynomial (31 - i)"
    unfolding reflect_polynomial [symmetric] using i by (simp add: bit_reflect)
  show "bit (CRC32Reflect (push_bit 1 e XOR (if e AND push_bit 31 1 \<noteq> 0 then polynomial else 0)) 32) i =
        bit (crc_step (CRC32Reflect e 32)) i"
    unfolding crc_step_def top_bit using i
    by (cases "i = 31") (simp_all only: bit_reflect bit_xor_if bit_push bit_drop p, auto simp: polynomial_def)
qed

lemma reflect_table_loop:
  "CRC32Reflect (table_loop n e) 32 = (crc_step ^^ n) (CRC32Reflect e 32)"
  by (induction n arbitrary: e) (simp_all only: table_loop.simps funpow.simps id_apply o_apply reflect_step funpow_swap1)

lemma reflect_high_byte:
  assumes "unat c < 256"
  shows "CRC32Reflect (push_bit 24 (CRC32Reflect c 8)) 32 = c"
proof (rule bit_word_eqI)
  fix i :: nat
  assume i: "i < LENGTH(32)"
  have high: "j < 8" if "bit c j" for j
  proof (rule ccontr)
    assume "\<not> j < 8"
    moreover have "c = take_bit 8 c" using assms by (simp add: word_unat_eq_iff unsigned_take_bit_eq take_bit_nat_eq_self)
    ultimately show False using that bit_take_bit_iff [of 8 c j] by simp
  qed
  have "24 \<le> 31 - i \<longleftrightarrow> i < 8" using i by auto
  then show "bit (CRC32Reflect (push_bit 24 (CRC32Reflect c 8)) 32) i = bit c i"
    using i high by (auto simp: bit_reflect bit_push)
qed

lemma crc_entry_step: "unat c < 256 \<Longrightarrow> crc_entry c = (crc_step ^^ 8) c"
  by (simp only: crc_entry_def reflect_table_loop reflect_high_byte)

lemma crc_step_xor: "crc_step (a XOR b) = crc_step a XOR crc_step b"
  by (rule bit_word_eqI) (auto simp: crc_step_def bit_xor_if bit_simps)

lemma crc_steps_xor: "(crc_step ^^ n) (a XOR b) = (crc_step ^^ n) a XOR (crc_step ^^ n) b"
  by (induction n) (simp_all add: crc_step_xor)

lemma crc_steps_shift: "\<forall>i < n. \<not> bit a i \<Longrightarrow> (crc_step ^^ n) a = drop_bit n a"
proof (induction n arbitrary: a)
  case (Suc n)
  have s: "crc_step a = drop_bit 1 a" using Suc.prems by (simp add: crc_step_def)
  have "(crc_step ^^ n) (drop_bit 1 a) = drop_bit n (drop_bit 1 a)"
    by (rule Suc.IH) (use Suc.prems in \<open>auto simp: bit_simps\<close>)
  then show ?case by (simp only: funpow_Suc_right o_apply s drop_bit_drop_bit) simp
qed simp

lemma xor_cancel: "(a :: 32 word) XOR c = b XOR c \<longleftrightarrow> a = b"
proof
  assume "a XOR c = b XOR c"
  then have "(a XOR c) XOR c = (b XOR c) XOR c" by simp
  then show "a = b" by (simp add: xor.assoc)
qed simp

lemma crc_step_inj: "crc_step a = crc_step b \<Longrightarrow> a = b"
proof -
  assume eq: "crc_step a = crc_step b"
  define d where "d = a XOR b"
  have z: "crc_step d = 0" unfolding d_def crc_step_xor eq by simp
  have high: "\<not> bit d (1 + 31)" using bit_imp_le_length [of d "1 + 31"] by auto
  have top: "bit (0xEDB88320 :: 32 word) 31" by simp
  have "bit (crc_step d) 31 \<longleftrightarrow> bit d (1 + 31) \<noteq> (bit d 0 \<and> bit (0xEDB88320 :: 32 word) 31)"
    unfolding crc_step_def by (simp only: bit_xor_if bit_drop)
  then have "bit (crc_step d) 31 = bit d 0" by (simp only: high top simp_thms)
  then have "\<not> bit d 0" using z by simp
  then have "drop_bit 1 d = 0" using z by (simp add: crc_step_def)
  then have "\<not> bit d (Suc i)" for i
    using bit_drop [of 1 d i] by (simp only: bit_0_eq bot_apply bot_bool_def plus_1_eq_Suc not_False_eq_True)
  then have "\<not> bit d i" for i using \<open>\<not> bit d 0\<close> by (cases i) auto
  then have "d = 0" by (simp add: bit_eq_iff)
  moreover have "a = d XOR b" by (simp add: d_def xor.assoc)
  ultimately show "a = b" by simp
qed

lemma crc_steps_inj: "(crc_step ^^ n) a = (crc_step ^^ n) b \<Longrightarrow> a = b"
  by (induction n) (auto dest: crc_step_inj)

lemma crc_table_nth: "n < 256 \<Longrightarrow> crc_table ! n = (crc_step ^^ 8) (of_nat n)"
  by (simp add: crc_table_def crc_entry_step unsigned_of_nat take_bit_nat_eq_self)

lemma low_byte: "unat (x AND 0xFF :: 32 word) < 256"
proof -
  have "x AND 0xFF = take_bit 8 x" by (simp add: take_bit_eq_mask mask_eq_exp_minus_1)
  then show ?thesis by (simp only: unsigned_take_bit_eq) (simp add: take_bit_eq_mod)
qed

lemma FoldByte_crc:
  assumes "\<not> crc_finalized c"
  shows "FoldByteIntoCRC c b = Inr (c\<lparr>crc_state := crc_byte (crc_state c) b\<rparr>)"
proof -
  let ?x = "crc_state c" let ?i = "(?x AND 0xFF) XOR ucast b"
  have mask: "?x AND 0xFF = take_bit 8 ?x" by (simp add: take_bit_eq_mask mask_eq_exp_minus_1)
  have "(ucast b :: 32 word) = take_bit 8 (ucast b)"
    by (rule bit_word_eqI) (auto simp: bit_simps dest: bit_imp_le_length)
  then have "?i = take_bit 8 (?x XOR ucast b)" by (simp only: mask take_bit_xor)
  then have low: "unat ?i < 256" by (simp only: unsigned_take_bit_eq) (simp add: take_bit_eq_mod)
  have split: "?x XOR ucast b = push_bit 8 (drop_bit 8 ?x) XOR ?i"
    unfolding mask by (rule bit_word_eqI) (auto simp: bit_simps)
  have "(crc_step ^^ 8) (push_bit 8 (drop_bit 8 ?x)) = drop_bit 8 (push_bit 8 (drop_bit 8 ?x))"
    by (rule crc_steps_shift) (simp add: bit_push)
  also have "\<dots> = drop_bit 8 ?x"
    by (rule bit_word_eqI) (auto simp: bit_push bit_drop dest: bit_imp_le_length)
  finally have "drop_bit 8 ?x XOR (crc_step ^^ 8) ?i = crc_byte ?x b"
    by (simp only: crc_byte_def split crc_steps_xor)
  then show ?thesis
    using assms low
    by (simp add: FoldByteIntoCRC_def Verify333_def bindE_def index_res_def crc_table_def crc_entry_step)
qed

lemma fold_bytes_crc:
  "\<not> crc_finalized c \<Longrightarrow> fold_bytes c bs = Inr (c\<lparr>crc_state := foldl crc_byte (crc_state c) bs\<rparr>)"
  by (induction bs arbitrary: c) (simp_all add: FoldByte_crc bindE_def)


text \<open>Two states and two bytes that fold to the same state.\<close>

lemma crc_byte_inj_state: "crc_byte x b = crc_byte y b \<Longrightarrow> x = y"
  unfolding crc_byte_def by (drule crc_steps_inj) (simp only: xor_cancel)

lemma ucast_byte_inj: "(ucast (b :: byte) :: 32 word) = ucast c \<Longrightarrow> b = c"
proof -
  have "uint (ucast a :: 32 word) = uint a" for a :: byte
    using uint_lt2p [of a] by (simp add: unsigned_ucast_eq take_bit_int_eq_self)
  then show "(ucast b :: 32 word) = ucast c \<Longrightarrow> b = c" by (metis word_uint_eq_iff)
qed

lemma crc_byte_inj_byte: "crc_byte x b = crc_byte x c \<Longrightarrow> b = c"
proof -
  assume "crc_byte x b = crc_byte x c"
  then have "x XOR ucast b = x XOR ucast c" unfolding crc_byte_def by (rule crc_steps_inj)
  then have "x XOR (x XOR ucast b) = x XOR (x XOR ucast c)" by simp
  then have "(ucast b :: 32 word) = ucast c" by (simp add: xor.assoc [symmetric])
  then show "b = c" by (rule ucast_byte_inj)
qed

lemma crc_fold_inj_state: "foldl crc_byte x bs = foldl crc_byte y bs \<Longrightarrow> x = y"
  by (induction bs arbitrary: x y) (auto dest: crc_byte_inj_state)

lemma crc_bytes_one_byte:
  assumes "i < length bs" "b \<noteq> bs ! i"
  shows "crc_bytes (bs[i := b]) \<noteq> crc_bytes bs"
proof
  assume "crc_bytes (bs[i := b]) = crc_bytes bs"
  then have eq: "foldl crc_byte 0xFFFFFFFF (bs[i := b]) = foldl crc_byte 0xFFFFFFFF bs"
    unfolding crc_bytes_def by (simp only: xor_cancel)
  let ?x = "foldl crc_byte 0xFFFFFFFF (take i bs)"
  have "bs[i := b] = take i bs @ b # drop (Suc i) bs" using assms(1) by (rule upd_conv_take_nth_drop)
  then have l: "foldl crc_byte 0xFFFFFFFF (bs[i := b]) = foldl crc_byte (crc_byte ?x b) (drop (Suc i) bs)"
    by simp
  have "foldl crc_byte 0xFFFFFFFF (take i bs @ bs ! i # drop (Suc i) bs) = foldl crc_byte 0xFFFFFFFF bs"
    using assms(1) by (simp only: id_take_nth_drop [symmetric])
  then have "foldl crc_byte (crc_byte ?x b) (drop (Suc i) bs) = foldl crc_byte (crc_byte ?x (bs ! i)) (drop (Suc i) bs)"
    using eq l by simp
  then have "crc_byte ?x b = crc_byte ?x (bs ! i)" by (rule crc_fold_inj_state)
  then show False using assms(2) by (auto dest: crc_byte_inj_byte)
qed

lemma final_crc:
  "\<not> crc_finalized c \<Longrightarrow> fst (GetFinalCRC c) = crc_state c XOR 0xFFFFFFFF"
  by (simp add: GetFinalCRC_def)

lemma checksum_of_bytes:
  "\<exists>c. fold_bytes new_crc32 bs = Inr c \<and> fst (GetFinalCRC c) = crc_bytes bs"
  by (simp add: fold_bytes_crc new_crc32_def GetFinalCRC_def crc_bytes_def)

end
