(* ===== verification/FileIndexWriter.thy ===== *)
theory FileIndexWriter
  imports FileLayout
begin

text \<open>
  Writing an index file: src/hw3/fileindexwriter.cc.

  An open file is its bytes, the position of the handle and the outcomes of its next
  operations: \<open>None\<close> is success, \<open>Some n\<close> a failure, after \<open>n\<close> bytes in the case of a
  write; past the end of the list every operation succeeds.  Offsets are 32 bits wide and
  wrap; where the code adds a \<open>size_t\<close> in the argument of \<open>fseek\<close> they do not.
  The lengths of strings and the sizes of elements are \<open>size_t\<close>s that the code stores into
  16 or 32 bits.
\<close>

section \<open>Files\<close>

record ofile =
  of_bytes :: "byte list"
  of_pos :: nat
  of_plan :: "nat option list"

definition new_ofile :: "nat option list \<Rightarrow> ofile" where
  "new_ofile plan = \<lparr>of_bytes = [], of_pos = 0, of_plan = plan\<rparr>"

declare new_ofile_def [code_unfold]

definition next_outcome :: "ofile \<Rightarrow> nat option \<times> ofile" where
  "next_outcome f = (case of_plan f of [] \<Rightarrow> (None, f) | x # xs \<Rightarrow> (x, f\<lparr>of_plan := xs\<rparr>))"

text \<open>Bytes between the old end of the file and the first byte of a write are zero.\<close>

definition write_at :: "byte list \<Rightarrow> nat \<Rightarrow> byte list \<Rightarrow> byte list" where
  "write_at B pos bs = take pos B @ replicate (pos - length B) 0 @ bs @ drop (pos + length bs) B"

definition fseek :: "ofile \<Rightarrow> nat \<Rightarrow> bool \<times> ofile" where
  "fseek f pos =
     (case next_outcome f of
        (None, f) \<Rightarrow> (True, f\<lparr>of_pos := pos\<rparr>)
      | (Some _, f) \<Rightarrow> (False, f))"

definition put_bytes :: "ofile \<Rightarrow> byte list \<Rightarrow> ofile" where
  "put_bytes f bs =
     (if bs = [] then f
      else f\<lparr>of_bytes := write_at (of_bytes f) (of_pos f) bs, of_pos := of_pos f + length bs\<rparr>)"

text \<open>\<open>fwrite\<close> of one item: whether it returns 1.  An item of no bytes returns 0.\<close>

definition fwrite :: "ofile \<Rightarrow> byte list \<Rightarrow> bool \<times> ofile" where
  "fwrite f bs =
     (if bs = [] then (False, f)
      else case next_outcome f of
        (None, f) \<Rightarrow> (True, put_bytes f bs)
      | (Some n, f) \<Rightarrow> (False, put_bytes f (take n (butlast bs))))"

text \<open>\<open>fread\<close> of one byte.\<close>

definition fread_byte :: "ofile \<Rightarrow> byte option \<times> ofile" where
  "fread_byte f =
     (case next_outcome f of
        (None, f) \<Rightarrow>
          if of_pos f < length (of_bytes f)
          then (Some (of_bytes f ! of_pos f), f\<lparr>of_pos := Suc (of_pos f)\<rparr>)
          else (None, f)
      | (Some _, f) \<Rightarrow> (None, f))"

definition fsync :: "ofile \<Rightarrow> bool \<times> ofile" where
  "fsync f = (case next_outcome f of (outcome, f) \<Rightarrow> (outcome = None, f))"

section \<open>Hash tables\<close>

text \<open>A write function gets the offset and the element; 0 reports a failure.\<close>

type_synonym 'v write_element_fn =
  "allocator \<Rightarrow> ofile \<Rightarrow> IndexFileOffset_t \<Rightarrow> 'v ht_kv \<Rightarrow> (HWSize_t \<times> allocator \<times> ofile) res"

definition WriteBucketRecord ::
  "ofile \<Rightarrow> 'v chain \<Rightarrow> IndexFileOffset_t \<Rightarrow> IndexFileOffset_t \<Rightarrow> HWSize_t \<times> ofile" where
  "WriteBucketRecord f li br_offset b_offset =
     (case fseek f (unat br_offset) of (ok, f) \<Rightarrow>
      if \<not> ok then (0, f)
      else case fwrite f (bucket_rec_disk (NumElementsInLinkedList li) b_offset) of (ok, f) \<Rightarrow>
      if \<not> ok then (0, f) else (8, f))"

text \<open>The loop over a chain; \<open>chainlen_ho - j\<close> rounds are left.\<close>

fun write_chain ::
  "nat \<Rightarrow> nat \<Rightarrow> 'v write_element_fn \<Rightarrow> allocator \<Rightarrow> ofile \<Rightarrow> 'v chain \<Rightarrow> ll_iter \<Rightarrow> IndexFileOffset_t \<Rightarrow>
   HWSize_t \<Rightarrow> HWSize_t \<Rightarrow> (HWSize_t \<times> allocator \<times> ofile) res" where
  "write_chain 0 j fn m f li it offset bucketlen nextelpos = Inr (bucketlen, m, f)"
| "write_chain (Suc n) j fn m f li it offset bucketlen nextelpos =
     (case fseek f (unat offset + j * 4) of (ok, f) \<Rightarrow>
      if \<not> ok then Inr (0, m, f)
      else case fwrite f (element_position_rec_disk nextelpos) of (ok, f) \<Rightarrow>
      if \<not> ok then Inr (0, m, f)
      else
        bindE (LLIteratorGetPayload li it) (\<lambda>kv.
        bindE (fn m f nextelpos kv) (\<lambda>(ellen, m, f).
        bindE (Verify333 (0 < ellen)) (\<lambda>_.
        bindE (LLIteratorNext li it) (\<lambda>(_, it).
        write_chain n (Suc j) fn m f li it offset (bucketlen + ellen) (nextelpos + ellen))))))"

definition WriteBucket ::
  "'v write_element_fn \<Rightarrow> allocator \<Rightarrow> ofile \<Rightarrow> 'v chain \<Rightarrow> IndexFileOffset_t \<Rightarrow>
   (HWSize_t \<times> allocator \<times> ofile) res" where
  "WriteBucket fn m f li offset =
     (let chainlen_ho = NumElementsInLinkedList li;
          bucketlen = 4 * chainlen_ho;
          nextelpos = offset + bucketlen
      in if 0 < chainlen_ho then
           bindE (LLMakeIterator m li 0) (\<lambda>(it, m).
           case it of
             None \<Rightarrow> Inl Verify333_Failed
           | Some it \<Rightarrow> write_chain (unat chainlen_ho) 0 fn m f li it offset bucketlen nextelpos)
         else Inr (bucketlen, m, f))"

text \<open>The loop over the buckets from index \<open>i\<close> on; \<open>n\<close> is the number of buckets left.\<close>

fun write_buckets ::
  "nat \<Rightarrow> nat \<Rightarrow> 'v write_element_fn \<Rightarrow> allocator \<Rightarrow> ofile \<Rightarrow> 'v hash_table \<Rightarrow> IndexFileOffset_t \<Rightarrow>
   IndexFileOffset_t \<Rightarrow> (IndexFileOffset_t \<times> allocator \<times> ofile) res" where
  "write_buckets 0 i fn m f ht next_bucket_rec_offset next_bucket_offset = Inr (next_bucket_offset, m, f)"
| "write_buckets (Suc n) i fn m f ht next_bucket_rec_offset next_bucket_offset =
     bindE (index_res (ht_buckets ht) i) (\<lambda>li.
     let ll_len = NumElementsInLinkedList li in
     case WriteBucketRecord f li next_bucket_rec_offset next_bucket_offset of (res, f) \<Rightarrow>
     bindE (Verify333 (res \<noteq> 0)) (\<lambda>_.
     let next_bucket_rec_offset = next_bucket_rec_offset + res in
     if 0 < ll_len then
       bindE (WriteBucket fn m f li next_bucket_offset) (\<lambda>(res, m, f).
       bindE (Verify333 (res \<noteq> 0)) (\<lambda>_.
       write_buckets n (Suc i) fn m f ht next_bucket_rec_offset (next_bucket_offset + res)))
     else write_buckets n (Suc i) fn m f ht next_bucket_rec_offset next_bucket_offset))"

definition WriteHashTable ::
  "'v write_element_fn \<Rightarrow> allocator \<Rightarrow> ofile \<Rightarrow> 'v hash_table \<Rightarrow> IndexFileOffset_t \<Rightarrow>
   (HWSize_t \<times> allocator \<times> ofile) res" where
  "WriteHashTable fn m f ht offset =
     (let next_bucket_rec_offset = offset + 4 in
      case fseek f (unat offset) of (ok, f) \<Rightarrow>
      if \<not> ok then Inr (0, m, f)
      else case fwrite f (bucket_list_header_disk (ht_num_buckets ht)) of (ok, f) \<Rightarrow>
      if \<not> ok then Inr (0, m, f)
      else
        let next_bucket_offset = next_bucket_rec_offset + ht_num_buckets ht * 8 in
        bindE (write_buckets (unat (ht_num_buckets ht)) 0 fn m f ht next_bucket_rec_offset next_bucket_offset)
          (\<lambda>(next_bucket_offset, m, f). Inr (next_bucket_offset - offset, m, f)))"

section \<open>The elements of the three kinds of tables\<close>

definition WriteDocidDocnameFn :: "string write_element_fn" where
  "WriteDocidDocnameFn m f offset kv =
     (let slen_ho = of_nat (length (kv_value kv)) :: 16 word in
      case fseek f (unat offset) of (ok, f) \<Rightarrow>
      if \<not> ok then Inr (0, m, f)
      else case fwrite f (doctable_element_header_disk (kv_key kv) slen_ho) of (ok, f) \<Rightarrow>
      if \<not> ok then Inr (0, m, f)
      else case fwrite f (take (unat slen_ho) (bytes_of (kv_value kv))) of (ok, f) \<Rightarrow>
      if \<not> ok then Inr (0, m, f)
      else Inr (10 + ucast slen_ho, m, f))"

definition WriteDocTable ::
  "allocator \<Rightarrow> ofile \<Rightarrow> doc_table \<Rightarrow> IndexFileOffset_t \<Rightarrow> (HWSize_t \<times> allocator \<times> ofile) res" where
  "WriteDocTable m f dt offset = WriteHashTable WriteDocidDocnameFn m f (DTGetDocidTable dt) offset"

text \<open>
  The loop over the positions.  The code has \<open>LLIteratorGetPayload\<close> store a pointer-sized
  payload into a structure of four bytes, which receives its low half, the position; what
  the other half overwrites on the stack is not modelled.  The result of this \<open>fwrite\<close> is
  dropped: the code tests the result of the one before the loop again.
\<close>

fun write_positions ::
  "nat \<Rightarrow> ofile \<Rightarrow> DocPositionOffset_t linked_list \<Rightarrow> ll_iter \<Rightarrow> ofile res" where
  "write_positions 0 f positions it = Inr f"
| "write_positions (Suc n) f positions it =
     bindE (LLIteratorGetPayload positions it) (\<lambda>position.
     case fwrite f (docid_element_position_disk position) of (_, f) \<Rightarrow>
     bindE (LLIteratorNext positions it) (\<lambda>(_, it). write_positions n f positions it))"

definition WriteDocPositionListFn :: "DocPositionOffset_t linked_list write_element_fn" where
  "WriteDocPositionListFn m f offset kv =
     (let docID_ho = kv_key kv; positions = kv_value kv; num_pos_ho = NumElementsInLinkedList positions in
      case fseek f (unat offset) of (ok, f) \<Rightarrow>
      if \<not> ok then Inr (0, m, f)
      else case fwrite f (docid_element_header_disk docID_ho num_pos_ho) of (ok, f) \<Rightarrow>
      if \<not> ok then Inr (0, m, f)
      else
        bindE (LLMakeIterator m positions 0) (\<lambda>(it, m).
        case it of
          None \<Rightarrow> Inl Verify333_Failed
        | Some it \<Rightarrow>
            bindE (write_positions (unat num_pos_ho) f positions it) (\<lambda>f.
            Inr (12 + num_pos_ho * 4, m, f))))"

definition WriteWordDocSetFn :: "word_doc_set store \<Rightarrow> nat write_element_fn" where
  "WriteWordDocSetFn s m f offset kv =
     bindE (st_read s (kv_value kv)) (\<lambda>wds.
     let wordlen_ho = of_nat (length (wds_word wds)) :: 16 word in
     bindE (Verify333 (0 < wordlen_ho)) (\<lambda>_.
     bindE (WriteHashTable WriteDocPositionListFn m f (wds_docIDs wds) (offset + 6 + ucast wordlen_ho))
       (\<lambda>(htlen_ho, m, f).
     case fseek f (unat offset) of (ok, f) \<Rightarrow>
     if \<not> ok then Inr (0, m, f)
     else case fwrite f (worddocset_header_disk wordlen_ho htlen_ho) of (ok, f) \<Rightarrow>
     if \<not> ok then Inr (0, m, f)
     else case fwrite f (take (unat wordlen_ho) (bytes_of (wds_word wds))) of (ok, f) \<Rightarrow>
     if \<not> ok then Inr (0, m, f)
     else Inr (6 + ucast wordlen_ho + htlen_ho, m, f))))"

definition WriteMemIndex ::
  "allocator \<Rightarrow> ofile \<Rightarrow> mem_index \<Rightarrow> IndexFileOffset_t \<Rightarrow> (HWSize_t \<times> allocator \<times> ofile) res" where
  "WriteMemIndex m f mi offset = WriteHashTable (WriteWordDocSetFn (mi_store mi)) m f (mi_table mi) offset"

section \<open>The header and the whole file\<close>

text \<open>The loop that reads the file back; \<open>cslen - i\<close> rounds are left.\<close>

fun checksum_loop :: "nat \<Rightarrow> ofile \<Rightarrow> crc32 \<Rightarrow> (crc32 \<times> ofile) res" where
  "checksum_loop 0 f crcobj = Inr (crcobj, f)"
| "checksum_loop (Suc n) f crcobj =
     (case fread_byte f of
        (None, f) \<Rightarrow> Inl Verify333_Failed
      | (Some cur_byte, f) \<Rightarrow>
          bindE (FoldByteIntoCRC crcobj cur_byte) (\<lambda>crcobj. checksum_loop n f crcobj))"

definition WriteHeader :: "ofile \<Rightarrow> HWSize_t \<Rightarrow> HWSize_t \<Rightarrow> (HWSize_t \<times> ofile) res" where
  "WriteHeader f doct_size memidx_size =
     (let cslen = doct_size + memidx_size in
      case fseek f 16 of (ok, f) \<Rightarrow>
      if \<not> ok then Inr (0, f)
      else
        bindE (checksum_loop (unat cslen) f new_crc32) (\<lambda>(crcobj, f).
        let header = \<lparr>magic_number = MAGIC_NUMBER, checksum = fst (GetFinalCRC crcobj),
                      doctable_size = doct_size, index_size = memidx_size\<rparr> in
        case fseek f 0 of (ok, f) \<Rightarrow>
        if \<not> ok then Inr (0, f)
        else case fwrite f (header_disk header) of (ok, f) \<Rightarrow>
        if \<not> ok then Inr (0, f)
        else case fsync f of (ok, f) \<Rightarrow>
        bindE (Verify333 ok) (\<lambda>_. Inr (16, f))))"

text \<open>
  \<open>opened\<close> is what \<open>fopen\<close> returns: a file without bytes, or \<open>None\<close>.  The last component
  of the result is the file that the call leaves behind, \<open>None\<close> if it leaves none.  The
  second test is the code's: it is \<open>dtres\<close> again, not \<open>mires\<close>.
\<close>

definition WriteIndex ::
  "allocator \<Rightarrow> mem_index \<Rightarrow> doc_table \<Rightarrow> ofile option \<Rightarrow> (HWSize_t \<times> allocator \<times> byte list option) res" where
  "WriteIndex m mi dt opened =
     (case opened of
        None \<Rightarrow> Inr (0, m, None)
      | Some f \<Rightarrow>
          bindE (WriteDocTable m f dt 16) (\<lambda>(dtres, m, f).
          if dtres = 0 then Inr (0, m, None)
          else
            let filesize = dtres in
            bindE (WriteMemIndex m f mi (16 + filesize)) (\<lambda>(mires, m, f).
            if dtres = 0 then Inr (0, m, None)
            else
              let filesize = filesize + mires in
              bindE (WriteHeader f dtres mires) (\<lambda>(hdres, f).
              if hdres \<noteq> 16 then Inr (0, m, None)
              else Inr (filesize + hdres, m, Some (of_bytes f))))))"

end
