(* ===== verification/IndexFormat.thy ===== *)
theory IndexFormat
  imports FileIndexWriter FileLayoutSpec MemIndexSpec
begin

text \<open>
  How a hash table lies in an index file, the contract between \<open>WriteHashTable\<close> and the
  function that writes one element (\<open>element_writer\<close>), and, under that contract, what
  \<open>WriteHashTable\<close> writes.
\<close>

section \<open>Bytes of a file\<close>

definition has_bytes :: "byte list \<Rightarrow> nat \<Rightarrow> byte list \<Rightarrow> bool" where
  "has_bytes B pos bs \<longleftrightarrow> pos + length bs \<le> length B \<and> take (length bs) (drop pos B) = bs"

text \<open>The bytes of a file change only at the offsets \<open>S\<close>, and it grows at most to \<open>H\<close> bytes.\<close>

definition changes :: "byte list \<Rightarrow> byte list \<Rightarrow> nat set \<Rightarrow> nat \<Rightarrow> bool" where
  "changes B B' S H \<longleftrightarrow> length B \<le> length B' \<and> length B' \<le> max (length B) H \<and>
     (\<forall>i < length B. i \<notin> S \<longrightarrow> B' ! i = B ! i)"

lemma changes_refl [simp]: "changes B B S H"
  by (simp add: changes_def)

lemma changes_trans:
  assumes "changes A B S H" "changes B C S' H'" "S \<subseteq> T" "S' \<subseteq> T" "H \<le> K" "H' \<le> K"
  shows "changes A C T K"
proof -
  have "C ! i = A ! i" if "i < length A" "i \<notin> T" for i
  proof -
    have "i \<notin> S" "i \<notin> S'" using that(2) assms(3,4) by auto
    then show ?thesis using assms(1,2) that(1) by (simp add: changes_def)
  qed
  then show ?thesis using assms by (auto simp: changes_def)
qed

text \<open>No offset of \<open>S\<close> lies in a range.\<close>

definition apart :: "nat \<Rightarrow> nat \<Rightarrow> nat set \<Rightarrow> bool" where
  "apart lo hi S \<longleftrightarrow> (\<forall>i \<in> S. i < lo \<or> hi \<le> i)"

lemma apart_sub: "apart lo hi S \<Longrightarrow> lo \<le> lo' \<Longrightarrow> hi' \<le> hi \<Longrightarrow> apart lo' hi' S"
  unfolding apart_def by fastforce

lemma apart_range: "hi \<le> a \<or> b \<le> lo \<Longrightarrow> apart lo hi {a..<b}"
  by (auto simp: apart_def)

lemma apart_Un [simp]: "apart lo hi (S \<union> S') \<longleftrightarrow> apart lo hi S \<and> apart lo hi S'"
  by (auto simp: apart_def)

lemma has_bytes_nth:
  "has_bytes B pos bs \<longleftrightarrow> pos + length bs \<le> length B \<and> (\<forall>i < length bs. B ! (pos + i) = bs ! i)"
  by (auto simp: has_bytes_def list_eq_iff_nth_eq)

lemma has_bytes_kept:
  assumes "has_bytes B pos bs" "changes B B' S H" "apart pos (pos + length bs) S"
  shows "has_bytes B' pos bs"
proof -
  have "B' ! (pos + i) = B ! (pos + i)" if "i < length bs" for i
  proof -
    have "pos + i \<notin> S" using assms(3) that by (auto simp: apart_def)
    then show ?thesis using assms(1,2) that by (simp add: has_bytes_def changes_def)
  qed
  then show ?thesis using assms(1,2) by (auto simp: has_bytes_nth changes_def)
qed

lemma has_bytes_append:
  "has_bytes B pos (xs @ ys) \<longleftrightarrow> has_bytes B pos xs \<and> has_bytes B (pos + length xs) ys"
proof
  assume h: "has_bytes B pos (xs @ ys)"
  have "B ! (pos + length xs + i) = ys ! i" if "i < length ys" for i
    using h that unfolding has_bytes_nth by (auto simp: nth_append add.assoc dest: spec [of _ "length xs + i"])
  then show "has_bytes B pos xs \<and> has_bytes B (pos + length xs) ys"
    using h unfolding has_bytes_nth by (auto simp: nth_append)
next
  assume h: "has_bytes B pos xs \<and> has_bytes B (pos + length xs) ys"
  have "B ! (pos + i) = ys ! (i - length xs)" if "\<not> i < length xs" "i < length xs + length ys" for i
    using h that unfolding has_bytes_nth by (auto dest: spec [of _ "i - length xs"])
  then show "has_bytes B pos (xs @ ys)" using h unfolding has_bytes_nth by (auto simp: nth_append)
qed

lemma has_bytes_Nil [simp]: "has_bytes B pos [] \<longleftrightarrow> pos \<le> length B"
  by (simp add: has_bytes_def)

lemma write_at_has: "has_bytes (write_at B pos bs) pos bs"
  by (simp add: has_bytes_def write_at_def)

lemma write_at_changes: "changes B (write_at B pos bs) {pos..<pos + length bs} (pos + length bs)"
proof -
  have "write_at B pos bs ! i = B ! i" if i: "i < length B" "i \<notin> {pos..<pos + length bs}" for i
  proof (cases "i < pos")
    case False
    then have "pos + length bs \<le> i" using i by auto
    then have "\<not> i - pos < length bs" "i - pos - length bs = i - (pos + length bs)" by auto
    then show ?thesis using i False by (simp add: write_at_def nth_append min_def)
  qed (use i in \<open>simp add: write_at_def nth_append\<close>)
  moreover have "length (write_at B pos bs) = max (length B) (pos + length bs)"
    by (simp add: write_at_def)
  ultimately show ?thesis by (simp add: changes_def)
qed

section \<open>Files on which nothing fails\<close>

lemma fseek_ok [simp]: "of_plan f = [] \<Longrightarrow> fseek f pos = (True, f\<lparr>of_pos := pos\<rparr>)"
  by (simp add: fseek_def next_outcome_def)

lemma fwrite_ok [simp]:
  "of_plan f = [] \<Longrightarrow> bs \<noteq> [] \<Longrightarrow> fwrite f bs =
     (True, f\<lparr>of_bytes := write_at (of_bytes f) (of_pos f) bs, of_pos := of_pos f + length bs\<rparr>)"
  by (simp add: fwrite_def next_outcome_def put_bytes_def)

lemma fread_byte_ok [simp]:
  "of_plan f = [] \<Longrightarrow> of_pos f < length (of_bytes f) \<Longrightarrow>
     fread_byte f = (Some (of_bytes f ! of_pos f), f\<lparr>of_pos := Suc (of_pos f)\<rparr>)"
  by (simp add: fread_byte_def next_outcome_def)

lemma fsync_ok [simp]: "of_plan f = [] \<Longrightarrow> fsync f = (True, f)"
  by (simp add: fsync_def next_outcome_def)

lemma length_disk [simp]:
  "length (header_disk h) = 16" "length (bucket_list_header_disk n) = 4" "length (bucket_rec_disk a b) = 8"
  "length (element_position_rec_disk p) = 4" "length (doctable_element_header_disk d l) = 10"
  "length (worddocset_header_disk l n) = 6" "length (docid_element_header_disk d n) = 12"
  "length (docid_element_position_disk q) = 4"
  by (simp_all add: header_disk_def bucket_list_header_disk_def bucket_rec_disk_def
      element_position_rec_disk_def doctable_element_header_disk_def worddocset_header_disk_def
      docid_element_header_disk_def docid_element_position_disk_def)

lemma disk_not_Nil [simp]:
  "header_disk h \<noteq> []" "bucket_list_header_disk n \<noteq> []" "bucket_rec_disk a b \<noteq> []"
  "element_position_rec_disk p \<noteq> []" "doctable_element_header_disk d l \<noteq> []"
  "worddocset_header_disk l n \<noteq> []" "docid_element_header_disk d n \<noteq> []"
  "docid_element_position_disk q \<noteq> []"
  by (simp_all flip: length_0_conv)

section \<open>A hash table on disk\<close>

text \<open>
  \<open>el\<close> says how one element lies in the file and \<open>sz\<close> how many bytes it takes.  The
  position records of a bucket point at its elements, the bucket records at the buckets.
\<close>

fun els_at :: "(byte list \<Rightarrow> nat \<Rightarrow> 'v ht_kv \<Rightarrow> bool) \<Rightarrow> ('v ht_kv \<Rightarrow> nat) \<Rightarrow>
    byte list \<Rightarrow> nat \<Rightarrow> nat \<Rightarrow> 'v ht_kv list \<Rightarrow> bool" where
  "els_at el sz B rec pos [] = True"
| "els_at el sz B rec pos (kv # kvs) =
     (has_bytes B rec (element_position_rec_disk (of_nat pos)) \<and> el B pos kv \<and>
      els_at el sz B (rec + 4) (pos + sz kv) kvs)"

definition bucket_size :: "('v ht_kv \<Rightarrow> nat) \<Rightarrow> 'v ht_kv list \<Rightarrow> nat" where
  "bucket_size sz kvs = 4 * length kvs + sum_list (map sz kvs)"

fun buckets_at :: "(byte list \<Rightarrow> nat \<Rightarrow> 'v ht_kv \<Rightarrow> bool) \<Rightarrow> ('v ht_kv \<Rightarrow> nat) \<Rightarrow>
    byte list \<Rightarrow> nat \<Rightarrow> nat \<Rightarrow> 'v ht_kv list list \<Rightarrow> bool" where
  "buckets_at el sz B rec pos [] = True"
| "buckets_at el sz B rec pos (kvs # bs) =
     (has_bytes B rec (bucket_rec_disk (of_nat (length kvs)) (of_nat pos)) \<and>
      els_at el sz B pos (pos + 4 * length kvs) kvs \<and>
      buckets_at el sz B (rec + 8) (pos + bucket_size sz kvs) bs)"

definition table_size :: "('v ht_kv \<Rightarrow> nat) \<Rightarrow> 'v ht_kv list list \<Rightarrow> nat" where
  "table_size sz bs = 4 + 8 * length bs + sum_list (map (bucket_size sz) bs)"

definition table_at :: "(byte list \<Rightarrow> nat \<Rightarrow> 'v ht_kv \<Rightarrow> bool) \<Rightarrow> ('v ht_kv \<Rightarrow> nat) \<Rightarrow>
    byte list \<Rightarrow> nat \<Rightarrow> 'v ht_kv list list \<Rightarrow> bool" where
  "table_at el sz B off bs \<longleftrightarrow>
     has_bytes B off (bucket_list_header_disk (of_nat (length bs))) \<and>
     buckets_at el sz B (off + 4) (off + 4 + 8 * length bs) bs"

definition chains :: "'v hash_table \<Rightarrow> 'v ht_kv list list" where
  "chains t = map ll_list (ht_buckets t)"

section \<open>The contract of a write function\<close>

locale element_writer =
  fixes fn :: "'v write_element_fn" and good :: "'v ht_kv \<Rightarrow> bool" and sz :: "'v ht_kv \<Rightarrow> nat"
    and el :: "byte list \<Rightarrow> nat \<Rightarrow> 'v ht_kv \<Rightarrow> bool"
  assumes sz_pos: "good kv \<Longrightarrow> 0 < sz kv"
    and el_inside: "good kv \<Longrightarrow> el B pos kv \<Longrightarrow> pos + sz kv \<le> length B"
    and el_kept: "good kv \<Longrightarrow> el B pos kv \<Longrightarrow> changes B B' S H \<Longrightarrow> apart pos (pos + sz kv) S \<Longrightarrow> el B' pos kv"
    and el_written: "good kv \<Longrightarrow> pos + sz kv < 2 ^ 32 \<Longrightarrow> never_fails m \<Longrightarrow> of_plan f = [] \<Longrightarrow>
      \<exists>m' f'. fn m f (of_nat pos) kv = Inr (of_nat (sz kv), m', f') \<and> never_fails m' \<and> of_plan f' = [] \<and>
        changes (of_bytes f) (of_bytes f') {pos..<pos + sz kv} (pos + sz kv) \<and> el (of_bytes f') pos kv"
begin

lemma els_kept:
  "\<forall>kv \<in> set kvs. good kv \<Longrightarrow> els_at el sz B r pos kvs \<Longrightarrow> changes B B' S H \<Longrightarrow>
   apart r (r + 4 * length kvs) S \<Longrightarrow> apart pos (pos + sum_list (map sz kvs)) S \<Longrightarrow> els_at el sz B' r pos kvs"
proof (induction kvs arbitrary: r pos)
  case (Cons kv kvs)
  have "apart r (r + length (element_position_rec_disk (of_nat pos))) S"
    using Cons.prems(4) by (rule apart_sub) simp_all
  then have 1: "has_bytes B' r (element_position_rec_disk (of_nat pos))"
    using Cons.prems(2,3) by (auto intro: has_bytes_kept)
  have "apart pos (pos + sz kv) S" using Cons.prems(5) by (rule apart_sub) simp_all
  then have 2: "el B' pos kv" using Cons.prems(1,2,3) by (auto intro: el_kept)
  have a1: "apart (r + 4) (r + 4 + 4 * length kvs) S" using Cons.prems(4) by (rule apart_sub) simp_all
  have a2: "apart (pos + sz kv) (pos + sz kv + sum_list (map sz kvs)) S"
    using Cons.prems(5) by (rule apart_sub) simp_all
  have "els_at el sz B' (r + 4) (pos + sz kv) kvs"
    by (rule Cons.IH [OF _ _ Cons.prems(3) a1 a2]) (use Cons.prems in auto)
  with 1 2 show ?case by simp
qed simp

lemma els_inside:
  "\<forall>kv \<in> set kvs. good kv \<Longrightarrow> els_at el sz B r pos kvs \<Longrightarrow> kvs \<noteq> [] \<Longrightarrow> pos + sum_list (map sz kvs) \<le> length B"
proof (induction kvs arbitrary: r pos)
  case (Cons kv kvs)
  then show ?case
    using Cons.IH [of "r + 4" "pos + sz kv"] el_inside [of kv B pos] by (cases "kvs = []") (simp_all add: add.assoc)
qed simp

lemma buckets_kept:
  "\<forall>kvs \<in> set bs. \<forall>kv \<in> set kvs. good kv \<Longrightarrow> buckets_at el sz B r pos bs \<Longrightarrow> changes B B' S H \<Longrightarrow>
   apart r (r + 8 * length bs) S \<Longrightarrow> apart pos (pos + sum_list (map (bucket_size sz) bs)) S \<Longrightarrow>
   buckets_at el sz B' r pos bs"
proof (induction bs arbitrary: r pos)
  case (Cons kvs bs)
  have "apart r (r + length (bucket_rec_disk (of_nat (length kvs)) (of_nat pos))) S"
    using Cons.prems(4) by (rule apart_sub) simp_all
  then have 1: "has_bytes B' r (bucket_rec_disk (of_nat (length kvs)) (of_nat pos))"
    using Cons.prems(2,3) by (auto intro: has_bytes_kept)
  have a1: "apart pos (pos + 4 * length kvs) S"
    using Cons.prems(5) by (rule apart_sub) (simp_all add: bucket_size_def)
  have a2: "apart (pos + 4 * length kvs) (pos + 4 * length kvs + sum_list (map sz kvs)) S"
    using Cons.prems(5) by (rule apart_sub) (simp_all add: bucket_size_def)
  have 2: "els_at el sz B' pos (pos + 4 * length kvs) kvs"
    by (rule els_kept [OF _ _ Cons.prems(3) a1 a2]) (use Cons.prems in auto)
  have a3: "apart (r + 8) (r + 8 + 8 * length bs) S" using Cons.prems(4) by (rule apart_sub) simp_all
  have a4: "apart (pos + bucket_size sz kvs)
      (pos + bucket_size sz kvs + sum_list (map (bucket_size sz) bs)) S"
    using Cons.prems(5) by (rule apart_sub) simp_all
  have "buckets_at el sz B' (r + 8) (pos + bucket_size sz kvs) bs"
    by (rule Cons.IH [OF _ _ Cons.prems(3) a3 a4]) (use Cons.prems in auto)
  with 1 2 show ?case by simp
qed simp

lemma table_kept:
  assumes good: "\<forall>kvs \<in> set bs. \<forall>kv \<in> set kvs. good kv" and t: "table_at el sz B off bs"
    and c: "changes B B' S H" "apart off (off + table_size sz bs) S"
  shows "table_at el sz B' off bs"
proof -
  have "has_bytes B' off (bucket_list_header_disk (of_nat (length bs)))"
    by (rule has_bytes_kept [where B = B and S = S and H = H]) (use t c in \<open>auto simp: table_at_def table_size_def elim!: apart_sub\<close>)
  moreover have "buckets_at el sz B' (off + 4) (off + 4 + 8 * length bs) bs"
    by (rule buckets_kept [where B = B and S = S and H = H])
      (use good t c in \<open>auto simp: table_at_def table_size_def elim!: apart_sub\<close>)
  ultimately show ?thesis by (simp add: table_at_def)
qed

lemma buckets_inside:
  "\<forall>kvs \<in> set bs. \<forall>kv \<in> set kvs. good kv \<Longrightarrow> buckets_at el sz B r pos bs \<Longrightarrow> pos \<le> length B \<Longrightarrow>
   pos + sum_list (map (bucket_size sz) bs) \<le> length B"
proof (induction bs arbitrary: r pos)
  case (Cons kvs bs)
  have "pos + bucket_size sz kvs \<le> length B"
  proof (cases "kvs = []")
    case False
    then show ?thesis using els_inside [of kvs B pos "pos + 4 * length kvs"] Cons.prems by (simp add: bucket_size_def)
  qed (use Cons.prems in \<open>simp add: bucket_size_def\<close>)
  with Cons.IH [of "r + 8" "pos + bucket_size sz kvs"] Cons.prems show ?case by (simp add: add.assoc)
qed simp

lemma recs_inside: "buckets_at el sz B r pos bs \<Longrightarrow> bs \<noteq> [] \<Longrightarrow> r + 8 * length bs \<le> length B"
proof (induction bs arbitrary: r pos)
  case (Cons kvs bs)
  then show ?case using Cons.IH [of "r + 8" "pos + bucket_size sz kvs"] by (cases bs) (auto simp: has_bytes_def)
qed simp

lemma table_inside:
  assumes "\<forall>kvs \<in> set bs. \<forall>kv \<in> set kvs. good kv" "table_at el sz B off bs"
  shows "off + table_size sz bs \<le> length B"
proof -
  have b: "buckets_at el sz B (off + 4) (off + 4 + 8 * length bs) bs" "off + 4 \<le> length B"
    using assms(2) by (auto simp: table_at_def has_bytes_def)
  have "off + 4 + 8 * length bs \<le> length B" using recs_inside [OF b(1)] b(2) by (cases "bs = []") auto
  from buckets_inside [OF assms(1) b(1) this] show ?thesis by (simp add: table_size_def)
qed

end

section \<open>Writing a hash table\<close>

context element_writer
begin

lemma write_chain_ok:
  assumes li: "ll_inv li"
  shows "drop j (ll_list li) = kvs \<Longrightarrow> (kvs \<noteq> [] \<Longrightarrow> it_at li it j) \<Longrightarrow> \<forall>kv \<in> set kvs. good kv \<Longrightarrow>
    off + 4 * j + 4 * length kvs \<le> pos \<Longrightarrow> pos + sum_list (map sz kvs) < 2 ^ 32 \<Longrightarrow> never_fails m \<Longrightarrow> of_plan f = [] \<Longrightarrow>
    \<exists>m' f'. write_chain (length kvs) j fn m f li it (of_nat off) bl (of_nat pos) =
        Inr (bl + of_nat (sum_list (map sz kvs)), m', f') \<and> never_fails m' \<and> of_plan f' = [] \<and>
      changes (of_bytes f) (of_bytes f')
        ({off + 4 * j..<off + 4 * j + 4 * length kvs} \<union> {pos..<pos + sum_list (map sz kvs)}) (pos + sum_list (map sz kvs)) \<and>
      els_at el sz (of_bytes f') (off + 4 * j) pos kvs"
proof (induction kvs arbitrary: j it pos bl m f)
  case (Cons kv kvs)
  let ?r = "off + 4 * j" and ?sum = "sum_list (map sz kvs)"
  let ?rec = "element_position_rec_disk (of_nat pos)"
  let ?f1 = "f\<lparr>of_bytes := write_at (of_bytes f) ?r ?rec, of_pos := ?r + 4\<rparr>"
  have j: "j < length (ll_list li)" using Cons.prems(1) by (metis drop_all list.distinct(1) not_less)
  have kv: "ll_list li ! j = kv" "drop (Suc j) (ll_list li) = kvs"
    using Cons.prems(1) j by (simp_all add: Cons_nth_drop_Suc [symmetric])
  have it: "it_at li it j" using Cons.prems(2) by simp
  have good: "good kv" "\<forall>kv \<in> set kvs. good kv" using Cons.prems(3) by simp_all
  have off: "unat (of_nat off :: 32 word) = off" using Cons.prems(4,5) by (simp add: unat_of_nat32)
  obtain m2 f2 where f2: "fn m ?f1 (of_nat pos) kv = Inr (of_nat (sz kv), m2, f2)" "never_fails m2" "of_plan f2 = []"
    "changes (of_bytes ?f1) (of_bytes f2) {pos..<pos + sz kv} (pos + sz kv)" "el (of_bytes f2) pos kv"
    using el_written [OF good(1), of pos m ?f1] Cons.prems(5-7) by auto
  have "unat (of_nat (sz kv) :: 32 word) = sz kv" using Cons.prems(5) by (simp add: unat_of_nat32)
  then have pos: "0 < (of_nat (sz kv) :: 32 word)" using sz_pos [OF good(1)] by (simp add: word_less_nat_alt)
  obtain more it1 where nx: "LLIteratorNext li it = Inr (more, it1)"
    "it_at li it1 (if Suc j < length (ll_list li) then Suc j else j)" using Next_list [OF li it] by blast
  have "kvs \<noteq> [] \<Longrightarrow> Suc j < length (ll_list li)" using kv(2) by (metis drop_all not_less)
  then have it1: "kvs \<noteq> [] \<Longrightarrow> it_at li it1 (Suc j)" using nx(2) by simp
  obtain m3 f3 where f3: "write_chain (length kvs) (Suc j) fn m2 f2 li it1 (of_nat off) (bl + of_nat (sz kv)) (of_nat (pos + sz kv)) =
      Inr (bl + of_nat (sz kv) + of_nat ?sum, m3, f3)" "never_fails m3" "of_plan f3 = []"
    "changes (of_bytes f2) (of_bytes f3) ({off + 4 * Suc j..<off + 4 * Suc j + 4 * length kvs} \<union> {pos + sz kv..<pos + sz kv + ?sum})
       (pos + sz kv + ?sum)"
    "els_at el sz (of_bytes f3) (off + 4 * Suc j) (pos + sz kv) kvs"
    using Cons.IH [OF kv(2) it1 good(2) _ _ f2(2,3), of "pos + sz kv" "bl + of_nat (sz kv)"] Cons.prems(4,5) by auto
  let ?S = "{?r..<?r + 4 * length (kv # kvs)} \<union> {pos..<pos + sum_list (map sz (kv # kvs))}"
  have run: "write_chain (length (kv # kvs)) j fn m f li it (of_nat off) bl (of_nat pos) =
      Inr (bl + of_nat (sum_list (map sz (kv # kvs))), m3, f3)"
    using Cons.prems(7) off GetPayload_list [OF li it] kv(1) f2(1) pos nx(1) f3(1) by (simp add: add.assoc mult.commute)
  have 1: "changes (of_bytes f) (of_bytes ?f1) {?r..<?r + 4} (?r + 4)"
    using write_at_changes [of "of_bytes f" ?r ?rec] by simp
  have r: "has_bytes (of_bytes ?f1) ?r ?rec" by (simp add: write_at_has)
  have "has_bytes (of_bytes f2) ?r ?rec"
    by (rule has_bytes_kept [OF r f2(4)]) (use Cons.prems(4) in \<open>simp add: apart_range\<close>)
  then have rec: "has_bytes (of_bytes f3) ?r ?rec"
    by (rule has_bytes_kept [OF _ f3(4)]) (use Cons.prems(4) in \<open>simp add: apart_range\<close>)
  have "el (of_bytes f3) pos kv"
    by (rule el_kept [OF good(1) f2(5) f3(4)]) (use Cons.prems(4) in \<open>simp add: apart_range\<close>)
  moreover have "off + 4 * Suc j = ?r + 4" by simp
  with f3(5) have "els_at el sz (of_bytes f3) (?r + 4) (pos + sz kv) kvs" by (simp only:)
  ultimately have els: "els_at el sz (of_bytes f3) ?r pos (kv # kvs)" using rec by simp
  have "changes (of_bytes f) (of_bytes f2) ?S (pos + sum_list (map sz (kv # kvs)))"
    by (rule changes_trans [OF 1 f2(4)]) (use Cons.prems(4) in auto)
  then have "changes (of_bytes f) (of_bytes f3) ?S (pos + sum_list (map sz (kv # kvs)))"
    by (rule changes_trans [OF _ f3(4)]) (use Cons.prems(4) in auto)
  with run f3(2,3) els show ?case by blast
qed simp

lemma WriteBucket_ok:
  assumes li: "ll_inv li" and ne: "ll_list li \<noteq> []" and good: "\<forall>kv \<in> set (ll_list li). good kv"
    and room: "pos + bucket_size sz (ll_list li) < 2 ^ 32" and m: "never_fails m" and f: "of_plan f = []"
  shows "\<exists>m' f'. WriteBucket fn m f li (of_nat pos) = Inr (of_nat (bucket_size sz (ll_list li)), m', f') \<and>
      never_fails m' \<and> of_plan f' = [] \<and>
      changes (of_bytes f) (of_bytes f') {pos..<pos + bucket_size sz (ll_list li)} (pos + bucket_size sz (ll_list li)) \<and>
      els_at el sz (of_bytes f') pos (pos + 4 * length (ll_list li)) (ll_list li)"
proof -
  let ?l = "ll_list li"
  have n: "NumElementsInLinkedList li = of_nat (length ?l)"
    using li by (simp add: NumElementsInLinkedList_def of_nat_num)
  have "unat (of_nat (length ?l) :: 32 word) = length ?l" using ll_list_room [OF li] by (rule unat_of_nat32)
  then have len: "unat (NumElementsInLinkedList li) = length ?l" "0 < NumElementsInLinkedList li"
    using ne by (simp_all add: n word_less_nat_alt)
  obtain it m1 where it: "LLMakeIterator m li 0 = Inr (Some it, m1)" "never_fails m1" "it_at li it 0"
    using MakeIterator_list [OF li, of 0 m] ne m by auto
  have d: "drop 0 ?l = ?l" by simp
  have p: "(of_nat pos + 4 * of_nat (length ?l) :: 32 word) = of_nat (pos + 4 * length ?l)" by simp
  obtain m' f' where r: "write_chain (length ?l) 0 fn m1 f li it (of_nat pos) (4 * of_nat (length ?l)) (of_nat (pos + 4 * length ?l)) =
      Inr (4 * of_nat (length ?l) + of_nat (sum_list (map sz ?l)), m', f')" "never_fails m'" "of_plan f' = []"
    "changes (of_bytes f) (of_bytes f') ({pos..<pos + 4 * length ?l} \<union>
       {pos + 4 * length ?l..<pos + 4 * length ?l + sum_list (map sz ?l)}) (pos + 4 * length ?l + sum_list (map sz ?l))"
    "els_at el sz (of_bytes f') pos (pos + 4 * length ?l) ?l"
    using write_chain_ok [OF li d it(3) good _ _ it(2) f, of pos "pos + 4 * length ?l" "4 * of_nat (length ?l)"] room
    by (auto simp: bucket_size_def)
  have "WriteBucket fn m f li (of_nat pos) = Inr (of_nat (bucket_size sz ?l), m', f')"
    using len it(1) r(1) unfolding WriteBucket_def Let_def n p by (simp add: bucket_size_def)
  moreover have "{pos..<pos + 4 * length ?l} \<union> {pos + 4 * length ?l..<pos + 4 * length ?l + sum_list (map sz ?l)} =
      {pos..<pos + bucket_size sz ?l}" by (auto simp: bucket_size_def)
  ultimately show ?thesis using r(2-5) by (simp add: bucket_size_def add.assoc)
qed

lemma write_buckets_ok:
  assumes inv: "\<forall>li \<in> set (ht_buckets t). ll_inv li"
  shows "drop i (ht_buckets t) = ls \<Longrightarrow> \<forall>li \<in> set ls. \<forall>kv \<in> set (ll_list li). good kv \<Longrightarrow>
    r + 8 * length ls \<le> pos \<Longrightarrow> pos + sum_list (map (bucket_size sz) (map ll_list ls)) < 2 ^ 32 \<Longrightarrow>
    never_fails m \<Longrightarrow> of_plan f = [] \<Longrightarrow>
    \<exists>m' f'. write_buckets (length ls) i fn m f t (of_nat r) (of_nat pos) =
        Inr (of_nat (pos + sum_list (map (bucket_size sz) (map ll_list ls))), m', f') \<and>
      never_fails m' \<and> of_plan f' = [] \<and>
      changes (of_bytes f) (of_bytes f')
        ({r..<r + 8 * length ls} \<union> {pos..<pos + sum_list (map (bucket_size sz) (map ll_list ls))})
        (pos + sum_list (map (bucket_size sz) (map ll_list ls))) \<and>
      buckets_at el sz (of_bytes f') r pos (map ll_list ls)"
proof (induction ls arbitrary: i r pos m f)
  case (Cons li ls)
  let ?l = "ll_list li" and ?sum = "sum_list (map (bucket_size sz) (map ll_list ls))"
  let ?rec = "bucket_rec_disk (of_nat (length ?l)) (of_nat pos)"
  let ?f1 = "f\<lparr>of_bytes := write_at (of_bytes f) r ?rec, of_pos := r + 8\<rparr>"
  have i: "i < length (ht_buckets t)" using Cons.prems(1) by (metis drop_all list.distinct(1) not_less)
  have li: "ht_buckets t ! i = li" "drop (Suc i) (ht_buckets t) = ls"
    using Cons.prems(1) i by (simp_all add: Cons_nth_drop_Suc [symmetric])
  have inv_li: "ll_inv li" using inv i li(1) by (metis nth_mem)
  have n: "NumElementsInLinkedList li = of_nat (length ?l)"
    using inv_li by (simp add: NumElementsInLinkedList_def of_nat_num)
  have "unat (of_nat r :: 32 word) = r" using Cons.prems(3,4) by (simp add: unat_of_nat32)
  then have rec: "WriteBucketRecord f li (of_nat r) (of_nat pos) = (8, ?f1)"
    using Cons.prems(6) by (simp add: WriteBucketRecord_def n)
  have c1: "changes (of_bytes f) (of_bytes ?f1) {r..<r + 8} (r + 8)"
    using write_at_changes [of "of_bytes f" r ?rec] by simp
  have h1: "has_bytes (of_bytes ?f1) r ?rec" by (simp add: write_at_has)
  have good: "\<forall>kv \<in> set ?l. good kv" "\<forall>li \<in> set ls. \<forall>kv \<in> set (ll_list li). good kv" using Cons.prems(2) by simp_all
  obtain m2 f2 where f2: "(if 0 < NumElementsInLinkedList li
        then bindE (WriteBucket fn m ?f1 li (of_nat pos)) (\<lambda>(res, m, f). bindE (Verify333 (res \<noteq> 0)) (\<lambda>_. Inr (of_nat pos + res, m, f)))
        else Inr (of_nat pos, m, ?f1)) = Inr (of_nat (pos + bucket_size sz ?l), m2, f2)"
      "never_fails m2" "of_plan f2 = []"
      "changes (of_bytes ?f1) (of_bytes f2) {pos..<pos + bucket_size sz ?l} (pos + bucket_size sz ?l)"
      "els_at el sz (of_bytes f2) pos (pos + 4 * length ?l) ?l"
  proof (cases "?l = []")
    case True
    then show ?thesis using that [of m ?f1] Cons.prems(5,6) by (simp add: n bucket_size_def)
  next
    case False
    have u: "unat (of_nat (bucket_size sz ?l) :: 32 word) = bucket_size sz ?l"
      using Cons.prems(4) by (simp add: unat_of_nat32)
    have "of_nat (bucket_size sz ?l) \<noteq> (0 :: 32 word)"
    proof
      assume "of_nat (bucket_size sz ?l) = (0 :: 32 word)"
      then have "bucket_size sz ?l = 0" using u by (metis unat_0)
      then show False using False by (simp add: bucket_size_def)
    qed
    moreover have "0 < NumElementsInLinkedList li" using False Num_pos_iff [OF inv_li] by simp
    ultimately show ?thesis
      using WriteBucket_ok [OF inv_li False good(1), of pos m ?f1] Cons.prems(4-6) that by auto
  qed
  obtain m3 f3 where f3: "write_buckets (length ls) (Suc i) fn m2 f2 t (of_nat (r + 8)) (of_nat (pos + bucket_size sz ?l)) =
      Inr (of_nat (pos + bucket_size sz ?l + ?sum), m3, f3)" "never_fails m3" "of_plan f3 = []"
    "changes (of_bytes f2) (of_bytes f3) ({r + 8..<r + 8 + 8 * length ls} \<union>
       {pos + bucket_size sz ?l..<pos + bucket_size sz ?l + ?sum}) (pos + bucket_size sz ?l + ?sum)"
    "buckets_at el sz (of_bytes f3) (r + 8) (pos + bucket_size sz ?l) (map ll_list ls)"
    using Cons.IH [OF li(2) good(2) _ _ f2(2,3), of "r + 8" "pos + bucket_size sz ?l"] Cons.prems(3,4) by auto
  have run: "write_buckets (length (li # ls)) i fn m f t (of_nat r) (of_nat pos) =
      Inr (of_nat (pos + bucket_size sz ?l + ?sum), m3, f3)"
    using i li(1) rec f2(1) f3(1) by (auto simp: res_simps split: if_splits)
  have p: "r + 8 \<le> pos" using Cons.prems(3) by simp
  have "has_bytes (of_bytes f2) r ?rec"
    by (rule has_bytes_kept [OF h1 f2(4)]) (use p in \<open>simp add: apart_range\<close>)
  then have "has_bytes (of_bytes f3) r ?rec"
    by (rule has_bytes_kept [OF _ f3(4)]) (use p in \<open>simp add: apart_range\<close>)
  moreover have "els_at el sz (of_bytes f3) pos (pos + 4 * length ?l) ?l"
    by (rule els_kept [OF good(1) f2(5) f3(4)]) (use Cons.prems(3) in \<open>simp_all add: apart_range bucket_size_def\<close>)
  ultimately have b: "buckets_at el sz (of_bytes f3) r pos (map ll_list (li # ls))" using f3(5) by simp
  let ?S = "{r..<r + 8 * length (li # ls)} \<union> {pos..<pos + sum_list (map (bucket_size sz) (map ll_list (li # ls)))}"
  have "changes (of_bytes f) (of_bytes f2) ?S (pos + bucket_size sz ?l + ?sum)"
    by (rule changes_trans [OF c1 f2(4)]) (use p in auto)
  then have "changes (of_bytes f) (of_bytes f3) ?S (pos + bucket_size sz ?l + ?sum)"
    by (rule changes_trans [OF _ f3(4)]) (use p in auto)
  with run f3(2,3) b show ?case by (simp add: add.assoc)
qed simp

lemma WriteHashTable_ok:
  assumes inv: "ht_inv t" and good: "\<forall>kv \<in> set (ht_entries t). good kv"
    and room: "off + table_size sz (chains t) < 2 ^ 32" and m: "never_fails m" and f: "of_plan f = []"
  shows "\<exists>m' f'. WriteHashTable fn m f t (of_nat off) = Inr (of_nat (table_size sz (chains t)), m', f') \<and>
      never_fails m' \<and> of_plan f' = [] \<and>
      changes (of_bytes f) (of_bytes f') {off..<off + table_size sz (chains t)} (off + table_size sz (chains t)) \<and>
      table_at el sz (of_bytes f') off (chains t)"
proof -
  let ?n = "length (ht_buckets t)" and ?sum = "sum_list (map (bucket_size sz) (map ll_list (ht_buckets t)))"
  let ?hd = "bucket_list_header_disk (ht_num_buckets t)"
  let ?f1 = "f\<lparr>of_bytes := write_at (of_bytes f) off ?hd, of_pos := off + 4\<rparr>"
  have n: "length (ht_buckets t) = unat (ht_num_buckets t)" using inv by (simp add: ht_inv_def)
  have n': "ht_num_buckets t = of_nat ?n" unfolding n by simp
  have size: "table_size sz (chains t) = 4 + 8 * ?n + ?sum" by (simp add: table_size_def chains_def)
  have off: "unat (of_nat off :: 32 word) = off" using room by (simp add: unat_of_nat32)
  have lls: "\<forall>li \<in> set (ht_buckets t). ll_inv li" using ht_inv_ll_inv [OF inv] by (auto simp: in_set_conv_nth)
  have good': "\<forall>li \<in> set (ht_buckets t). \<forall>kv \<in> set (ll_list li). good kv" using good by (auto simp: ht_entries_def)
  have d: "drop 0 (ht_buckets t) = ht_buckets t" by simp
  have f1: "of_plan ?f1 = []" using f by simp
  have p: "(of_nat (off + 4) + ht_num_buckets t * 8 :: 32 word) = of_nat (off + 4 + 8 * ?n)"
    unfolding n' by (simp add: mult.commute)
  have p4: "(of_nat off + 4 :: 32 word) = of_nat (off + 4)" by simp
  obtain m' f' where r: "write_buckets ?n 0 fn m ?f1 t (of_nat (off + 4)) (of_nat (off + 4 + 8 * ?n)) =
      Inr (of_nat (off + 4 + 8 * ?n + ?sum), m', f')" "never_fails m'" "of_plan f' = []"
    "changes (of_bytes ?f1) (of_bytes f') ({off + 4..<off + 4 + 8 * ?n} \<union> {off + 4 + 8 * ?n..<off + 4 + 8 * ?n + ?sum})
       (off + 4 + 8 * ?n + ?sum)"
    "buckets_at el sz (of_bytes f') (off + 4) (off + 4 + 8 * ?n) (map ll_list (ht_buckets t))"
    using write_buckets_ok [OF lls d good' _ _ m f1, of "off + 4" "off + 4 + 8 * ?n"] room size by auto
  have "WriteHashTable fn m f t (of_nat off) = Inr (of_nat (off + 4 + 8 * ?n + ?sum) - of_nat off, m', f')"
    using f off r(1) unfolding WriteHashTable_def Let_def p p4 n [symmetric] by simp
  also have "of_nat (off + 4 + 8 * ?n + ?sum) - of_nat off = (of_nat (table_size sz (chains t)) :: 32 word)"
    by (simp add: size)
  finally have run: "WriteHashTable fn m f t (of_nat off) = Inr (of_nat (table_size sz (chains t)), m', f')" .
  have c1: "changes (of_bytes f) (of_bytes ?f1) {off..<off + 4} (off + 4)"
    using write_at_changes [of "of_bytes f" off ?hd] by simp
  have h1: "has_bytes (of_bytes ?f1) off ?hd" by (simp add: write_at_has)
  have "has_bytes (of_bytes f') off ?hd"
    by (rule has_bytes_kept [OF h1 r(4)]) (simp add: apart_range)
  then have "table_at el sz (of_bytes f') off (chains t)"
    using r(5) by (simp add: table_at_def chains_def n' [symmetric])
  moreover have "changes (of_bytes f) (of_bytes f') {off..<off + table_size sz (chains t)} (off + table_size sz (chains t))"
    by (rule changes_trans [OF c1 r(4)]) (use size in auto)
  ultimately show ?thesis using run r(2,3) by blast
qed

end

end
