(* ===== verification/FileIndexWriterSpec.thy ===== *)
theory FileIndexWriterSpec
  imports IndexFormat
begin

text \<open>
  The three functions that write an element meet the contract \<open>element_writer\<close>, and what
  \<open>WriteIndex\<close> leaves behind: both tables behind a header with their sizes and checksum.
\<close>

section \<open>The three kinds of elements\<close>

text \<open>A document name: the id, the length and the characters.\<close>

definition name_good :: "string ht_kv \<Rightarrow> bool" where
  "name_good kv \<longleftrightarrow> kv_value kv \<noteq> [] \<and> length (kv_value kv) < 2 ^ 16"

definition name_size :: "string ht_kv \<Rightarrow> nat" where
  "name_size kv = 10 + length (kv_value kv)"

definition name_at :: "byte list \<Rightarrow> nat \<Rightarrow> string ht_kv \<Rightarrow> bool" where
  "name_at B pos kv \<longleftrightarrow> has_bytes B pos
     (doctable_element_header_disk (kv_key kv) (of_nat (length (kv_value kv))) @ bytes_of (kv_value kv))"

text \<open>The positions of a word in one document.\<close>

definition posting_good :: "DocPositionOffset_t linked_list ht_kv \<Rightarrow> bool" where
  "posting_good kv \<longleftrightarrow> ll_inv (kv_value kv) \<and> ll_list (kv_value kv) \<noteq> []"

definition posting_size :: "DocPositionOffset_t linked_list ht_kv \<Rightarrow> nat" where
  "posting_size kv = 12 + 4 * length (ll_list (kv_value kv))"

definition posting_at :: "byte list \<Rightarrow> nat \<Rightarrow> DocPositionOffset_t linked_list ht_kv \<Rightarrow> bool" where
  "posting_at B pos kv \<longleftrightarrow> has_bytes B pos
     (docid_element_header_disk (kv_key kv) (of_nat (length (ll_list (kv_value kv)))) @
      concat (map docid_element_position_disk (ll_list (kv_value kv))))"

text \<open>A word: its length, the size of its table, its characters, and the table of its documents.\<close>

definition set_good :: "word_doc_set \<Rightarrow> bool" where
  "set_good wds \<longleftrightarrow> wds_word wds \<noteq> [] \<and> length (wds_word wds) < 2 ^ 16 \<and> ht_inv (wds_docIDs wds) \<and>
     (\<forall>kv \<in> set (ht_entries (wds_docIDs wds)). posting_good kv)"

definition set_size :: "word_doc_set \<Rightarrow> nat" where
  "set_size wds = 6 + length (wds_word wds) + table_size posting_size (chains (wds_docIDs wds))"

definition set_at :: "byte list \<Rightarrow> nat \<Rightarrow> word_doc_set \<Rightarrow> bool" where
  "set_at B pos wds \<longleftrightarrow> has_bytes B pos
     (worddocset_header_disk (of_nat (length (wds_word wds))) (of_nat (table_size posting_size (chains (wds_docIDs wds)))) @
      bytes_of (wds_word wds)) \<and>
     table_at posting_at posting_size B (pos + 6 + length (wds_word wds)) (chains (wds_docIDs wds))"

definition word_good :: "word_doc_set store \<Rightarrow> nat ht_kv \<Rightarrow> bool" where
  "word_good s kv \<longleftrightarrow> (case st_cells s (kv_value kv) of None \<Rightarrow> False | Some wds \<Rightarrow> set_good wds)"

definition word_size :: "word_doc_set store \<Rightarrow> nat ht_kv \<Rightarrow> nat" where
  "word_size s kv = (case st_cells s (kv_value kv) of None \<Rightarrow> 0 | Some wds \<Rightarrow> set_size wds)"

definition word_at :: "word_doc_set store \<Rightarrow> byte list \<Rightarrow> nat \<Rightarrow> nat ht_kv \<Rightarrow> bool" where
  "word_at s B pos kv \<longleftrightarrow> (case st_cells s (kv_value kv) of None \<Rightarrow> False | Some wds \<Rightarrow> set_at B pos wds)"

lemma has_bytes_inside: "has_bytes B pos bs \<Longrightarrow> pos + length bs \<le> length B"
  by (simp add: has_bytes_def)

lemma unat_of_nat16: "n < 2 ^ 16 \<Longrightarrow> unat (of_nat n :: 16 word) = n"
  by (simp add: unsigned_of_nat take_bit_nat_eq_self)

lemma ucast_of_nat16: "n < 2 ^ 16 \<Longrightarrow> (ucast (of_nat n :: 16 word) :: 32 word) = of_nat n"
proof -
  assume "n < 2 ^ 16"
  then have "(of_nat (unat (of_nat n :: 16 word)) :: 32 word) = of_nat n" by (simp only: unat_of_nat16)
  then show ?thesis by simp
qed

text \<open>Two writes one after the other are one write.\<close>

lemma write_at_append:
  "write_at (write_at B pos xs) (pos + length xs) ys = write_at B pos (xs @ ys)"
proof -
  have l: "length (take pos B @ replicate (pos - length B) 0 @ xs) = pos + length xs" by simp
  have t: "take (pos + length xs) (write_at B pos xs) = take pos B @ replicate (pos - length B) 0 @ xs"
    using l by (simp add: write_at_def)
  have d: "drop (pos + length xs + length ys) (write_at B pos xs) = drop (pos + length (xs @ ys)) B"
  proof -
    have "min (length B) pos + (pos - length B) = pos" by simp
    then show ?thesis by (simp add: write_at_def algebra_simps)
  qed
  have "pos + length xs - length (write_at B pos xs) = 0" by (simp add: write_at_def)
  then show ?thesis unfolding write_at_def [of "write_at B pos xs"] t d by (simp add: write_at_def)
qed

lemma name_written:
  assumes good: "name_good kv" and room: "pos + name_size kv < 2 ^ 32" and f: "of_plan f = []"
  shows "\<exists>f'. WriteDocidDocnameFn m f (of_nat pos) kv = Inr (of_nat (name_size kv), m, f') \<and> of_plan f' = [] \<and>
     changes (of_bytes f) (of_bytes f') {pos..<pos + name_size kv} (pos + name_size kv) \<and> name_at (of_bytes f') pos kv"
proof -
  let ?hd = "doctable_element_header_disk (kv_key kv) (of_nat (length (kv_value kv)))"
  let ?f' = "f\<lparr>of_bytes := write_at (of_bytes f) pos (?hd @ bytes_of (kv_value kv)), of_pos := pos + name_size kv\<rparr>"
  have len: "length (kv_value kv) < 2 ^ 16" "bytes_of (kv_value kv) \<noteq> []"
    using good by (simp_all add: name_good_def bytes_of_def)
  have "take (unat (of_nat (length (kv_value kv)) :: 16 word)) (bytes_of (kv_value kv)) = bytes_of (kv_value kv)"
    by (simp only: unat_of_nat16 [OF len(1)]) simp
  moreover have "unat (of_nat pos :: 32 word) = pos" using room by (simp add: unat_of_nat32)
  moreover have "write_at (write_at (of_bytes f) pos ?hd) (pos + 10) (bytes_of (kv_value kv)) =
      write_at (of_bytes f) pos (?hd @ bytes_of (kv_value kv))"
    using write_at_append [of "of_bytes f" pos ?hd] by simp
  ultimately have "WriteDocidDocnameFn m f (of_nat pos) kv = Inr (of_nat (name_size kv), m, ?f')"
    using f len(2) ucast_of_nat16 [OF len(1)] by (simp add: WriteDocidDocnameFn_def Let_def name_size_def add.assoc)
  moreover have "name_at (of_bytes ?f') pos kv" by (simp add: name_at_def write_at_has)
  moreover have "changes (of_bytes f) (of_bytes ?f') {pos..<pos + name_size kv} (pos + name_size kv)"
    using write_at_changes [of "of_bytes f" pos "?hd @ bytes_of (kv_value kv)"] by (simp add: name_size_def add.assoc)
  ultimately show ?thesis using f by (intro exI [of _ ?f']) simp
qed

interpretation names: element_writer WriteDocidDocnameFn name_good name_size name_at
proof
  fix kv B B' S H pos m f
  assume good: "name_good kv"
  show "0 < name_size kv" by (simp add: name_size_def)
  show "name_at B pos kv \<Longrightarrow> pos + name_size kv \<le> length B"
    unfolding name_at_def by (drule has_bytes_inside) (simp add: name_size_def add.assoc)
  show "name_at B pos kv \<Longrightarrow> changes B B' S H \<Longrightarrow> apart pos (pos + name_size kv) S \<Longrightarrow> name_at B' pos kv"
    unfolding name_at_def by (erule has_bytes_kept) (simp_all add: name_size_def add.assoc)
  show "pos + name_size kv < 2 ^ 32 \<Longrightarrow> never_fails m \<Longrightarrow> of_plan f = [] \<Longrightarrow>
      \<exists>m' f'. WriteDocidDocnameFn m f (of_nat pos) kv = Inr (of_nat (name_size kv), m', f') \<and> never_fails m' \<and> of_plan f' = [] \<and>
        changes (of_bytes f) (of_bytes f') {pos..<pos + name_size kv} (pos + name_size kv) \<and> name_at (of_bytes f') pos kv"
    using name_written [OF good] by blast
qed

lemma write_positions_ok:
  assumes l: "ll_inv l"
  shows "drop j (ll_list l) = ps \<Longrightarrow> (ps \<noteq> [] \<Longrightarrow> it_at l it j) \<Longrightarrow> of_plan f = [] \<Longrightarrow>
    of_bytes f = write_at B pos bs \<Longrightarrow> of_pos f = pos + length bs \<Longrightarrow>
    \<exists>f'. write_positions (length ps) f l it = Inr f' \<and> of_plan f' = [] \<and>
      of_bytes f' = write_at B pos (bs @ concat (map docid_element_position_disk ps))"
proof (induction ps arbitrary: j it f bs)
  case (Cons p ps)
  let ?bs = "bs @ docid_element_position_disk p"
  have j: "j < length (ll_list l)" using Cons.prems(1) by (metis drop_all list.distinct(1) not_less)
  have p: "ll_list l ! j = p" "drop (Suc j) (ll_list l) = ps"
    using Cons.prems(1) j by (simp_all add: Cons_nth_drop_Suc [symmetric])
  have it: "it_at l it j" using Cons.prems(2) by simp
  obtain more it1 where nx: "LLIteratorNext l it = Inr (more, it1)"
    "it_at l it1 (if Suc j < length (ll_list l) then Suc j else j)" using Next_list [OF l it] by blast
  have "ps \<noteq> [] \<Longrightarrow> Suc j < length (ll_list l)" using p(2) by (metis drop_all not_less)
  then have it1: "ps \<noteq> [] \<Longrightarrow> it_at l it1 (Suc j)" using nx(2) by simp
  let ?f = "f\<lparr>of_bytes := write_at B pos ?bs, of_pos := pos + length bs + 4\<rparr>"
  have w: "fwrite f (docid_element_position_disk p) = (True, ?f)"
    using Cons.prems(3-5) write_at_append [of B pos bs "docid_element_position_disk p"] by simp
  obtain f' where f': "write_positions (length ps) ?f l it1 = Inr f'" "of_plan f' = []"
    "of_bytes f' = write_at B pos (?bs @ concat (map docid_element_position_disk ps))"
    using Cons.IH [OF p(2) it1, of ?f ?bs] Cons.prems(3) by auto
  then show ?case using GetPayload_list [OF l it] p(1) w nx(1) by auto
qed simp

lemma length_positions: "length (concat (map docid_element_position_disk ps)) = 4 * length ps"
  by (induction ps) simp_all

lemma posting_written:
  assumes good: "posting_good kv" and room: "pos + posting_size kv < 2 ^ 32" and m: "never_fails m" and f: "of_plan f = []"
  shows "\<exists>m' f'. WriteDocPositionListFn m f (of_nat pos) kv = Inr (of_nat (posting_size kv), m', f') \<and> never_fails m' \<and>
     of_plan f' = [] \<and> changes (of_bytes f) (of_bytes f') {pos..<pos + posting_size kv} (pos + posting_size kv) \<and>
     posting_at (of_bytes f') pos kv"
proof -
  let ?l = "kv_value kv"
  let ?ps = "ll_list ?l"
  let ?hd = "docid_element_header_disk (kv_key kv) (of_nat (length ?ps))"
  let ?f = "f\<lparr>of_bytes := write_at (of_bytes f) pos ?hd, of_pos := pos + 12\<rparr>"
  let ?bs = "?hd @ concat (map docid_element_position_disk ?ps)"
  have l: "ll_inv ?l" "?ps \<noteq> []" using good by (simp_all add: posting_good_def)
  have n: "NumElementsInLinkedList ?l = of_nat (length ?ps)"
    using l(1) by (simp add: NumElementsInLinkedList_def of_nat_num)
  have u: "unat (of_nat (length ?ps) :: 32 word) = length ?ps" using ll_list_room [OF l(1)] by (rule unat_of_nat32)
  obtain it m1 where it: "LLMakeIterator m ?l 0 = Inr (Some it, m1)" "never_fails m1" "it_at ?l it 0"
    using MakeIterator_list [OF l(1), of 0 m] l(2) m by auto
  have d: "drop 0 ?ps = ?ps" by simp
  obtain f' where f': "write_positions (length ?ps) ?f ?l it = Inr f'" "of_plan f' = []" "of_bytes f' = write_at (of_bytes f) pos ?bs"
    using write_positions_ok [OF l(1) d it(3), of ?f "of_bytes f" pos ?hd] f by auto
  have "unat (of_nat pos :: 32 word) = pos" using room by (simp add: unat_of_nat32)
  then have "WriteDocPositionListFn m f (of_nat pos) kv = Inr (of_nat (posting_size kv), m1, f')"
    using f it(1) f'(1) by (simp add: WriteDocPositionListFn_def Let_def n u posting_size_def mult.commute)
  moreover have "posting_at (of_bytes f') pos kv" by (simp add: posting_at_def f'(3) write_at_has)
  moreover have "changes (of_bytes f) (of_bytes f') {pos..<pos + posting_size kv} (pos + posting_size kv)"
    using write_at_changes [of "of_bytes f" pos ?bs] by (simp add: f'(3) posting_size_def length_positions add.assoc)
  ultimately show ?thesis using it(2) f'(2) by blast
qed

interpretation postings: element_writer WriteDocPositionListFn posting_good posting_size posting_at
proof
  fix kv B B' S H pos m f
  assume good: "posting_good kv"
  show "0 < posting_size kv" by (simp add: posting_size_def)
  show "posting_at B pos kv \<Longrightarrow> pos + posting_size kv \<le> length B"
    unfolding posting_at_def by (drule has_bytes_inside) (simp add: posting_size_def length_positions add.assoc)
  show "posting_at B pos kv \<Longrightarrow> changes B B' S H \<Longrightarrow> apart pos (pos + posting_size kv) S \<Longrightarrow> posting_at B' pos kv"
    unfolding posting_at_def by (erule has_bytes_kept) (simp_all add: posting_size_def length_positions add.assoc)
  show "pos + posting_size kv < 2 ^ 32 \<Longrightarrow> never_fails m \<Longrightarrow> of_plan f = [] \<Longrightarrow>
      \<exists>m' f'. WriteDocPositionListFn m f (of_nat pos) kv = Inr (of_nat (posting_size kv), m', f') \<and> never_fails m' \<and> of_plan f' = [] \<and>
        changes (of_bytes f) (of_bytes f') {pos..<pos + posting_size kv} (pos + posting_size kv) \<and> posting_at (of_bytes f') pos kv"
    by (rule posting_written [OF good])
qed

lemma good_chains: "\<forall>kv \<in> set (ht_entries t). P kv \<Longrightarrow> \<forall>kvs \<in> set (chains t). \<forall>kv \<in> set kvs. P kv"
  by (auto simp: ht_entries_def chains_def)

lemma set_inside:
  assumes "set_good wds" "set_at B pos wds"
  shows "pos + set_size wds \<le> length B"
proof -
  have "\<forall>kvs \<in> set (chains (wds_docIDs wds)). \<forall>kv \<in> set kvs. posting_good kv"
    by (rule good_chains) (use assms(1) in \<open>simp add: set_good_def\<close>)
  from postings.table_inside [OF this, of B "pos + 6 + length (wds_word wds)"] show ?thesis
    using assms(2) by (simp add: set_at_def set_size_def)
qed

lemma set_kept:
  assumes good: "set_good wds" and at: "set_at B pos wds" and c: "changes B B' S H" "apart pos (pos + set_size wds) S"
  shows "set_at B' pos wds"
proof -
  let ?t = "wds_docIDs wds" and ?w = "wds_word wds"
  have g: "\<forall>kvs \<in> set (chains ?t). \<forall>kv \<in> set kvs. posting_good kv"
    by (rule good_chains) (use good in \<open>simp add: set_good_def\<close>)
  have a: "apart (pos + 6 + length ?w) (pos + 6 + length ?w + table_size posting_size (chains ?t)) S"
    "apart pos (pos + length (worddocset_header_disk (of_nat (length ?w)) (of_nat (table_size posting_size (chains ?t))) @ bytes_of ?w)) S"
    by (rule apart_sub [OF c(2)], simp_all add: set_size_def)+
  have "table_at posting_at posting_size B' (pos + 6 + length ?w) (chains ?t)"
    by (rule postings.table_kept [OF g _ c(1) a(1)]) (use at in \<open>simp add: set_at_def\<close>)
  then show ?thesis using has_bytes_kept [OF _ c(1) a(2)] at by (simp add: set_at_def)
qed

lemma set_written:
  assumes cell: "st_cells s (kv_value kv) = Some wds" and good: "set_good wds" and room: "pos + set_size wds < 2 ^ 32"
    and m: "never_fails m" and f: "of_plan f = []"
  shows "\<exists>m' f'. WriteWordDocSetFn s m f (of_nat pos) kv = Inr (of_nat (set_size wds), m', f') \<and> never_fails m' \<and>
     of_plan f' = [] \<and> changes (of_bytes f) (of_bytes f') {pos..<pos + set_size wds} (pos + set_size wds) \<and>
     set_at (of_bytes f') pos wds"
proof -
  let ?t = "wds_docIDs wds" and ?w = "wds_word wds"
  let ?n = "table_size posting_size (chains ?t)" and ?off = "pos + 6 + length ?w"
  let ?hd = "worddocset_header_disk (of_nat (length ?w)) (of_nat ?n)"
  have w: "length ?w < 2 ^ 16" "bytes_of ?w \<noteq> []" "ht_inv ?t" "\<forall>kv \<in> set (ht_entries ?t). posting_good kv"
    using good by (simp_all add: set_good_def bytes_of_def)
  have u: "unat (of_nat (length ?w) :: 16 word) = length ?w" "ucast (of_nat (length ?w) :: 16 word) = (of_nat (length ?w) :: 32 word)"
    using w(1) by (rule unat_of_nat16, rule ucast_of_nat16)
  have pos: "0 < (of_nat (length ?w) :: 16 word)" using u(1) w(2) by (simp add: word_less_nat_alt bytes_of_def)
  have off: "(of_nat pos + 6 + of_nat (length ?w) :: 32 word) = of_nat ?off" by simp
  obtain m1 f1 where t: "WriteHashTable WriteDocPositionListFn m f ?t (of_nat ?off) = Inr (of_nat ?n, m1, f1)"
    "never_fails m1" "of_plan f1 = []" "changes (of_bytes f) (of_bytes f1) {?off..<?off + ?n} (?off + ?n)"
    "table_at posting_at posting_size (of_bytes f1) ?off (chains ?t)"
    using postings.WriteHashTable_ok [OF w(3,4) _ m f, of ?off] room by (auto simp: set_size_def add.assoc)
  let ?B = "write_at (of_bytes f1) pos (?hd @ bytes_of ?w)"
  let ?f' = "f1\<lparr>of_bytes := ?B, of_pos := pos + 6 + length ?w\<rparr>"
  have tk: "take (unat (of_nat (length ?w) :: 16 word)) (bytes_of ?w) = bytes_of ?w" by (simp only: u(1)) simp
  have two: "write_at (write_at (of_bytes f1) pos ?hd) (pos + 6) (bytes_of ?w) = ?B"
    using write_at_append [of "of_bytes f1" pos ?hd] by simp
  have "unat (of_nat pos :: 32 word) = pos" using room by (simp add: unat_of_nat32)
  moreover have "(6 + of_nat (length ?w) + of_nat ?n :: 32 word) = of_nat (set_size wds)" by (simp add: set_size_def)
  ultimately have run: "WriteWordDocSetFn s m f (of_nat pos) kv = Inr (of_nat (set_size wds), m1, ?f')"
    using cell pos t(1,3) w(2) unfolding WriteWordDocSetFn_def Let_def by (simp add: tk two u(2))
  have c: "changes (of_bytes f1) ?B {pos..<?off} ?off"
    using write_at_changes [of "of_bytes f1" pos "?hd @ bytes_of ?w"] by (simp add: add.assoc)
  have g: "\<forall>kvs \<in> set (chains ?t). \<forall>kv \<in> set kvs. posting_good kv" using w(4) by (rule good_chains)
  have "table_at posting_at posting_size ?B ?off (chains ?t)"
    by (rule postings.table_kept [OF g t(5) c]) (simp add: apart_range)
  then have "set_at (of_bytes ?f') pos wds" by (simp add: set_at_def write_at_has)
  moreover have "changes (of_bytes f) (of_bytes ?f') {pos..<pos + set_size wds} (pos + set_size wds)"
    by (rule changes_trans [OF t(4)]) (use c in \<open>auto simp: set_size_def\<close>)
  ultimately show ?thesis using run t(2,3) by (intro exI [of _ m1] exI [of _ ?f']) simp
qed

interpretation words: element_writer "WriteWordDocSetFn s" "word_good s" "word_size s" "word_at s" for s
proof
  fix kv B B' S H pos m f
  assume "word_good s kv"
  then obtain wds where cell: "st_cells s (kv_value kv) = Some wds" and good: "set_good wds"
    by (auto simp: word_good_def split: option.splits)
  show "0 < word_size s kv" by (simp add: word_size_def cell set_size_def)
  show "word_at s B pos kv \<Longrightarrow> pos + word_size s kv \<le> length B"
    using set_inside [OF good] by (simp add: word_at_def word_size_def cell)
  show "word_at s B pos kv \<Longrightarrow> changes B B' S H \<Longrightarrow> apart pos (pos + word_size s kv) S \<Longrightarrow> word_at s B' pos kv"
    using set_kept [OF good] by (simp add: word_at_def word_size_def cell)
  show "pos + word_size s kv < 2 ^ 32 \<Longrightarrow> never_fails m \<Longrightarrow> of_plan f = [] \<Longrightarrow>
      \<exists>m' f'. WriteWordDocSetFn s m f (of_nat pos) kv = Inr (of_nat (word_size s kv), m', f') \<and> never_fails m' \<and> of_plan f' = [] \<and>
        changes (of_bytes f) (of_bytes f') {pos..<pos + word_size s kv} (pos + word_size s kv) \<and> word_at s (of_bytes f') pos kv"
    using set_written [OF cell good] by (simp add: word_at_def word_size_def cell)
qed

section \<open>The whole file\<close>

definition doc_size :: "doc_table \<Rightarrow> nat" where
  "doc_size dt = table_size name_size (chains (DTGetDocidTable dt))"

definition word_table_size :: "mem_index \<Rightarrow> nat" where
  "word_table_size I = table_size (word_size (mi_store I)) (chains (mi_table I))"

text \<open>The two tables, behind a header that holds their sizes and the checksum of their bytes.\<close>

definition written_file :: "byte list \<Rightarrow> mem_index \<Rightarrow> doc_table \<Rightarrow> bool" where
  "written_file B I dt \<longleftrightarrow>
     length B = 16 + doc_size dt + word_table_size I \<and> length B < 2 ^ 32 \<and>
     has_bytes B 0 (header_disk \<lparr>magic_number = MAGIC_NUMBER, checksum = crc_bytes (drop 16 B),
       doctable_size = of_nat (doc_size dt), index_size = of_nat (word_table_size I)\<rparr>) \<and>
     table_at name_at name_size B 16 (chains (DTGetDocidTable dt)) \<and>
     table_at (word_at (mi_store I)) (word_size (mi_store I)) B (16 + doc_size dt) (chains (mi_table I))"

text \<open>What can be written: no name and no word is empty or too long for its length field.\<close>

definition names_fit :: "doc_table \<Rightarrow> bool" where
  "names_fit dt \<longleftrightarrow> ht_inv (DTGetDocidTable dt) \<and> (\<forall>kv \<in> set (ht_entries (DTGetDocidTable dt)). name_good kv)"

definition words_fit :: "mem_index \<Rightarrow> bool" where
  "words_fit I \<longleftrightarrow> ht_inv (mi_table I) \<and> (\<forall>kv \<in> set (ht_entries (mi_table I)). word_good (mi_store I) kv)"

lemma checksum_loop_ok:
  "of_plan f = [] \<Longrightarrow> of_pos f + n \<le> length (of_bytes f) \<Longrightarrow> \<not> crc_finalized c \<Longrightarrow>
   checksum_loop n f c =
     Inr (c\<lparr>crc_state := foldl crc_byte (crc_state c) (take n (drop (of_pos f) (of_bytes f)))\<rparr>, f\<lparr>of_pos := of_pos f + n\<rparr>)"
proof (induction n arbitrary: f c)
  case (Suc n)
  have d: "drop (of_pos f) (of_bytes f) = of_bytes f ! of_pos f # drop (Suc (of_pos f)) (of_bytes f)"
    using Suc.prems(2) by (simp add: Cons_nth_drop_Suc)
  show ?case using Suc.prems by (simp add: Suc.IH FoldByte_crc d)
qed simp

lemma WriteHeader_ok:
  assumes f: "of_plan f = []" and len: "16 + (a + b) \<le> length (of_bytes f)" and room: "a + b < 2 ^ 32"
  shows "\<exists>f'. WriteHeader f (of_nat a) (of_nat b) = Inr (16, f') \<and>
     of_bytes f' = write_at (of_bytes f) 0 (header_disk \<lparr>magic_number = MAGIC_NUMBER,
       checksum = crc_bytes (take (a + b) (drop 16 (of_bytes f))), doctable_size = of_nat a, index_size = of_nat b\<rparr>)"
proof -
  have "unat (of_nat a + of_nat b :: 32 word) = a + b" using unat_of_nat32 [OF room] by simp
  then show ?thesis
    using f len checksum_loop_ok [of "f\<lparr>of_pos := 16\<rparr>" "a + b" new_crc32]
    by (simp add: WriteHeader_def new_crc32_def GetFinalCRC_def crc_bytes_def)
qed

lemma changes_length: "changes B B' S H \<Longrightarrow> length B \<le> H \<Longrightarrow> H \<le> length B' \<Longrightarrow> length B' = H"
  by (auto simp: changes_def)

lemma WriteIndex_ok:
  assumes dt: "names_fit dt" and I: "words_fit I" and room: "16 + doc_size dt + word_table_size I < 2 ^ 32"
    and m: "never_fails m" and f: "of_plan f = []" "of_bytes f = []"
  shows "\<exists>m' B. WriteIndex m I dt (Some f) = Inr (of_nat (length B), m', Some B) \<and> never_fails m' \<and> written_file B I dt"
proof -
  let ?d = "doc_size dt" and ?w = "word_table_size I"
  have ht: "ht_inv (DTGetDocidTable dt)" "\<forall>kv \<in> set (ht_entries (DTGetDocidTable dt)). name_good kv"
    "ht_inv (mi_table I)" "\<forall>kv \<in> set (ht_entries (mi_table I)). word_good (mi_store I) kv"
    using dt I by (simp_all add: names_fit_def words_fit_def)
  note g = good_chains [OF ht(2)] good_chains [OF ht(4)]
  obtain m1 f1 where 1: "WriteDocTable m f dt (of_nat 16) = Inr (of_nat ?d, m1, f1)" "never_fails m1" "of_plan f1 = []"
    "changes (of_bytes f) (of_bytes f1) {16..<16 + ?d} (16 + ?d)"
    "table_at name_at name_size (of_bytes f1) 16 (chains (DTGetDocidTable dt))"
    using names.WriteHashTable_ok [OF ht(1,2) _ m f(1), of 16] room unfolding WriteDocTable_def doc_size_def by auto
  obtain m2 f2 where 2: "WriteMemIndex m1 f1 I (of_nat (16 + ?d)) = Inr (of_nat ?w, m2, f2)" "never_fails m2" "of_plan f2 = []"
    "changes (of_bytes f1) (of_bytes f2) {16 + ?d..<16 + ?d + ?w} (16 + ?d + ?w)"
    "table_at (word_at (mi_store I)) (word_size (mi_store I)) (of_bytes f2) (16 + ?d) (chains (mi_table I))"
    using words.WriteHashTable_ok [OF ht(3,4) _ 1(2,3), of "16 + ?d"] room unfolding WriteMemIndex_def word_table_size_def by auto
  have "16 + ?d \<le> length (of_bytes f1)" unfolding doc_size_def by (rule names.table_inside [OF g(1) 1(5)])
  then have l1: "length (of_bytes f1) = 16 + ?d" using changes_length [OF 1(4)] f(2) by simp
  have "16 + ?d + ?w \<le> length (of_bytes f2)" unfolding word_table_size_def by (rule words.table_inside [OF g(2) 2(5)])
  then have l2: "length (of_bytes f2) = 16 + ?d + ?w" using changes_length [OF 2(4)] l1 by simp
  let ?hd = "header_disk \<lparr>magic_number = MAGIC_NUMBER, checksum = crc_bytes (drop 16 (of_bytes f2)),
      doctable_size = of_nat ?d, index_size = of_nat ?w\<rparr>"
  let ?B = "write_at (of_bytes f2) 0 ?hd"
  obtain f3 where 3: "WriteHeader f2 (of_nat ?d) (of_nat ?w) = Inr (16, f3)" "of_bytes f3 = ?B"
    using WriteHeader_ok [OF 2(3), of ?d ?w] l2 room by auto
  have B: "length ?B = 16 + ?d + ?w" "drop 16 ?B = drop 16 (of_bytes f2)" using l2 by (simp_all add: write_at_def)
  have d0: "of_nat ?d \<noteq> (0 :: 32 word)"
  proof -
    have "unat (of_nat ?d :: 32 word) = ?d" using room by (simp add: unat_of_nat32)
    moreover have "?d \<noteq> 0" by (simp add: doc_size_def table_size_def)
    ultimately show ?thesis by (simp only: word32_eq_0_iff not_False_eq_True)
  qed
  have w16: "(16 :: 32 word) = of_nat 16" "(of_nat 16 + of_nat ?d :: 32 word) = of_nat (16 + ?d)" by simp_all
  have run: "WriteIndex m I dt (Some f) = Inr (of_nat (length ?B), m2, Some ?B)"
  proof -
    have r1: "WriteDocTable m f dt 16 = Inr (of_nat ?d, m1, f1)" using 1(1) by simp
    have r2: "WriteMemIndex m1 f1 I (16 + of_nat ?d) = Inr (of_nat ?w, m2, f2)" using 2(1) by simp
    have s: "(of_nat ?d + of_nat ?w + 16 :: 32 word) = of_nat (length ?B)" unfolding B(1) by simp
    show ?thesis unfolding WriteIndex_def Let_def option.case r1 bindE_Inr prod.case if_not_P [OF d0] r2 3(1)
      by (simp add: 3(2) s del: of_nat_add)
  qed
  have c: "changes (of_bytes f2) ?B {0..<16} 16" using write_at_changes [of "of_bytes f2" 0 ?hd] by simp
  have t1: "table_at name_at name_size (of_bytes f2) 16 (chains (DTGetDocidTable dt))"
    by (rule names.table_kept [OF g(1) 1(5) 2(4)]) (simp add: apart_range doc_size_def)
  have "table_at name_at name_size ?B 16 (chains (DTGetDocidTable dt))"
    by (rule names.table_kept [OF g(1) t1 c]) (simp add: apart_range)
  moreover have "table_at (word_at (mi_store I)) (word_size (mi_store I)) ?B (16 + ?d) (chains (mi_table I))"
    by (rule words.table_kept [OF g(2) 2(5) c]) (simp add: apart_range)
  moreover have "has_bytes ?B 0 ?hd" by (rule write_at_has)
  ultimately have "written_file ?B I dt" using room unfolding written_file_def B by blast
  with run 2(2) show ?thesis by blast
qed

end
