(* ===== verification/IndexReaders.thy ===== *)
theory IndexReaders
  imports FileLayout
begin

text \<open>
  Reading an index file: src/hw3/HashTableReader.cc, DocTableReader.cc, DocIDTableReader.cc,
  IndexTableReader.cc and FileIndexReader.cc.

  A file is its bytes, which do not change while a reader is open.  Each reader has a handle of
  its own and moves it before it reads, so the position is an argument and not part of a
  reader; opening, duplicating and closing handles is the subject of \<open>ReaderHandles\<close>.  A read past the end of
  the file is short; reads do not fail otherwise.
\<close>

section \<open>Hash tables on disk\<close>

definition fread :: "byte list \<Rightarrow> nat \<Rightarrow> nat \<Rightarrow> byte list option" where
  "fread B pos n = (if pos + n \<le> length B then Some (take n (drop pos B)) else None)"

record table_reader =
  htr_offset :: IndexFileOffset_t
  htr_num_buckets :: HWSize_t

definition HashTableReader :: "byte list \<Rightarrow> IndexFileOffset_t \<Rightarrow> table_reader res" where
  "HashTableReader B offset =
     (case fread B (unat offset) 4 of
        None \<Rightarrow> Inl Verify333_Failed
      | Some header \<Rightarrow> Inr \<lparr>htr_offset = offset, htr_num_buckets = host32 header\<rparr>)"

text \<open>The loop over the position records of a bucket; \<open>chain_len - i\<close> rounds are left.\<close>

fun read_element_positions :: "nat \<Rightarrow> byte list \<Rightarrow> nat \<Rightarrow> IndexFileOffset_t list res" where
  "read_element_positions 0 B pos = Inr []"
| "read_element_positions (Suc n) B pos =
     (case fread B pos 4 of
        None \<Rightarrow> Inl Verify333_Failed
      | Some element_pos \<Rightarrow>
          bindE (read_element_positions n B (pos + 4)) (\<lambda>retval. Inr (host32 element_pos # retval)))"

definition LookupElementPositions ::
  "byte list \<Rightarrow> table_reader \<Rightarrow> HTKey_t \<Rightarrow> IndexFileOffset_t list res" where
  "LookupElementPositions B r hashKey =
     (if htr_num_buckets r = 0 then Inl Undefined_Behaviour
      else
        let bucket_num = ucast (hashKey mod ucast (htr_num_buckets r)) :: HWSize_t;
            bucketrec_offset = htr_offset r + 4 + 8 * bucket_num
        in case fread B (unat bucketrec_offset) 8 of
             None \<Rightarrow> Inl Verify333_Failed
           | Some b_rec \<Rightarrow>
               let chain_len = host32 (take 4 b_rec); bucket_position = host32 (drop 4 b_rec) in
               if chain_len = 0 then Inr []
               else read_element_positions (unat chain_len) B (unat bucket_position))"

text \<open>Characters read one at a time.\<close>

fun read_chars :: "nat \<Rightarrow> byte list \<Rightarrow> nat \<Rightarrow> string res" where
  "read_chars 0 B pos = Inr []"
| "read_chars (Suc n) B pos =
     (case fread B pos 1 of
        None \<Rightarrow> Inl Verify333_Failed
      | Some nextc \<Rightarrow> bindE (read_chars n B (Suc pos)) (\<lambda>s. Inr (map (\<lambda>b. char_of (unat b)) nextc @ s)))"

section \<open>The table of documents\<close>

definition DocTableReader :: "byte list \<Rightarrow> IndexFileOffset_t \<Rightarrow> table_reader res" where
  "DocTableReader B offset = HashTableReader B offset"

fun find_docname :: "byte list \<Rightarrow> DocID_t \<Rightarrow> IndexFileOffset_t list \<Rightarrow> string option res" where
  "find_docname B docid [] = Inr None"
| "find_docname B docid (next_offset # elements) =
     (case fread B (unat next_offset) 10 of
        None \<Rightarrow> Inl Verify333_Failed
      | Some header \<Rightarrow>
          if host64 (take 8 header) = docid then
            bindE (read_chars (unat (host16 (drop 8 header))) B (unat next_offset + 10)) (\<lambda>s. Inr (Some s))
          else find_docname B docid elements)"

definition DocTable_LookupDocID :: "byte list \<Rightarrow> table_reader \<Rightarrow> DocID_t \<Rightarrow> string option res" where
  "DocTable_LookupDocID B r docid =
     bindE (LookupElementPositions B r docid) (\<lambda>elements. find_docname B docid elements)"

section \<open>The table of the documents of a word\<close>

record docid_element =
  de_docid :: DocID_t
  de_num_positions :: HWSize_t

definition DocIDTableReader :: "byte list \<Rightarrow> IndexFileOffset_t \<Rightarrow> table_reader res" where
  "DocIDTableReader B offset = HashTableReader B offset"

fun read_positions :: "nat \<Rightarrow> byte list \<Rightarrow> nat \<Rightarrow> DocPositionOffset_t list res" where
  "read_positions 0 B pos = Inr []"
| "read_positions (Suc n) B pos =
     (case fread B pos 4 of
        None \<Rightarrow> Inl Verify333_Failed
      | Some next_pos \<Rightarrow> bindE (read_positions n B (pos + 4)) (\<lambda>ps. Inr (host32 next_pos # ps)))"

fun find_docid :: "byte list \<Rightarrow> DocID_t \<Rightarrow> IndexFileOffset_t list \<Rightarrow> DocPositionOffset_t list option res" where
  "find_docid B docid [] = Inr None"
| "find_docid B docid (next_offset # elements) =
     (case fread B (unat next_offset) 12 of
        None \<Rightarrow> Inl Verify333_Failed
      | Some header \<Rightarrow>
          if host64 (take 8 header) = docid then
            bindE (read_positions (unat (host32 (drop 8 header))) B (unat next_offset + 12)) (\<lambda>ps. Inr (Some ps))
          else find_docid B docid elements)"

definition DocIDTable_LookupDocID ::
  "byte list \<Rightarrow> table_reader \<Rightarrow> DocID_t \<Rightarrow> DocPositionOffset_t list option res" where
  "DocIDTable_LookupDocID B r docid =
     bindE (LookupElementPositions B r docid) (\<lambda>elements. find_docid B docid elements)"

text \<open>
  The loop over a chain from index \<open>j\<close> on; \<open>n\<close> elements are left.  The code does not look at
  the result of reading an element, so the structure is not set when it is cut off.
\<close>

fun sweep_chain :: "nat \<Rightarrow> nat \<Rightarrow> byte list \<Rightarrow> IndexFileOffset_t \<Rightarrow> docid_element list res" where
  "sweep_chain 0 j B bucket_position = Inr []"
| "sweep_chain (Suc n) j B bucket_position =
     (case fread B (unat bucket_position + j * 4) 4 of
        None \<Rightarrow> Inl Verify333_Failed
      | Some ep \<Rightarrow>
          case fread B (unat (host32 ep)) 12 of
            None \<Rightarrow> Inl Undefined_Behaviour
          | Some doc_el \<Rightarrow>
              bindE (sweep_chain n (Suc j) B bucket_position) (\<lambda>docidlist.
              Inr (\<lparr>de_docid = host64 (take 8 doc_el), de_num_positions = host32 (drop 8 doc_el)\<rparr> # docidlist)))"

text \<open>The loop over the buckets from index \<open>i\<close> on; neither is the result of reading a record.\<close>

fun sweep_buckets :: "nat \<Rightarrow> HWSize_t \<Rightarrow> byte list \<Rightarrow> table_reader \<Rightarrow> docid_element list res" where
  "sweep_buckets 0 i B r = Inr []"
| "sweep_buckets (Suc n) i B r =
     (case fread B (unat (htr_offset r + 4 + i * 8)) 8 of
        None \<Rightarrow> Inl Undefined_Behaviour
      | Some b_rec \<Rightarrow>
          bindE (sweep_chain (unat (host32 (take 4 b_rec))) 0 B (host32 (drop 4 b_rec))) (\<lambda>chain.
          bindE (sweep_buckets n (i + 1) B r) (\<lambda>docidlist. Inr (chain @ docidlist))))"

definition GetDocIDList :: "byte list \<Rightarrow> table_reader \<Rightarrow> docid_element list res" where
  "GetDocIDList B r = sweep_buckets (unat (htr_num_buckets r)) 0 B r"

section \<open>The table of words\<close>

definition IndexTableReader :: "byte list \<Rightarrow> IndexFileOffset_t \<Rightarrow> table_reader res" where
  "IndexTableReader B offset = HashTableReader B offset"

fun find_word :: "byte list \<Rightarrow> string \<Rightarrow> IndexFileOffset_t list \<Rightarrow> table_reader option res" where
  "find_word B word [] = Inr None"
| "find_word B word (next_offset # elements) =
     (case fread B (unat next_offset) 6 of
        None \<Rightarrow> Inl Verify333_Failed
      | Some header \<Rightarrow>
          let word_len = host16 (take 2 header) in
          if unat word_len \<noteq> length word then find_word B word elements
          else
            bindE (read_chars (unat word_len) B (unat next_offset + 6)) (\<lambda>s.
            if word = s then
              bindE (DocIDTableReader B (next_offset + 6 + ucast word_len)) (\<lambda>ditr. Inr (Some ditr))
            else find_word B word elements))"

definition LookupWord :: "byte list \<Rightarrow> table_reader \<Rightarrow> string \<Rightarrow> table_reader option res" where
  "LookupWord B r word =
     bindE (hash_str word) (\<lambda>wordhash.
     bindE (LookupElementPositions B r wordhash) (\<lambda>elements. find_word B word elements))"

section \<open>The index file\<close>

text \<open>
  The loop that feeds the file to the checksum, 512 bytes at a time.  At the end of the file it
  reads nothing and \<open>left_to_read\<close> stays as it is; every round before that reads a byte, so
  the length of the file bounds the rounds of a loop that ends.
\<close>

fun validate_loop :: "nat \<Rightarrow> byte list \<Rightarrow> nat \<Rightarrow> HWSize_t \<Rightarrow> crc32 \<Rightarrow> crc32 res" where
  "validate_loop fuel B pos left_to_read crcobj =
     (if left_to_read = 0 then Inr crcobj
      else case fuel of
        0 \<Rightarrow> Inl Out_Of_Fuel
      | Suc fuel \<Rightarrow>
          let buf = take 512 (drop pos B) in
          bindE (fold_bytes crcobj buf) (\<lambda>crcobj.
          validate_loop fuel B (pos + length buf) (left_to_read - of_nat (length buf)) crcobj))"

declare validate_loop.simps [simp del]

definition read_header :: "byte list \<Rightarrow> index_file_header" where
  "read_header bs =
     \<lparr>magic_number = host32 (take 4 bs), checksum = host32 (take 4 (drop 4 bs)),
      doctable_size = host32 (take 4 (drop 8 bs)), index_size = host32 (drop 12 bs)\<rparr>"

definition FileIndexReader :: "byte list \<Rightarrow> bool \<Rightarrow> index_file_header res" where
  "FileIndexReader B validate =
     (case fread B 0 16 of
        None \<Rightarrow> Inl Verify333_Failed
      | Some bs \<Rightarrow>
          let header = read_header bs in
          bindE (Verify333 (magic_number header = MAGIC_NUMBER)) (\<lambda>_.
          bindE (Verify333 ((of_nat (length B) :: HWSize_t) = 16 + doctable_size header + index_size header)) (\<lambda>_.
          if validate then
            let left_to_read = doctable_size header + index_size header in
            bindE (validate_loop (length B) B 16 left_to_read new_crc32) (\<lambda>crcobj.
            bindE (Verify333 (fst (GetFinalCRC crcobj) = checksum header)) (\<lambda>_. Inr header))
          else Inr header)))"

definition GetDocTableReader :: "byte list \<Rightarrow> index_file_header \<Rightarrow> table_reader res" where
  "GetDocTableReader B header = DocTableReader B 16"

definition GetIndexTableReader :: "byte list \<Rightarrow> index_file_header \<Rightarrow> table_reader res" where
  "GetIndexTableReader B header = IndexTableReader B (16 + doctable_size header)"

end
