(* ===== verification/IndexReadersSpec.thy ===== *)
theory IndexReadersSpec
  imports IndexReaders FileIndexWriterSpec
begin

text \<open>
  What the readers find in a file that \<open>WriteIndex\<close> wrote: each lookup answers like the table in
  memory that was written, and the reader of the whole file accepts exactly the files whose
  header and checksum fit.
\<close>

section \<open>Reading what lies in the file\<close>

lemma fread_has: "has_bytes B pos bs \<Longrightarrow> length bs = n \<Longrightarrow> fread B pos n = Some bs"
  by (auto simp: has_bytes_def fread_def)

lemma take_append_eq [simp]: "length xs = n \<Longrightarrow> take n (xs @ ys) = xs"
  by simp

lemma rec_fields:
  "host32 (bucket_list_header_disk n) = n"
  "host32 (take 4 (bucket_rec_disk c p)) = c" "host32 (drop 4 (bucket_rec_disk c p)) = p"
  "host32 (element_position_rec_disk p) = p"
  "host64 (take 8 (doctable_element_header_disk d l)) = d" "host16 (drop 8 (doctable_element_header_disk d l)) = l"
  "host16 (take 2 (worddocset_header_disk l n)) = l"
  "host64 (take 8 (docid_element_header_disk d n)) = d" "host32 (drop 8 (docid_element_header_disk d n)) = n"
  "host32 (docid_element_position_disk q) = q"
  by (simp_all add: bucket_list_header_disk_def bucket_rec_disk_def element_position_rec_disk_def
      doctable_element_header_disk_def worddocset_header_disk_def docid_element_header_disk_def
      docid_element_position_disk_def host_mem)

text \<open>The positions of the elements of a bucket.\<close>

fun el_positions :: "('v ht_kv \<Rightarrow> nat) \<Rightarrow> nat \<Rightarrow> 'v ht_kv list \<Rightarrow> nat list" where
  "el_positions sz pos [] = []"
| "el_positions sz pos (kv # kvs) = pos # el_positions sz (pos + sz kv) kvs"

lemma els_positions:
  "els_at el sz B r pos kvs \<Longrightarrow>
   read_element_positions (length kvs) B r = Inr (map of_nat (el_positions sz pos kvs)) \<and>
   list_all2 (el B) (el_positions sz pos kvs) kvs"
proof (induction kvs arbitrary: r pos)
  case (Cons kv kvs)
  then have "fread B r 4 = Some (element_position_rec_disk (of_nat pos))" by (auto intro: fread_has)
  then show ?case using Cons.IH [of "r + 4" "pos + sz kv"] Cons.prems by (simp add: rec_fields)
qed simp

lemma el_positions_range:
  "p \<in> set (el_positions sz pos kvs) \<Longrightarrow> pos \<le> p \<and> p \<le> pos + sum_list (map sz kvs)"
  by (induction kvs arbitrary: pos) fastforce+

lemma buckets_nth:
  "buckets_at el sz B r pos bs \<Longrightarrow> i < length bs \<Longrightarrow>
   \<exists>p. has_bytes B (r + 8 * i) (bucket_rec_disk (of_nat (length (bs ! i))) (of_nat p)) \<and>
     els_at el sz B p (p + 4 * length (bs ! i)) (bs ! i) \<and>
     pos \<le> p \<and> p + bucket_size sz (bs ! i) \<le> pos + sum_list (map (bucket_size sz) bs)"
proof (induction bs arbitrary: r pos i)
  case (Cons kvs bs)
  show ?case
  proof (cases i)
    case 0
    then show ?thesis using Cons.prems by (intro exI [of _ pos]) simp
  next
    case (Suc j)
    then obtain p where p: "has_bytes B (r + 8 + 8 * j) (bucket_rec_disk (of_nat (length (bs ! j))) (of_nat p))"
      "els_at el sz B p (p + 4 * length (bs ! j)) (bs ! j)" "pos + bucket_size sz kvs \<le> p"
      "p + bucket_size sz (bs ! j) \<le> pos + bucket_size sz kvs + sum_list (map (bucket_size sz) bs)"
      using Cons.IH [of "r + 8" "pos + bucket_size sz kvs" j] Cons.prems by auto
    have "r + 8 + 8 * j = r + 8 * Suc j" by simp
    with p(1) have "has_bytes B (r + 8 * i) (bucket_rec_disk (of_nat (length ((kvs # bs) ! i))) (of_nat p))"
      by (simp only: Suc nth_Cons_Suc)
    then show ?thesis using p Suc by (intro exI [of _ p]) simp
  qed
qed simp

text \<open>A reader for a table that lies in the file.\<close>

definition reads_table :: "(byte list \<Rightarrow> nat \<Rightarrow> 'v ht_kv \<Rightarrow> bool) \<Rightarrow> ('v ht_kv \<Rightarrow> nat) \<Rightarrow>
    byte list \<Rightarrow> 'v hash_table \<Rightarrow> table_reader \<Rightarrow> bool" where
  "reads_table el sz B t r \<longleftrightarrow> ht_inv t \<and> htr_num_buckets r = ht_num_buckets t \<and>
     (\<exists>off. htr_offset r = of_nat off \<and> table_at el sz B off (chains t) \<and> off + table_size sz (chains t) < 2 ^ 32)"

lemma HashTableReader_ok:
  assumes "ht_inv t" "table_at el sz B off (chains t)" "off + table_size sz (chains t) < 2 ^ 32"
  shows "\<exists>r. HashTableReader B (of_nat off) = Inr r \<and> reads_table el sz B t r"
proof -
  have n: "of_nat (length (ht_buckets t)) = ht_num_buckets t" using assms(1) by (simp add: ht_inv_def)
  have "unat (of_nat off :: 32 word) = off" using assms(3) by (simp add: unat_of_nat32)
  moreover have "has_bytes B off (bucket_list_header_disk (ht_num_buckets t))"
    using assms(2) by (simp add: table_at_def chains_def n)
  ultimately have "HashTableReader B (of_nat off) =
      Inr \<lparr>htr_offset = of_nat off, htr_num_buckets = ht_num_buckets t\<rparr>"
    by (simp add: HashTableReader_def fread_has rec_fields)
  then show ?thesis using assms by (auto simp: reads_table_def)
qed

text \<open>The elements of the bucket of a key, each at its position.\<close>

lemma bucket_read:
  assumes "reads_table el sz B t r" "i < length (ht_buckets t)"
  shows "\<exists>p. fread B (unat (htr_offset r + 4 + 8 * of_nat i)) 8 =
        Some (bucket_rec_disk (of_nat (length (ll_list (ht_buckets t ! i)))) (of_nat p)) \<and>
      els_at el sz B p (p + 4 * length (ll_list (ht_buckets t ! i))) (ll_list (ht_buckets t ! i)) \<and>
      p + bucket_size sz (ll_list (ht_buckets t ! i)) < 2 ^ 32"
proof -
  obtain off where off: "htr_offset r = of_nat off" "table_at el sz B off (chains t)"
    "off + table_size sz (chains t) < 2 ^ 32" using assms(1) by (auto simp: reads_table_def)
  have len: "length (chains t) = length (ht_buckets t)" "chains t ! i = ll_list (ht_buckets t ! i)"
    using assms(2) by (simp_all add: chains_def)
  have b: "buckets_at el sz B (off + 4) (off + 4 + 8 * length (chains t)) (chains t)"
    using off(2) by (simp add: table_at_def)
  obtain p where p: "has_bytes B (off + 4 + 8 * i) (bucket_rec_disk (of_nat (length (chains t ! i))) (of_nat p))"
    "els_at el sz B p (p + 4 * length (chains t ! i)) (chains t ! i)"
    "p + bucket_size sz (chains t ! i) \<le> off + 4 + 8 * length (chains t) + sum_list (map (bucket_size sz) (chains t))"
    using buckets_nth [OF b, of i] assms(2) len(1) by auto
  have "off + 4 + 8 * i < 2 ^ 32" using off(3) assms(2) len(1) by (simp add: table_size_def)
  then have "unat (of_nat (off + 4 + 8 * i) :: 32 word) = off + 4 + 8 * i" by (rule unat_of_nat32)
  moreover have "htr_offset r + 4 + 8 * of_nat i = of_nat (off + 4 + 8 * i)" by (simp add: off(1))
  ultimately have "fread B (unat (htr_offset r + 4 + 8 * of_nat i)) 8 =
      Some (bucket_rec_disk (of_nat (length (chains t ! i))) (of_nat p))"
    using fread_has [OF p(1)] by simp
  moreover have "p + bucket_size sz (chains t ! i) < 2 ^ 32" using p(3) off(3) by (simp add: table_size_def)
  ultimately show ?thesis using p(2) unfolding len(2) by blast
qed

lemma LookupElementPositions_ok:
  assumes r: "reads_table el sz B t r"
  shows "\<exists>ps. LookupElementPositions B r key = Inr (map of_nat ps) \<and>
     list_all2 (el B) ps (ll_list (ht_buckets t ! bucket_of t key)) \<and>
     (\<forall>p \<in> set ps. p < 2 ^ 32)"
proof -
  let ?i = "bucket_of t key"
  let ?kvs = "ll_list (ht_buckets t ! ?i)"
  have inv: "ht_inv t" and n: "htr_num_buckets r = ht_num_buckets t" using r by (simp_all add: reads_table_def)
  have i: "?i < length (ht_buckets t)" using inv by (simp add: bucket_of_def ht_inv_def)
  have ll: "ll_inv (ht_buckets t ! ?i)" using ht_inv_ll_inv [OF inv i] .
  obtain p where p: "fread B (unat (htr_offset r + 4 + 8 * of_nat ?i)) 8 =
      Some (bucket_rec_disk (of_nat (length ?kvs)) (of_nat p))"
    "els_at el sz B p (p + 4 * length ?kvs) ?kvs" "p + bucket_size sz ?kvs < 2 ^ 32"
    using bucket_read [OF r i] by blast
  have "ht_num_buckets t \<noteq> 0" using inv by (auto simp: ht_inv_def)
  moreover obtain b where b: "HashKeyToBucketNum t key = Inr b" "unat b = ?i"
    using HashKeyToBucketNum_ok [OF inv, of key] by blast
  moreover have "b = of_nat ?i" unfolding b(2) [symmetric] by simp
  ultimately have hash: "ucast (key mod ucast (ht_num_buckets t)) = (of_nat ?i :: 32 word)"
    by (simp add: HashKeyToBucketNum_def)
  have u: "unat (of_nat (length ?kvs) :: 32 word) = length ?kvs" using ll_list_room [OF ll] by (rule unat_of_nat32)
  have p': "unat (of_nat p :: 32 word) = p" using p(3) by (simp add: unat_of_nat32)
  note e = els_positions [OF p(2)]
  have range: "\<forall>q \<in> set (el_positions sz (p + 4 * length ?kvs) ?kvs). q < 2 ^ 32"
    using el_positions_range p(3) unfolding bucket_size_def by fastforce
  have "LookupElementPositions B r key = Inr (map of_nat (el_positions sz (p + 4 * length ?kvs) ?kvs))"
  proof (cases "?kvs = []")
    case True
    then show ?thesis using \<open>ht_num_buckets t \<noteq> 0\<close> p(1)
      by (simp add: LookupElementPositions_def n hash Let_def rec_fields)
  next
    case False
    have "of_nat (length ?kvs) \<noteq> (0 :: 32 word)" unfolding word32_eq_0_iff u using False by simp
    then show ?thesis using \<open>ht_num_buckets t \<noteq> 0\<close> p(1) e
      by (simp add: LookupElementPositions_def n hash Let_def rec_fields u p')
  qed
  then show ?thesis using e range by blast
qed

section \<open>Documents\<close>

lemma char_of_byte [simp]: "char_of (unat (of_char c :: byte)) = c"
proof -
  have "unat (of_char c :: byte) = of_char c"
    by (simp add: of_char_def unat_word_ariths)
  then show ?thesis by simp
qed

lemma read_chars_ok: "has_bytes B pos (bytes_of s) \<Longrightarrow> read_chars (length s) B pos = Inr s"
proof (induction s arbitrary: pos)
  case (Cons c s)
  have "has_bytes B pos ([of_char c] @ bytes_of s)" using Cons.prems by (simp add: bytes_of_def)
  then have "has_bytes B pos [of_char c]" "has_bytes B (Suc pos) (bytes_of s)"
    unfolding has_bytes_append by simp_all
  then show ?case using Cons.IH by (simp add: fread_has)
qed simp


lemma find_docname_ok:
  "list_all2 (name_at B) ps kvs \<Longrightarrow> \<forall>p \<in> set ps. p < 2 ^ 32 \<Longrightarrow> \<forall>kv \<in> set kvs. name_good kv \<Longrightarrow>
   find_docname B d (map of_nat ps) = Inr (kv_map kvs d)"
proof (induction rule: list_all2_induct)
  case (Cons p ps kv kvs)
  let ?n = "kv_value kv"
  let ?hd = "doctable_element_header_disk (kv_key kv) (of_nat (length ?n))"
  have h: "has_bytes B p ?hd" "has_bytes B (p + 10) (bytes_of ?n)"
    using Cons.hyps(1) by (simp_all add: name_at_def has_bytes_append)
  have p: "unat (of_nat p :: 32 word) = p" using Cons.prems(1) by (simp add: unat_of_nat32)
  have len: "unat (of_nat (length ?n) :: 16 word) = length ?n"
    using Cons.prems(2) by (simp add: name_good_def unat_of_nat16)
  have "fread B p 10 = Some ?hd" using h(1) by (rule fread_has) simp
  then show ?case
    using Cons.IH Cons.prems read_chars_ok [OF h(2)] by (simp add: p rec_fields len)
qed simp

text \<open>Looking a document up in the file is looking it up in the table that was written.\<close>

lemma DocTable_LookupDocID_ok:
  assumes r: "reads_table name_at name_size B t r" and good: "\<forall>kv \<in> set (ht_entries t). name_good kv"
  shows "DocTable_LookupDocID B r d = Inr (ht_map t d)"
proof -
  have inv: "ht_inv t" using r by (simp add: reads_table_def)
  have i: "bucket_of t d < length (ht_buckets t)" using HashKeyToBucketNum_ok [OF inv] by blast
  obtain ps where ps: "LookupElementPositions B r d = Inr (map of_nat ps)"
    "list_all2 (name_at B) ps (ll_list (ht_buckets t ! bucket_of t d))" "\<forall>p \<in> set ps. p < 2 ^ 32"
    using LookupElementPositions_ok [OF r] by blast
  have "\<forall>kv \<in> set (ll_list (ht_buckets t ! bucket_of t d)). name_good kv"
    using good i by (auto simp: ht_entries_def)
  from find_docname_ok [OF ps(2,3) this] show ?thesis
    using ps(1) by (simp add: DocTable_LookupDocID_def ht_map_bucket [OF inv])
qed

section \<open>The documents of a word\<close>

lemma read_positions_ok:
  "has_bytes B pos (concat (map docid_element_position_disk qs)) \<Longrightarrow> read_positions (length qs) B pos = Inr qs"
proof (induction qs arbitrary: pos)
  case (Cons q qs)
  then have h: "has_bytes B pos (docid_element_position_disk q)"
    "has_bytes B (pos + 4) (concat (map docid_element_position_disk qs))" by (simp_all add: has_bytes_append)
  have "fread B pos 4 = Some (docid_element_position_disk q)" using h(1) by (rule fread_has) simp
  then show ?case using Cons.IH [OF h(2)] by (simp add: rec_fields)
qed simp

lemma find_docid_ok:
  "list_all2 (posting_at B) ps kvs \<Longrightarrow> \<forall>p \<in> set ps. p < 2 ^ 32 \<Longrightarrow> \<forall>kv \<in> set kvs. posting_good kv \<Longrightarrow>
   find_docid B d (map of_nat ps) = Inr (map_option ll_list (kv_map kvs d))"
proof (induction rule: list_all2_induct)
  case (Cons p ps kv kvs)
  let ?qs = "ll_list (kv_value kv)"
  let ?hd = "docid_element_header_disk (kv_key kv) (of_nat (length ?qs))"
  have h: "has_bytes B p ?hd" "has_bytes B (p + 12) (concat (map docid_element_position_disk ?qs))"
    using Cons.hyps(1) by (simp_all add: posting_at_def has_bytes_append)
  have p: "unat (of_nat p :: 32 word) = p" using Cons.prems(1) by (simp add: unat_of_nat32)
  have "length ?qs < 2 ^ 32" using Cons.prems(2) by (intro ll_list_room) (simp add: posting_good_def)
  then have len: "unat (of_nat (length ?qs) :: 32 word) = length ?qs" by (rule unat_of_nat32)
  have "fread B p 12 = Some ?hd" using h(1) by (rule fread_has) simp
  then show ?case
    using Cons.IH Cons.prems read_positions_ok [OF h(2)] by (simp add: p rec_fields len)
qed simp

lemma DocIDTable_LookupDocID_ok:
  assumes r: "reads_table posting_at posting_size B t r" and good: "\<forall>kv \<in> set (ht_entries t). posting_good kv"
  shows "DocIDTable_LookupDocID B r d = Inr (map_option ll_list (ht_map t d))"
proof -
  have inv: "ht_inv t" using r by (simp add: reads_table_def)
  have i: "bucket_of t d < length (ht_buckets t)" using HashKeyToBucketNum_ok [OF inv] by blast
  obtain ps where ps: "LookupElementPositions B r d = Inr (map of_nat ps)"
    "list_all2 (posting_at B) ps (ll_list (ht_buckets t ! bucket_of t d))" "\<forall>p \<in> set ps. p < 2 ^ 32"
    using LookupElementPositions_ok [OF r] by blast
  have "\<forall>kv \<in> set (ll_list (ht_buckets t ! bucket_of t d)). posting_good kv"
    using good i by (auto simp: ht_entries_def)
  from find_docid_ok [OF ps(2,3) this] show ?thesis
    using ps(1) by (simp add: DocIDTable_LookupDocID_def ht_map_bucket [OF inv])
qed

definition entry_element :: "DocPositionOffset_t linked_list ht_kv \<Rightarrow> docid_element" where
  "entry_element kv = \<lparr>de_docid = kv_key kv, de_num_positions = of_nat (length (ll_list (kv_value kv)))\<rparr>"

lemma sweep_chain_ok:
  "els_at posting_at posting_size B (b + j * 4) pos kvs \<Longrightarrow> pos + sum_list (map posting_size kvs) < 2 ^ 32 \<Longrightarrow>
   unat q = b \<Longrightarrow> sweep_chain (length kvs) j B q = Inr (map entry_element kvs)"
proof (induction kvs arbitrary: j pos)
  case (Cons kv kvs)
  let ?hd = "docid_element_header_disk (kv_key kv) (of_nat (length (ll_list (kv_value kv))))"
  have h: "has_bytes B (b + j * 4) (element_position_rec_disk (of_nat pos))" "has_bytes B pos ?hd"
    using Cons.prems(1) by (simp_all add: posting_at_def has_bytes_append)
  have 1: "fread B (b + j * 4) 4 = Some (element_position_rec_disk (of_nat pos))" using h(1) by (rule fread_has) simp
  have 2: "fread B pos 12 = Some ?hd" using h(2) by (rule fread_has) simp
  have p: "unat (of_nat pos :: 32 word) = pos" using Cons.prems(2) by (simp add: unat_of_nat32)
  have "b + j * 4 + 4 = b + Suc j * 4" by simp
  with Cons.prems(1) have "els_at posting_at posting_size B (b + Suc j * 4) (pos + posting_size kv) kvs"
    by (simp only: els_at.simps)
  then have "sweep_chain (length kvs) (Suc j) B q = Inr (map entry_element kvs)"
    using Cons.IH Cons.prems(2,3) by simp
  then show ?case using 1 2 Cons.prems(3) by (simp add: p rec_fields entry_element_def)
qed simp

lemma sweep_buckets_ok:
  assumes r: "reads_table posting_at posting_size B t r"
  shows "drop i (ht_buckets t) = ls \<Longrightarrow>
     sweep_buckets (length ls) (of_nat i) B r = Inr (concat (map (\<lambda>l. map entry_element (ll_list l)) ls))"
proof (induction ls arbitrary: i)
  case (Cons li ls)
  have inv: "ht_inv t" using r by (simp add: reads_table_def)
  have i: "i < length (ht_buckets t)" using Cons.prems by (metis drop_all list.distinct(1) not_less)
  have li: "ht_buckets t ! i = li" "drop (Suc i) (ht_buckets t) = ls"
    using Cons.prems i by (simp_all add: Cons_nth_drop_Suc [symmetric])
  have ll: "ll_inv li" using ht_inv_ll_inv [OF inv i] li(1) by simp
  obtain p where p: "fread B (unat (htr_offset r + 4 + 8 * of_nat i)) 8 =
      Some (bucket_rec_disk (of_nat (length (ll_list li))) (of_nat p))"
    "els_at posting_at posting_size B p (p + 4 * length (ll_list li)) (ll_list li)"
    "p + bucket_size posting_size (ll_list li) < 2 ^ 32"
    using bucket_read [OF r i] unfolding li(1) by blast
  have u: "unat (of_nat (length (ll_list li)) :: 32 word) = length (ll_list li)"
    using ll_list_room [OF ll] by (rule unat_of_nat32)
  have "unat (of_nat p :: 32 word) = p" using p(3) by (simp add: unat_of_nat32)
  then have "sweep_chain (length (ll_list li)) 0 B (of_nat p) = Inr (map entry_element (ll_list li))"
    using sweep_chain_ok [of B p 0 "p + 4 * length (ll_list li)" "ll_list li" "of_nat p"] p(2,3)
    by (simp add: bucket_size_def)
  moreover have "sweep_buckets (length ls) (of_nat i + 1) B r = Inr (concat (map (\<lambda>l. map entry_element (ll_list l)) ls))"
    using Cons.IH [OF li(2)] by (simp add: add.commute)
  ultimately show ?case using p(1) by (simp add: mult.commute rec_fields u)
qed simp

lemma GetDocIDList_ok:
  assumes r: "reads_table posting_at posting_size B t r"
  shows "GetDocIDList B r = Inr (map entry_element (ht_entries t))"
proof -
  have "ht_inv t" "htr_num_buckets r = ht_num_buckets t" using r by (simp_all add: reads_table_def)
  then have "unat (htr_num_buckets r) = length (ht_buckets t)" by (simp add: ht_inv_def)
  then show ?thesis using sweep_buckets_ok [OF r, of 0 "ht_buckets t"]
    by (simp add: GetDocIDList_def ht_entries_def map_concat comp_def)
qed

section \<open>Words\<close>

lemma find_word_ok:
  "list_all2 (word_at s B) ps kvs \<Longrightarrow> \<forall>p \<in> set ps. p < 2 ^ 32 \<Longrightarrow> \<forall>kv \<in> set kvs. word_good s kv \<Longrightarrow>
   length B < 2 ^ 32 \<Longrightarrow>
   \<exists>r. find_word B w (map of_nat ps) = Inr r \<and>
     (case r of
        None \<Rightarrow> \<forall>kv \<in> set kvs. \<forall>wds. st_cells s (kv_value kv) = Some wds \<longrightarrow> wds_word wds \<noteq> w
      | Some ditr \<Rightarrow> \<exists>kv \<in> set kvs. \<exists>wds. st_cells s (kv_value kv) = Some wds \<and> wds_word wds = w \<and>
          reads_table posting_at posting_size B (wds_docIDs wds) ditr)"
proof (induction rule: list_all2_induct)
  case (Cons p ps kv kvs)
  obtain wds where cell: "st_cells s (kv_value kv) = Some wds" and good: "set_good wds"
    using Cons.prems(2) by (auto simp: word_good_def split: option.splits)
  let ?w = "wds_word wds" and ?t = "wds_docIDs wds"
  let ?hd = "worddocset_header_disk (of_nat (length ?w)) (of_nat (table_size posting_size (chains ?t)))"
  have at: "set_at B p wds" using Cons.hyps(1) by (simp add: word_at_def cell)
  have h: "has_bytes B p ?hd" "has_bytes B (p + 6) (bytes_of ?w)"
    "table_at posting_at posting_size B (p + 6 + length ?w) (chains ?t)"
    using at by (simp_all add: set_at_def has_bytes_append)
  have p: "unat (of_nat p :: 32 word) = p" using Cons.prems(1) by (simp add: unat_of_nat32)
  have w: "length ?w < 2 ^ 16" "ht_inv ?t" using good by (simp_all add: set_good_def)
  have len: "unat (of_nat (length ?w) :: 16 word) = length ?w" "ucast (of_nat (length ?w) :: 16 word) = (of_nat (length ?w) :: 32 word)"
    using w(1) by (rule unat_of_nat16, rule ucast_of_nat16)
  have fr: "fread B p 6 = Some ?hd" using h(1) by (rule fread_has) simp
  have hd_word: "host16 (take 2 ?hd) = of_nat (length ?w)" by (rule rec_fields)
  have rc: "read_chars (length ?w) B (p + 6) = Inr ?w" by (rule read_chars_ok [OF h(2)])
  have step: "find_word B w (map of_nat (p # ps)) =
      (if length ?w \<noteq> length w then find_word B w (map of_nat ps)
       else if w = ?w then bindE (DocIDTableReader B (of_nat (p + 6 + length ?w))) (\<lambda>ditr. Inr (Some ditr))
       else find_word B w (map of_nat ps))"
    by (simp only: list.map find_word.simps p fr option.case hd_word Let_def rc bindE_Inr len of_nat_add of_nat_numeral)
  obtain r where r: "find_word B w (map of_nat ps) = Inr r"
    "case r of None \<Rightarrow> \<forall>kv \<in> set kvs. \<forall>wds. st_cells s (kv_value kv) = Some wds \<longrightarrow> wds_word wds \<noteq> w
      | Some ditr \<Rightarrow> \<exists>kv \<in> set kvs. \<exists>wds. st_cells s (kv_value kv) = Some wds \<and> wds_word wds = w \<and>
          reads_table posting_at posting_size B (wds_docIDs wds) ditr"
    using Cons.IH Cons.prems by auto
  show ?case
  proof (cases "w = ?w")
    case True
    have "p + set_size wds \<le> length B" by (rule set_inside [OF good at])
    then have "p + 6 + length ?w + table_size posting_size (chains ?t) < 2 ^ 32"
      using Cons.prems(3) by (simp add: set_size_def)
    from HashTableReader_ok [OF w(2) h(3) this] obtain ditr where
      "HashTableReader B (of_nat (p + 6 + length ?w)) = Inr ditr" "reads_table posting_at posting_size B ?t ditr" by blast
    then have "find_word B w (map of_nat (p # ps)) = Inr (Some ditr)"
      unfolding step DocIDTableReader_def using True by simp
    then show ?thesis using cell True \<open>reads_table posting_at posting_size B ?t ditr\<close> by auto
  next
    case False
    then have "find_word B w (map of_nat (p # ps)) = Inr r" unfolding step r(1) by simp
    then show ?thesis using r(2) cell False by (cases r) auto
  qed
qed simp

text \<open>
  A word is found in the file when the structure that the index has for its hash is for that
  very word; another word with the same hash is told apart by its characters.
\<close>

lemma LookupWord_ok:
  assumes r: "reads_table (word_at (mi_store I)) (word_size (mi_store I)) B (mi_table I) r"
    and inv: "mi_inv I" and good: "\<forall>kv \<in> set (ht_entries (mi_table I)). word_good (mi_store I) kv" and B: "length B < 2 ^ 32"
  shows "\<exists>res. LookupWord B r w = Inr res \<and>
     (case res of
        None \<Rightarrow> \<forall>wds. wds_of I (str_key w) = Some wds \<longrightarrow> wds_word wds \<noteq> w
      | Some ditr \<Rightarrow> \<exists>wds. wds_of I (str_key w) = Some wds \<and> wds_word wds = w \<and>
          reads_table posting_at posting_size B (wds_docIDs wds) ditr)"
proof -
  let ?t = "mi_table I" and ?s = "mi_store I" and ?k = "str_key w"
  let ?kvs = "ll_list (ht_buckets ?t ! bucket_of ?t ?k)"
  have ht: "ht_inv ?t" using r by (simp add: reads_table_def)
  have i: "bucket_of ?t ?k < length (ht_buckets ?t)" using HashKeyToBucketNum_ok [OF ht] by blast
  have sub: "set ?kvs \<subseteq> set (ht_entries ?t)" using nth_mem [OF i] by (auto simp: ht_entries_def)
  note d = ht_entries_distinct [OF ht]
  have key: "wds_of I (kv_key kv) = Some wds" "str_key (wds_word wds) = kv_key kv"
    if "kv \<in> set ?kvs" "st_cells ?s (kv_value kv) = Some wds" for kv wds
  proof -
    have "ht_map ?t (kv_key kv) = Some (kv_value kv)"
      unfolding ht_map_def using kv_in_entries [OF d] that(1) sub by blast
    then show "wds_of I (kv_key kv) = Some wds" using that(2) by (simp add: wds_of_def view_def)
    then show "str_key (wds_word wds) = kv_key kv" using inv by (simp add: mi_inv_def)
  qed
  have entry: "\<exists>kv \<in> set ?kvs. st_cells ?s (kv_value kv) = Some wds" if some: "wds_of I ?k = Some wds" for wds
  proof -
    obtain a where a: "ht_map ?t ?k = Some a" "st_cells ?s a = Some wds" using wds_of_Some [OF inv some] by blast
    then have "kv_map ?kvs ?k = Some a" by (simp add: ht_map_bucket [OF ht])
    then have "\<lparr>kv_key = ?k, kv_value = a\<rparr> \<in> set ?kvs" by (rule kv_map_Some)
    then show ?thesis using a(2) by force
  qed
  obtain ps where ps: "LookupElementPositions B r ?k = Inr (map of_nat ps)"
    "list_all2 (word_at ?s B) ps ?kvs" "\<forall>p \<in> set ps. p < 2 ^ 32"
    using LookupElementPositions_ok [OF r] by blast
  have g: "\<forall>kv \<in> set ?kvs. word_good ?s kv" using good sub by blast
  obtain res where res: "find_word B w (map of_nat ps) = Inr res"
    "case res of None \<Rightarrow> \<forall>kv \<in> set ?kvs. \<forall>wds. st_cells ?s (kv_value kv) = Some wds \<longrightarrow> wds_word wds \<noteq> w
      | Some ditr \<Rightarrow> \<exists>kv \<in> set ?kvs. \<exists>wds. st_cells ?s (kv_value kv) = Some wds \<and> wds_word wds = w \<and>
          reads_table posting_at posting_size B (wds_docIDs wds) ditr"
    using find_word_ok [OF ps(2,3) g B] by blast
  have "LookupWord B r w = Inr res" using ps(1) res(1) by (simp add: LookupWord_def)
  moreover have "case res of None \<Rightarrow> \<forall>wds. wds_of I ?k = Some wds \<longrightarrow> wds_word wds \<noteq> w
      | Some ditr \<Rightarrow> \<exists>wds. wds_of I ?k = Some wds \<and> wds_word wds = w \<and>
          reads_table posting_at posting_size B (wds_docIDs wds) ditr"
  proof (cases res)
    case None
    then show ?thesis using res(2) entry by fastforce
  next
    case (Some ditr)
    then obtain kv wds where "kv \<in> set ?kvs" "st_cells ?s (kv_value kv) = Some wds" "wds_word wds = w"
      "reads_table posting_at posting_size B (wds_docIDs wds) ditr" using res(2) by auto
    moreover from this have "wds_of I ?k = Some wds" using key by metis
    ultimately show ?thesis using Some by auto
  qed
  ultimately show ?thesis by blast
qed

section \<open>The index file\<close>

lemma validate_loop_ok:
  "pos + n = length B \<Longrightarrow> n < 2 ^ 32 \<Longrightarrow> n \<le> fuel \<Longrightarrow> \<not> crc_finalized c \<Longrightarrow>
   validate_loop fuel B pos (of_nat n) c = Inr (c\<lparr>crc_state := foldl crc_byte (crc_state c) (drop pos B)\<rparr>)"
proof (induction n arbitrary: fuel pos c rule: less_induct)
  case (less n)
  have u: "unat (of_nat n :: 32 word) = n" using less.prems(2) by (rule unat_of_nat32)
  show ?case
  proof (cases "n = 0")
    case True
    then show ?thesis using less.prems(1) by (subst validate_loop.simps) simp
  next
    case False
    let ?buf = "take 512 (drop pos B)"
    let ?k = "length ?buf"
    let ?c = "c\<lparr>crc_state := foldl crc_byte (crc_state c) ?buf\<rparr>"
    have k: "?k = min n 512" using less.prems(1) by auto
    then have k': "0 < ?k" "?k \<le> n" using False by auto
    obtain fuel' where fuel: "fuel = Suc fuel'" using less.prems(3) False by (cases fuel) auto
    have nz: "(of_nat n :: 32 word) \<noteq> 0" unfolding word32_eq_0_iff u by (rule False)
    have left: "(of_nat n - of_nat ?k :: 32 word) = of_nat (n - ?k)" using k'(2) by (simp only: of_nat_diff)
    have "validate_loop fuel B pos (of_nat n) c = validate_loop fuel' B (pos + ?k) (of_nat (n - ?k)) ?c"
      using nz less.prems(4) by (subst validate_loop.simps) (simp add: fuel fold_bytes_crc Let_def left [symmetric] del: length_take)
    also have "\<dots> = Inr (?c\<lparr>crc_state := foldl crc_byte (crc_state ?c) (drop (pos + ?k) B)\<rparr>)"
      by (rule less.IH) (use k' less.prems fuel in auto)
    also have "foldl crc_byte (crc_state ?c) (drop (pos + ?k) B) = foldl crc_byte (crc_state c) (drop pos B)"
    proof -
      have "drop (pos + ?k) B = drop 512 (drop pos B)" using k less.prems(1) by (cases "n < 512") (simp_all add: add.commute)
      then have e: "?buf @ drop (pos + ?k) B = drop pos B" by (simp only: append_take_drop_id)
      have "foldl crc_byte (crc_state c) (?buf @ drop (pos + ?k) B) = foldl crc_byte (crc_state c) (drop pos B)"
        by (simp only: e)
      then show ?thesis by (simp only: foldl_append) simp
    qed
    finally show ?thesis by simp
  qed
qed

text \<open>
  Which files of less than 4 GiB a validating reader accepts; it rejects every other one, and
  always ends.
\<close>

definition file_valid :: "byte list \<Rightarrow> bool" where
  "file_valid B \<longleftrightarrow> 16 \<le> length B \<and> magic_number (read_header (take 16 B)) = MAGIC_NUMBER \<and>
     (of_nat (length B) :: HWSize_t) = 16 + doctable_size (read_header (take 16 B)) + index_size (read_header (take 16 B)) \<and>
     crc_bytes (drop 16 B) = checksum (read_header (take 16 B))"

lemma FileIndexReader_True:
  assumes "length B < 2 ^ 32"
  shows "FileIndexReader B True = (if file_valid B then Inr (read_header (take 16 B)) else Inl Verify333_Failed)"
proof (cases "16 \<le> length B")
  case True
  let ?h = "read_header (take 16 B)"
  have fr: "fread B 0 16 = Some (take 16 B)" using True by (simp add: fread_def)
  show ?thesis
  proof (cases "(of_nat (length B) :: HWSize_t) = 16 + doctable_size ?h + index_size ?h")
    case size: True
    have "(of_nat (length B - 16) :: HWSize_t) = of_nat (length B) - of_nat 16" using True by (simp only: of_nat_diff)
    then have left: "doctable_size ?h + index_size ?h = of_nat (length B - 16)" using size by simp
    have "validate_loop (length B) B 16 (of_nat (length B - 16)) new_crc32 =
        Inr (new_crc32\<lparr>crc_state := foldl crc_byte (crc_state new_crc32) (drop 16 B)\<rparr>)"
      by (rule validate_loop_ok) (use True assms in \<open>auto simp: new_crc32_def\<close>)
    then have crc: "bindE (validate_loop (length B) B 16 (of_nat (length B - 16)) new_crc32) (\<lambda>crcobj.
        bindE (Verify333 (fst (GetFinalCRC crcobj) = checksum ?h)) (\<lambda>_. Inr ?h)) =
      bindE (Verify333 (crc_bytes (drop 16 B) = checksum ?h)) (\<lambda>_. Inr ?h)"
      by (simp add: new_crc32_def GetFinalCRC_def crc_bytes_def)
    have "FileIndexReader B True = bindE (Verify333 (magic_number ?h = MAGIC_NUMBER)) (\<lambda>_.
        bindE (Verify333 (crc_bytes (drop 16 B) = checksum ?h)) (\<lambda>_. Inr ?h))"
      by (simp only: FileIndexReader_def fr option.case Let_def size left crc Verify333_True bindE_Inr if_True simp_thms)
    then show ?thesis using True size by (simp add: file_valid_def Verify333_def)
  qed (auto simp: FileIndexReader_def fr Let_def file_valid_def Verify333_def)
qed (simp add: FileIndexReader_def fread_def file_valid_def)

lemma read_header_disk: "read_header (header_disk h) = h"
  by (simp add: read_header_def header_disk_def host_mem)

lemma written_file_valid:
  assumes "written_file B I dt"
  shows "file_valid B" "read_header (take 16 B) = \<lparr>magic_number = MAGIC_NUMBER, checksum = crc_bytes (drop 16 B),
     doctable_size = of_nat (doc_size dt), index_size = of_nat (word_table_size I)\<rparr>"
proof -
  let ?h = "\<lparr>magic_number = MAGIC_NUMBER, checksum = crc_bytes (drop 16 B),
     doctable_size = of_nat (doc_size dt), index_size = of_nat (word_table_size I)\<rparr>"
  have "take 16 B = header_disk ?h" using assms by (simp add: written_file_def has_bytes_def)
  then show h: "read_header (take 16 B) = ?h" by (simp only: read_header_disk)
  have "length B = 16 + doc_size dt + word_table_size I" using assms by (simp add: written_file_def)
  then show "file_valid B" unfolding file_valid_def h by simp
qed

text \<open>What a reader of a written file gets: readers of the two tables.\<close>

lemma written_file_readers:
  assumes B: "written_file B I dt" and fit: "names_fit dt" "words_fit I"
  shows "\<exists>h dtr itr. FileIndexReader B True = Inr h \<and>
     GetDocTableReader B h = Inr dtr \<and> reads_table name_at name_size B (DTGetDocidTable dt) dtr \<and>
     GetIndexTableReader B h = Inr itr \<and>
     reads_table (word_at (mi_store I)) (word_size (mi_store I)) B (mi_table I) itr"
proof -
  let ?h = "read_header (take 16 B)"
  note v = written_file_valid [OF B]
  have len: "length B = 16 + doc_size dt + word_table_size I" "length B < 2 ^ 32"
    and at: "table_at name_at name_size B 16 (chains (DTGetDocidTable dt))"
      "table_at (word_at (mi_store I)) (word_size (mi_store I)) B (16 + doc_size dt) (chains (mi_table I))"
    using B by (simp_all add: written_file_def)
  have open_file: "FileIndexReader B True = Inr ?h" using FileIndexReader_True [OF len(2)] v(1) by simp
  have dt: "16 + table_size name_size (chains (DTGetDocidTable dt)) < 2 ^ 32" using len by (simp add: doc_size_def)
  obtain dtr where dtr: "HashTableReader B (of_nat 16) = Inr dtr" "reads_table name_at name_size B (DTGetDocidTable dt) dtr"
    using HashTableReader_ok [OF _ at(1) dt] fit(1) by (auto simp: names_fit_def)
  have it: "16 + doc_size dt + table_size (word_size (mi_store I)) (chains (mi_table I)) < 2 ^ 32"
    using len by (simp add: word_table_size_def)
  obtain itr where itr: "HashTableReader B (of_nat (16 + doc_size dt)) = Inr itr"
    "reads_table (word_at (mi_store I)) (word_size (mi_store I)) B (mi_table I) itr"
    using HashTableReader_ok [OF _ at(2) it] fit(2) by (auto simp: words_fit_def)
  have "GetDocTableReader B ?h = Inr dtr" using dtr(1) by (simp add: GetDocTableReader_def DocTableReader_def)
  moreover have "GetIndexTableReader B ?h = Inr itr"
    using itr(1) by (simp add: GetIndexTableReader_def IndexTableReader_def v(2))
  ultimately show ?thesis using open_file dtr(2) itr(2) by blast
qed

lemma corrupted_file_rejected:
  assumes "length B < 2 ^ 32" "FileIndexReader B True = Inr h" "16 \<le> i" "i < length B" "b \<noteq> B ! i"
  shows "FileIndexReader (B[i := b]) True = Inl Verify333_Failed"
proof -
  have v: "file_valid B" using assms(1,2) by (auto simp: FileIndexReader_True split: if_splits)
  have "take 16 (B[i := b]) = take 16 B" using assms(3) by simp
  moreover have "drop 16 (B[i := b]) = (drop 16 B)[i - 16 := b]" using assms(3) by (simp add: drop_update_swap)
  moreover have "crc_bytes ((drop 16 B)[i - 16 := b]) \<noteq> crc_bytes (drop 16 B)"
    by (rule crc_bytes_one_byte) (use assms(3-5) in auto)
  ultimately have "\<not> file_valid (B[i := b])" using v by (simp add: file_valid_def)
  then show ?thesis using assms(1) by (simp add: FileIndexReader_True)
qed

end
