(* ===== verification/FileSearch.thy ===== *)
theory FileSearch
  imports IndexReaders
begin

text \<open>
  Queries over index files: src/hw3/QueryProcessor.cc and the shell of
  src/hw3/filesearchshell.cc.

  \<open>fs\<close> is the file system, from names to bytes.  The standard leaves the order in which
  \<open>std::sort\<close> puts equal elements open, so the function is a parameter: \<open>srt\<close> sorts by
  \<open>operator<\<close>, which puts the larger rank first.
\<close>

section \<open>Queries\<close>

record query_result =
  document_name :: string
  rank :: HWSize_t

record open_index =
  oi_bytes :: "byte list"
  oi_docs :: table_reader
  oi_words :: table_reader

fun open_indices :: "(string \<Rightarrow> byte list option) \<Rightarrow> bool \<Rightarrow> string list \<Rightarrow> open_index list res" where
  "open_indices fs validate [] = Inr []"
| "open_indices fs validate (name # names) =
     (case fs name of
        None \<Rightarrow> Inl Verify333_Failed
      | Some B \<Rightarrow>
          bindE (FileIndexReader B validate) (\<lambda>fir.
          bindE (GetDocTableReader B fir) (\<lambda>dtr.
          bindE (GetIndexTableReader B fir) (\<lambda>itr.
          bindE (open_indices fs validate names) (\<lambda>ois.
          Inr (\<lparr>oi_bytes = B, oi_docs = dtr, oi_words = itr\<rparr> # ois))))))"

definition QueryProcessor :: "(string \<Rightarrow> byte list option) \<Rightarrow> string list \<Rightarrow> bool \<Rightarrow> open_index list res" where
  "QueryProcessor fs indexlist validate =
     bindE (Verify333 (indexlist \<noteq> [])) (\<lambda>_. open_indices fs validate indexlist)"

fun combine_with :: "docid_element \<Rightarrow> docid_element list \<Rightarrow> docid_element list" where
  "combine_with partial_it [] = []"
| "combine_with partial_it (ret_it # ret_list) =
     (if de_docid ret_it = de_docid partial_it
      then \<lparr>de_docid = de_docid ret_it, de_num_positions = de_num_positions ret_it + de_num_positions partial_it\<rparr>
        # combine_with partial_it ret_list
      else combine_with partial_it ret_list)"

fun CombineDocIDList :: "docid_element list \<Rightarrow> docid_element list \<Rightarrow> docid_element list" where
  "CombineDocIDList ret_list [] = []"
| "CombineDocIDList ret_list (partial_it # partial_list) =
     combine_with partial_it ret_list @ CombineDocIDList ret_list partial_list"

fun AddQueryResult :: "byte list \<Rightarrow> table_reader \<Rightarrow> docid_element list \<Rightarrow> query_result list res" where
  "AddQueryResult B dtr [] = Inr []"
| "AddQueryResult B dtr (de # final_docid_list) =
     bindE (DocTable_LookupDocID B dtr (de_docid de)) (\<lambda>file_name.
     bindE (AddQueryResult B dtr final_docid_list) (\<lambda>rs.
     case file_name of
       None \<Rightarrow> Inr rs
     | Some file_name \<Rightarrow> Inr (\<lparr>document_name = file_name, rank = de_num_positions de\<rparr> # rs)))"

text \<open>The loop over the words after the first: a word that is not in the index ends it.\<close>

fun further_words :: "byte list \<Rightarrow> table_reader \<Rightarrow> string list \<Rightarrow> docid_element list \<Rightarrow> docid_element list res" where
  "further_words B itr [] final_docid_list = Inr final_docid_list"
| "further_words B itr (word # words) final_docid_list =
     bindE (LookupWord B itr word) (\<lambda>ditr.
     case ditr of
       None \<Rightarrow> Inr []
     | Some ditr \<Rightarrow>
         bindE (GetDocIDList B ditr) (\<lambda>cur_word_docid_list.
         further_words B itr words (CombineDocIDList final_docid_list cur_word_docid_list)))"

text \<open>What one index file adds to the results.\<close>

definition query_one :: "open_index \<Rightarrow> string list \<Rightarrow> query_result list res" where
  "query_one oi query =
     (case query of
        [] \<Rightarrow> Inl Undefined_Behaviour
      | word # words \<Rightarrow>
          bindE (LookupWord (oi_bytes oi) (oi_words oi) word) (\<lambda>ditr.
          case ditr of
            None \<Rightarrow> Inr []
          | Some ditr \<Rightarrow>
              bindE (GetDocIDList (oi_bytes oi) ditr) (\<lambda>final_docid_list.
              if words = [] then AddQueryResult (oi_bytes oi) (oi_docs oi) final_docid_list
              else
                bindE (further_words (oi_bytes oi) (oi_words oi) words final_docid_list) (\<lambda>final_docid_list.
                if final_docid_list = [] then Inr []
                else AddQueryResult (oi_bytes oi) (oi_docs oi) final_docid_list))))"

fun query_all :: "open_index list \<Rightarrow> string list \<Rightarrow> query_result list res" where
  "query_all [] query = Inr []"
| "query_all (oi # ois) query =
     bindE (query_one oi query) (\<lambda>rs. bindE (query_all ois query) (\<lambda>rs'. Inr (rs @ rs')))"

definition ProcessQuery ::
  "(query_result list \<Rightarrow> query_result list) \<Rightarrow> open_index list \<Rightarrow> string list \<Rightarrow> query_result list res" where
  "ProcessQuery srt ois query =
     bindE (Verify333 (query \<noteq> [])) (\<lambda>_. bindE (query_all ois query) (\<lambda>finalresult. Inr (srt finalresult)))"

section \<open>The shell\<close>

datatype shell_output = Prompt | No_Results | Query_Hit string HWSize_t

text \<open>
  \<open>getline\<close> reads up to the next newline and drops it.  At the end of the input before a
  newline the stream's \<open>eof\<close> is set, whatever has been read; that is \<open>None\<close>.
\<close>

definition getline :: "string \<Rightarrow> (string \<times> string) option" where
  "getline inp =
     (if CHR 0x0A \<in> set inp
      then Some (takeWhile (\<lambda>c. c \<noteq> CHR 0x0A) inp, tl (dropWhile (\<lambda>c. c \<noteq> CHR 0x0A) inp))
      else None)"

text \<open>The words that \<open>>>\<close> extracts from a string stream.\<close>

definition isspace :: "char \<Rightarrow> bool" where
  "isspace c \<longleftrightarrow> c = CHR '' '' \<or> (9 \<le> (of_char c :: nat) \<and> (of_char c :: nat) \<le> 13)"

fun words_from :: "string \<Rightarrow> string \<Rightarrow> string list" where
  "words_from w [] = (if w = [] then [] else [w])"
| "words_from w (c # cs) =
     (if isspace c then (if w = [] then words_from [] cs else w # words_from [] cs)
      else words_from (w @ [c]) cs)"

definition split_words :: "string \<Rightarrow> string list" where
  "split_words line = words_from [] line"

definition query_lines :: "query_result list \<Rightarrow> shell_output list" where
  "query_lines rs = (if rs = [] then [No_Results] else map (\<lambda>r. Query_Hit (document_name r) (rank r)) rs)"

lemma getline_shorter: "getline inp = Some (line, rest) \<Longrightarrow> length rest < length inp"
proof -
  assume a: "getline inp = Some (line, rest)"
  then have nl: "CHR 0x0A \<in> set inp" and r: "rest = tl (dropWhile (\<lambda>c. c \<noteq> CHR 0x0A) inp)"
    by (auto simp: getline_def split: if_splits)
  have "length rest \<le> length inp - 1" using r length_dropWhile_le [of "\<lambda>c. c \<noteq> CHR 0x0A" inp] by simp
  moreover have "0 < length inp" using nl by (cases inp) auto
  ultimately show ?thesis by linarith
qed

function search_loop ::
  "(query_result list \<Rightarrow> query_result list) \<Rightarrow> open_index list \<Rightarrow> string \<Rightarrow> shell_output list res" where
  "search_loop srt ois inp =
     (case getline inp of
        None \<Rightarrow> Inr [Prompt]
      | Some (usr_input, rest) \<Rightarrow>
          let query = map (map tolower) (split_words usr_input) in
          if query = [] then bindE (search_loop srt ois rest) (\<lambda>out. Inr (Prompt # out))
          else
            bindE (ProcessQuery srt ois query) (\<lambda>query_results.
            bindE (search_loop srt ois rest) (\<lambda>out. Inr (Prompt # query_lines query_results @ out))))"
  by auto
termination by (relation "measure (\<lambda>(srt, ois, inp). length inp)") (use getline_shorter in auto)

declare search_loop.simps [simp del]

definition filesearchshell_main ::
  "(query_result list \<Rightarrow> query_result list) \<Rightarrow> (string \<Rightarrow> byte list option) \<Rightarrow> string list \<Rightarrow> string \<Rightarrow>
   shell_output list res" where
  "filesearchshell_main srt fs argv stdin =
     (case argv of
        prog # index_list \<Rightarrow>
          if index_list = [] then Inl Exit_Failure
          else bindE (QueryProcessor fs index_list True) (\<lambda>my_qp. search_loop srt my_qp stdin)
      | [] \<Rightarrow> Inl Exit_Failure)"

end
