(* ===== verification/FileSearchSpec.thy ===== *)
theory FileSearchSpec
  imports FileSearch IndexReadersSpec SearchShellSpec
begin

text \<open>
  What queries over index files answer: the results are those of the indices in memory that the
  files were written from, and the shell prints for every line of words the right results.
\<close>

section \<open>Combining lists of documents\<close>

definition as_result :: "docid_element \<Rightarrow> search_result" where
  "as_result de = \<lparr>sr_docid = de_docid de, sr_rank = de_num_positions de\<rparr>"

lemma sr_docid_as_result [simp]: "sr_docid \<circ> as_result = de_docid" "sr_docid (as_result de) = de_docid de"
  by (simp_all add: as_result_def fun_eq_iff)

lemma combine_with_docids:
  "distinct (map de_docid ret) \<Longrightarrow>
   map de_docid (combine_with p ret) = (if de_docid p \<in> de_docid ` set ret then [de_docid p] else [])"
proof (induction ret)
  case (Cons r ret)
  then show ?case by (auto split: if_splits)
qed simp

lemma combine_with_set:
  "x \<in> set (combine_with p ret) \<longleftrightarrow> (\<exists>r \<in> set ret. de_docid r = de_docid p \<and>
     x = \<lparr>de_docid = de_docid r, de_num_positions = de_num_positions r + de_num_positions p\<rparr>)"
  by (induction ret) (simp_all split: if_splits)

lemma Combine_docids:
  "distinct (map de_docid ret) \<Longrightarrow>
   map de_docid (CombineDocIDList ret par) = filter (\<lambda>d. d \<in> de_docid ` set ret) (map de_docid par)"
  by (induction par) (simp_all add: combine_with_docids)

lemma Combine_set: "set (CombineDocIDList ret par) = (\<Union>p \<in> set par. set (combine_with p ret))"
  by (induction par) simp_all

lemma result_of_snoc: "sr_rank (result_of H ks d) + sr_rank (result_of H [k] d) = sr_rank (result_of H (ks @ [k]) d)"
  by (simp add: result_of_def)

text \<open>The documents of some words and those of one more: the documents of them all.\<close>

lemma CombineDocIDList_ok:
  assumes ret: "results_for H ks (map as_result ret)" and par: "results_for H [k] (map as_result par)"
  shows "results_for H (ks @ [k]) (map as_result (CombineDocIDList ret par))"
proof -
  have d: "distinct (map de_docid ret)" "distinct (map de_docid par)"
    using ret par by (simp_all add: results_for_def)
  have r: "as_result ` set ret = result_of H ks ` {d. \<forall>k \<in> set ks. H k d \<noteq> None}"
    "as_result ` set par = result_of H [k] ` {d. H k d \<noteq> None}"
    using ret par by (simp_all add: results_for_def)
  have "as_result ` set (CombineDocIDList ret par) = result_of H (ks @ [k]) ` {d. \<forall>k' \<in> set (ks @ [k]). H k' d \<noteq> None}"
  proof (intro set_eqI iffI)
    fix x assume "x \<in> as_result ` set (CombineDocIDList ret par)"
    then obtain p e where p: "p \<in> set par" "e \<in> set ret" "de_docid e = de_docid p"
      and x: "x = \<lparr>sr_docid = de_docid e, sr_rank = de_num_positions e + de_num_positions p\<rparr>"
      by (auto simp: Combine_set combine_with_set as_result_def)
    obtain d1 where d1: "as_result e = result_of H ks d1" "\<forall>k \<in> set ks. H k d1 \<noteq> None" using r(1) p(2) by blast
    obtain d2 where d2: "as_result p = result_of H [k] d2" "H k d2 \<noteq> None" using r(2) p(1) by blast
    have "de_docid e = d1" "de_docid p = d2"
      using arg_cong [OF d1(1), of sr_docid] arg_cong [OF d2(1), of sr_docid] by simp_all
    then have eq: "d2 = d1" "de_docid e = d1" using p(3) by simp_all
    have "de_num_positions e + de_num_positions p = sr_rank (result_of H (ks @ [k]) d1)"
      using arg_cong [OF d1(1), of sr_rank] arg_cong [OF d2(1), of sr_rank] eq(1)
      unfolding result_of_snoc [symmetric] by (simp add: as_result_def)
    then have "x = result_of H (ks @ [k]) d1" using eq(2) by (simp add: x result_of_def)
    then show "x \<in> result_of H (ks @ [k]) ` {d. \<forall>k' \<in> set (ks @ [k]). H k' d \<noteq> None}" using d1(2) d2(2) eq(1) by auto
  next
    fix x assume "x \<in> result_of H (ks @ [k]) ` {d. \<forall>k' \<in> set (ks @ [k]). H k' d \<noteq> None}"
    then obtain d where dd: "x = result_of H (ks @ [k]) d" "\<forall>k' \<in> set ks. H k' d \<noteq> None" "H k d \<noteq> None" by auto
    have "result_of H ks d \<in> as_result ` set ret" "result_of H [k] d \<in> as_result ` set par" using r dd(2,3) by auto
    then obtain e p where e: "e \<in> set ret" "as_result e = result_of H ks d" and p: "p \<in> set par" "as_result p = result_of H [k] d"
      by (metis imageE)
    have ids: "de_docid e = d" "de_docid p = d"
      using arg_cong [OF e(2), of sr_docid] arg_cong [OF p(2), of sr_docid] by simp_all
    let ?c = "\<lparr>de_docid = de_docid e, de_num_positions = de_num_positions e + de_num_positions p\<rparr>"
    have "?c \<in> set (CombineDocIDList ret par)" unfolding Combine_set UN_iff combine_with_set using e(1) p(1) ids by (intro bexI [of _ p] bexI [of _ e]) simp_all
    moreover have "de_num_positions e + de_num_positions p = sr_rank x"
      using arg_cong [OF e(2), of sr_rank] arg_cong [OF p(2), of sr_rank] unfolding dd(1) result_of_snoc [symmetric]
      by (simp add: as_result_def)
    then have "as_result ?c = x" using ids(1) dd(1) by (simp add: as_result_def result_of_def)
    ultimately show "x \<in> as_result ` set (CombineDocIDList ret par)" by (metis imageI)
  qed
  moreover have "distinct (map de_docid (CombineDocIDList ret par))"
    unfolding Combine_docids [OF d(1)] using d(2) by simp
  ultimately show ?thesis by (simp add: results_for_def)
qed

section \<open>One index file\<close>

text \<open>
  A word is in an index if the index has a structure for that very word, and not just for
  another one with its hash.
\<close>

definition has_word :: "mem_index \<Rightarrow> string \<Rightarrow> bool" where
  "has_word I w \<longleftrightarrow> (case wds_of I (str_key w) of None \<Rightarrow> False | Some wds \<Rightarrow> wds_word wds = w)"

definition opens :: "open_index \<Rightarrow> mem_index \<Rightarrow> doc_table \<Rightarrow> bool" where
  "opens oi I dt \<longleftrightarrow> written_file (oi_bytes oi) I dt \<and> names_fit dt \<and> words_fit I \<and> mi_inv I \<and>
     reads_table name_at name_size (oi_bytes oi) (DTGetDocidTable dt) (oi_docs oi) \<and>
     reads_table (word_at (mi_store I)) (word_size (mi_store I)) (oi_bytes oi) (mi_table I) (oi_words oi)"

lemma word_documents:
  assumes oi: "opens oi I dt"
  shows "\<exists>r. LookupWord (oi_bytes oi) (oi_words oi) w = Inr r \<and>
     (if has_word I w
      then \<exists>ditr des. r = Some ditr \<and> GetDocIDList (oi_bytes oi) ditr = Inr des \<and>
        results_for (hits I) [str_key w] (map as_result des)
      else r = None)"
proof -
  have B: "length (oi_bytes oi) < 2 ^ 32" and inv: "mi_inv I" and
    good: "\<forall>kv \<in> set (ht_entries (mi_table I)). word_good (mi_store I) kv" and
    rt: "reads_table (word_at (mi_store I)) (word_size (mi_store I)) (oi_bytes oi) (mi_table I) (oi_words oi)"
    using oi by (simp_all add: opens_def written_file_def words_fit_def)
  obtain r where r: "LookupWord (oi_bytes oi) (oi_words oi) w = Inr r"
    "case r of None \<Rightarrow> \<forall>wds. wds_of I (str_key w) = Some wds \<longrightarrow> wds_word wds \<noteq> w
      | Some ditr \<Rightarrow> \<exists>wds. wds_of I (str_key w) = Some wds \<and> wds_word wds = w \<and>
          reads_table posting_at posting_size (oi_bytes oi) (wds_docIDs wds) ditr"
    using LookupWord_ok [OF rt inv good B, of w] by blast
  show ?thesis
  proof (cases r)
    case None
    then show ?thesis using r by (auto simp: has_word_def split: option.splits)
  next
    case (Some ditr)
    then obtain wds where wds: "wds_of I (str_key w) = Some wds" "wds_word wds = w"
      "reads_table posting_at posting_size (oi_bytes oi) (wds_docIDs wds) ditr" using r(2) by auto
    let ?es = "ht_entries (wds_docIDs wds)"
    have ok: "wds_ok wds" using inv wds(1) by (simp add: mi_inv_def)
    have "as_result (entry_element kv) = entry_result kv" if "kv \<in> set ?es" for kv
    proof -
      have "ht_map (wds_docIDs wds) (kv_key kv) = Some (kv_value kv)"
        unfolding ht_map_def using kv_in_entries [OF ht_entries_distinct] that ok by (auto simp: wds_ok_def)
      then have "ll_inv (kv_value kv)" using ok by (simp add: wds_ok_def)
      then show ?thesis
        by (simp add: as_result_def entry_element_def entry_result_def NumElementsInLinkedList_def of_nat_num)
    qed
    then have "map as_result (map entry_element ?es) = map entry_result ?es" by simp
    then have "results_for (hits I) [str_key w] (map as_result (map entry_element ?es))"
      using entries_results [OF inv wds(1)] by (simp only:)
    moreover have "has_word I w" using wds by (simp add: has_word_def)
    ultimately show ?thesis using r(1) Some GetDocIDList_ok [OF wds(3)] by auto
  qed
qed

lemma further_words_ok:
  assumes oi: "opens oi I dt"
  shows "results_for (hits I) ks (map as_result final) \<Longrightarrow>
     \<exists>des. further_words (oi_bytes oi) (oi_words oi) ws final = Inr des \<and>
       (if \<forall>w \<in> set ws. has_word I w then results_for (hits I) (ks @ map str_key ws) (map as_result des) else des = [])"
proof (induction ws arbitrary: ks final)
  case (Cons w ws)
  obtain r where r: "LookupWord (oi_bytes oi) (oi_words oi) w = Inr r"
    "if has_word I w
      then \<exists>ditr des. r = Some ditr \<and> GetDocIDList (oi_bytes oi) ditr = Inr des \<and>
        results_for (hits I) [str_key w] (map as_result des)
      else r = None"
    using word_documents [OF oi, of w] by blast
  show ?case
  proof (cases "has_word I w")
    case False
    then show ?thesis using r by simp
  next
    case True
    then obtain ditr des where d: "r = Some ditr" "GetDocIDList (oi_bytes oi) ditr = Inr des"
      "results_for (hits I) [str_key w] (map as_result des)" using r(2) by auto
    have "results_for (hits I) (ks @ [str_key w]) (map as_result (CombineDocIDList final des))"
      by (rule CombineDocIDList_ok [OF Cons.prems d(3)])
    from Cons.IH [OF this] obtain des' where
      "further_words (oi_bytes oi) (oi_words oi) ws (CombineDocIDList final des) = Inr des'"
      "if \<forall>w \<in> set ws. has_word I w then results_for (hits I) ((ks @ [str_key w]) @ map str_key ws) (map as_result des') else des' = []"
      by blast
    then show ?thesis using True r(1) d(1,2)
      by (intro exI [of _ des'], cases "\<forall>w \<in> set ws. has_word I w") auto
  qed
qed simp

text \<open>The names of a list of results; the ids without a name are passed over.\<close>

definition named :: "(DocID_t \<Rightarrow> string option) \<Rightarrow> search_result list \<Rightarrow> query_result list" where
  "named f xs = concat (map (\<lambda>sr. case f (sr_docid sr) of None \<Rightarrow> [] | Some n \<Rightarrow> [\<lparr>document_name = n, rank = sr_rank sr\<rparr>]) xs)"

lemma AddQueryResult_ok:
  assumes oi: "opens oi I dt"
  shows "AddQueryResult (oi_bytes oi) (oi_docs oi) des = Inr (named (ht_map (DTGetDocidTable dt)) (map as_result des))"
proof (induction des)
  case (Cons de des)
  have "DocTable_LookupDocID (oi_bytes oi) (oi_docs oi) (de_docid de) = Inr (ht_map (DTGetDocidTable dt) (de_docid de))"
    using oi by (intro DocTable_LookupDocID_ok) (simp_all add: opens_def names_fit_def)
  then show ?case using Cons by (simp add: named_def as_result_def split: option.split)
qed (simp add: named_def)

lemma named_Nil [simp]: "named f [] = []"
  by (simp add: named_def)

text \<open>
  What one index file adds to the results of a query: the documents of the memory index that
  all the words hit, if the index has these very words.
\<close>

lemma query_one_ok:
  assumes oi: "opens oi I dt" and q: "query \<noteq> []"
  shows "\<exists>rs. query_one oi query = Inr rs \<and>
     (if \<forall>w \<in> set query. has_word I w
      then \<exists>xs. results_for (hits I) (map str_key query) xs \<and> rs = named (ht_map (DTGetDocidTable dt)) xs
      else rs = [])"
proof -
  obtain w ws where query: "query = w # ws" using q by (cases query) auto
  obtain r where r: "LookupWord (oi_bytes oi) (oi_words oi) w = Inr r"
    "if has_word I w
      then \<exists>ditr des. r = Some ditr \<and> GetDocIDList (oi_bytes oi) ditr = Inr des \<and>
        results_for (hits I) [str_key w] (map as_result des)
      else r = None"
    using word_documents [OF oi, of w] by blast
  show ?thesis
  proof (cases "has_word I w")
    case False
    then show ?thesis using r by (simp add: query_one_def query)
  next
    case True
    then obtain ditr des where d: "r = Some ditr" "GetDocIDList (oi_bytes oi) ditr = Inr des"
      "results_for (hits I) [str_key w] (map as_result des)" using r(2) by auto
    obtain des' where des': "further_words (oi_bytes oi) (oi_words oi) ws des = Inr des'"
      "if \<forall>w \<in> set ws. has_word I w then results_for (hits I) ([str_key w] @ map str_key ws) (map as_result des') else des' = []"
      using further_words_ok [OF oi d(3), of ws] by blast
    have nil: "des' = des" if "ws = []" using des'(1) that by simp
    have "query_one oi query = (if des' = [] then Inr [] else AddQueryResult (oi_bytes oi) (oi_docs oi) des')"
      using r(1) d(1,2) des'(1) nil by (auto simp: query_one_def query)
    then have run: "query_one oi query = Inr (named (ht_map (DTGetDocidTable dt)) (map as_result des'))"
      using AddQueryResult_ok [OF oi, of des'] by (cases des') simp_all
    then show ?thesis using des'(2) True by (cases "\<forall>w \<in> set ws. has_word I w") (auto simp: query)
  qed
qed

section \<open>The answers of the shell\<close>

text \<open>\<open>std::sort\<close>: the same results, the larger ranks first.\<close>

definition sorts :: "(query_result list \<Rightarrow> query_result list) \<Rightarrow> bool" where
  "sorts srt \<longleftrightarrow> (\<forall>xs. mset (srt xs) = mset xs \<and> sorted_wrt (\<lambda>x y. rank y \<le> rank x) (srt xs))"

text \<open>
  The right results of a query over several collections of documents, one per index file: from
  each the documents with all the words, each once, with the number of occurrences.
\<close>

definition right_results :: "document list list \<Rightarrow> string list \<Rightarrow> query_result list \<Rightarrow> bool" where
  "right_results dss query rs \<longleftrightarrow>
     (\<exists>rss. list_all2 (\<lambda>docs rs. distinct (map document_name rs) \<and>
          (\<lambda>r. (document_name r, rank r)) ` set rs = ranked docs query) dss rss \<and>
        mset rs = mset (concat rss))"

fun file_answers :: "document list list \<Rightarrow> string list list \<Rightarrow> shell_output list \<Rightarrow> bool" where
  "file_answers dss [] out \<longleftrightarrow> out = [Prompt]"
| "file_answers dss (q # qs) out \<longleftrightarrow>
     (\<exists>rs out'. out = Prompt # (if q = [] then [] else query_lines rs) @ out' \<and>
        (q \<noteq> [] \<longrightarrow> right_results dss (map (map tolower) q) rs \<and> sorted_wrt (\<lambda>x y. rank y \<le> rank x) rs) \<and>
        file_answers dss qs out')"

text \<open>What a crawl must satisfy for its index to be written and to be searched by words.\<close>

definition docs_fit :: "document list \<Rightarrow> bool" where
  "docs_fit docs \<longleftrightarrow> (\<forall>(f, ws) \<in> set docs. f \<noteq> [] \<and> length f < 2 ^ 16 \<and> (\<forall>(w, p) \<in> set ws. w \<noteq> [] \<and> length w < 2 ^ 16))"

definition no_collision :: "document list \<Rightarrow> string \<Rightarrow> bool" where
  "no_collision docs w \<longleftrightarrow> (\<forall>v \<in> doc_words docs. str_key v = str_key w \<longrightarrow> v = w)"

lemma crawl_fits:
  assumes rep: "crawl_rep c docs" and fit: "docs_fit docs"
  shows "names_fit (cr_doctable c)" "words_fit (cr_index c)"
proof -
  let ?dt = "cr_doctable c" and ?I = "cr_index c"
  have dt: "dt_rep ?dt (map fst docs)" and inv: "mi_inv ?I" and h: "hits ?I = doc_hits docs"
    and ws: "index_words ?I \<subseteq> doc_words docs" using rep by (simp_all add: crawl_rep_def)
  have tid: "ht_inv (DTGetDocidTable ?dt)" using dt by (simp add: dt_rep_def DTGetDocidTable_def)
  have "name_good kv" if "kv \<in> set (ht_entries (DTGetDocidTable ?dt))" for kv
  proof -
    have "ht_map (DTGetDocidTable ?dt) (kv_key kv) = Some (kv_value kv)"
      unfolding ht_map_def using kv_in_entries [OF ht_entries_distinct [OF tid]] that by blast
    then have "0 < unat (kv_key kv) \<and> unat (kv_key kv) \<le> length docs \<and> kv_value kv = map fst docs ! (unat (kv_key kv) - 1)"
      using dt by (simp add: dt_rep_def DTGetDocidTable_def split: if_splits)
    then have "kv_value kv \<in> fst ` set docs" by (metis One_nat_def Suc_pred length_map less_le_trans lessI list.set_map nth_mem not_less_eq_eq not_le)
    then show ?thesis using fit by (auto simp: docs_fit_def name_good_def)
  qed
  then show "names_fit ?dt" using tid by (simp add: names_fit_def)
  have o: "owns (mi_table ?I) (mi_store ?I)" using inv by (rule mi_inv_owns)
  have ti: "ht_inv (mi_table ?I)" using o by (rule owns_inv)
  have "word_good (mi_store ?I) kv" if "kv \<in> set (ht_entries (mi_table ?I))" for kv
  proof -
    have a: "ht_map (mi_table ?I) (kv_key kv) = Some (kv_value kv)"
      unfolding ht_map_def using kv_in_entries [OF ht_entries_distinct [OF ti]] that by blast
    then obtain wds where cell: "st_cells (mi_store ?I) (kv_value kv) = Some wds" and v: "view (mi_table ?I) (mi_store ?I) (kv_key kv) = Some wds"
      using owns_cell [OF o] by blast
    have w: "wds_of ?I (kv_key kv) = Some wds" using v by (simp add: wds_of_def)
    have ok: "wds_ok wds" using inv w by (simp add: mi_inv_def)
    then have t: "ht_inv (wds_docIDs wds)" by (simp add: wds_ok_def)
    have "wds_word wds \<in> doc_words docs" using w ws by (auto simp: index_words_def)
    then obtain f vs p where "(f, vs) \<in> set docs" "(wds_word wds, p) \<in> set vs" by (auto simp: doc_words_def)
    then have word: "wds_word wds \<noteq> []" "length (wds_word wds) < 2 ^ 16" using fit by (fastforce simp: docs_fit_def)+
    have "posting_good p" if "p \<in> set (ht_entries (wds_docIDs wds))" for p
    proof -
      have p: "ht_map (wds_docIDs wds) (kv_key p) = Some (kv_value p)"
        unfolding ht_map_def using kv_in_entries [OF ht_entries_distinct [OF t]] that by blast
      then have "doc_hits docs (kv_key kv) (kv_key p) = Some (ll_list (kv_value p))"
        using w unfolding h [symmetric] by (simp add: hits_def)
      then have "ll_list (kv_value p) \<noteq> []" by (auto simp: doc_hits_def split: if_splits list.splits)
      then show ?thesis using p ok by (simp add: posting_good_def wds_ok_def)
    qed
    then show ?thesis using word t by (simp add: word_good_def cell set_good_def)
  qed
  then show "words_fit ?I" using ti by (simp add: words_fit_def)
qed

definition reads_crawl :: "open_index \<Rightarrow> document list \<Rightarrow> bool" where
  "reads_crawl oi docs \<longleftrightarrow> (\<exists>c. crawl_rep c docs \<and> opens oi (cr_index c) (cr_doctable c))"

text \<open>A query over one index file.\<close>

lemma query_one_answers:
  assumes oi: "reads_crawl oi docs" and q: "query \<noteq> []" "\<forall>w \<in> set query. no_collision docs w"
  shows "\<exists>rs. query_one oi query = Inr rs \<and> distinct (map document_name rs) \<and>
     (\<lambda>r. (document_name r, rank r)) ` set rs = ranked docs query"
proof -
  obtain c where rep: "crawl_rep c docs" and op: "opens oi (cr_index c) (cr_doctable c)"
    using oi by (auto simp: reads_crawl_def)
  let ?dt = "cr_doctable c" and ?I = "cr_index c"
  have dt: "dt_rep ?dt (map fst docs)" and h: "hits ?I = doc_hits docs" and ws: "index_words ?I \<subseteq> doc_words docs"
    and inv: "mi_inv ?I" using rep by (simp_all add: crawl_rep_def)
  have n: "length docs < 2 ^ 32" using dt by (simp add: dt_rep_def)
  have "distinct (map str_key (map fst docs))" using dt unfolding dt_rep_def by blast
  then have names: "distinct (map fst docs)" unfolding distinct_map [of str_key] by blast
  obtain rs where rs: "query_one oi query = Inr rs"
    "if \<forall>w \<in> set query. has_word ?I w
      then \<exists>xs. results_for (hits ?I) (map str_key query) xs \<and> rs = named (ht_map (DTGetDocidTable ?dt)) xs
      else rs = []"
    using query_one_ok [OF op q(1)] by blast
  show ?thesis
  proof (cases "\<forall>w \<in> set query. has_word ?I w")
    case True
    then obtain xs where xs: "results_for (doc_hits docs) (map str_key query) xs" "rs = named (ht_map (DTGetDocidTable ?dt)) xs"
      using rs(2) unfolding h by auto
    note rr = results_ranked [OF q(1) n names xs(1)]
    let ?r = "\<lambda>sr. \<lparr>document_name = map fst docs ! (unat (sr_docid sr) - 1), rank = sr_rank sr\<rparr>"
    have "ht_map (DTGetDocidTable ?dt) (sr_docid sr) = Some (map fst docs ! (unat (sr_docid sr) - 1))" if "sr \<in> set xs" for sr
      using dt rr(3) that by (simp add: dt_rep_def DTGetDocidTable_def)
    then have e: "map (\<lambda>sr. case ht_map (DTGetDocidTable ?dt) (sr_docid sr) of None \<Rightarrow> []
        | Some n \<Rightarrow> [\<lparr>document_name = n, rank = sr_rank sr\<rparr>]) xs = map (\<lambda>sr. [?r sr]) xs" by simp
    have "rs = concat (map (\<lambda>sr. [?r sr]) xs)" by (simp only: xs(2) named_def e)
    then have "rs = map ?r xs" by simp
    then show ?thesis using rs(1) rr(1,2) by (simp add: image_image comp_def)
  next
    case False
    then obtain w where w: "w \<in> set query" "\<not> has_word ?I w" by blast
    have "wds_of ?I (str_key w) = None"
    proof (rule ccontr)
      assume "wds_of ?I (str_key w) \<noteq> None"
      then obtain wds where wds: "wds_of ?I (str_key w) = Some wds" by blast
      then have "str_key (wds_word wds) = str_key w" using inv by (simp add: mi_inv_def)
      moreover have "wds_word wds \<in> doc_words docs" using wds ws by (auto simp: index_words_def)
      ultimately have "wds_word wds = w" using q(2) w(1) by (auto simp: no_collision_def)
      then show False using w(2) wds by (simp add: has_word_def)
    qed
    then have "doc_hits docs (str_key w) d = None" for d unfolding h [symmetric] by (simp add: hits_def)
    then have "hit_docs docs query = {}" using w(1) by (auto simp: hit_docs_def)
    then have "ranked docs query = {}" using ranked_image [OF q(1) n] by simp
    moreover have "rs = []" using rs(2) False by simp
    ultimately show ?thesis using rs(1) by simp
  qed
qed

lemma query_all_answers:
  "list_all2 reads_crawl ois dss \<Longrightarrow> query \<noteq> [] \<Longrightarrow> \<forall>docs \<in> set dss. \<forall>w \<in> set query. no_collision docs w \<Longrightarrow>
   \<exists>rs. query_all ois query = Inr rs \<and> right_results dss query rs"
proof (induction rule: list_all2_induct)
  case Nil
  show ?case by (simp add: right_results_def)
next
  case (Cons oi ois docs dss)
  obtain rs where rs: "query_one oi query = Inr rs" "distinct (map document_name rs)"
    "(\<lambda>r. (document_name r, rank r)) ` set rs = ranked docs query"
    using query_one_answers [OF Cons.hyps(1) Cons.prems(1)] Cons.prems(2) by auto
  obtain rs' where rs': "query_all ois query = Inr rs'" "right_results dss query rs'" using Cons.IH Cons.prems by auto
  then obtain rss where rss: "list_all2 (\<lambda>docs rs. distinct (map document_name rs) \<and>
      (\<lambda>r. (document_name r, rank r)) ` set rs = ranked docs query) dss rss" "mset rs' = mset (concat rss)"
    by (auto simp: right_results_def)
  have "right_results (docs # dss) query (rs @ rs')"
    unfolding right_results_def by (rule exI [of _ "rs # rss"]) (use rs(2,3) rss in simp)
  then show ?case using rs(1) rs'(1) by simp
qed

lemma ProcessQuery_ok:
  assumes ois: "list_all2 reads_crawl ois dss" and q: "query \<noteq> []" "\<forall>docs \<in> set dss. \<forall>w \<in> set query. no_collision docs w"
    and srt: "sorts srt"
  shows "\<exists>rs. ProcessQuery srt ois query = Inr rs \<and> right_results dss query rs \<and> sorted_wrt (\<lambda>x y. rank y \<le> rank x) rs"
proof -
  obtain rs where rs: "query_all ois query = Inr rs" "right_results dss query rs" using query_all_answers [OF ois q] by blast
  have "mset (srt rs) = mset rs" "sorted_wrt (\<lambda>x y. rank y \<le> rank x) (srt rs)" using srt by (simp_all add: sorts_def)
  then have "right_results dss query (srt rs)" using rs(2) by (simp add: right_results_def)
  then show ?thesis using rs(1) q(1) \<open>sorted_wrt (\<lambda>x y. rank y \<le> rank x) (srt rs)\<close> by (simp add: ProcessQuery_def)
qed

section \<open>Lines of words\<close>

definition typed_word :: "string \<Rightarrow> bool" where
  "typed_word w \<longleftrightarrow> w \<noteq> [] \<and> (\<forall>c \<in> set w. \<not> isspace c)"

lemma isspace_blank [simp]: "isspace CHR '' ''" "isspace CHR 0x0A"
  by (simp_all add: isspace_def)

lemma words_from_word: "\<forall>c \<in> set w. \<not> isspace c \<Longrightarrow> words_from v (w @ cs) = words_from (v @ w) cs"
  by (induction w arbitrary: v) simp_all

lemma split_join: "\<forall>w \<in> set ws. typed_word w \<Longrightarrow> split_words (join_words ws) = ws"
proof (induction ws rule: join_words.induct)
  case (2 w)
  then show ?case using words_from_word [of w "[]" "[]"] by (simp add: split_words_def typed_word_def)
next
  case (3 w v ws)
  then show ?case using words_from_word [of w "[]" "CHR '' '' # join_words (v # ws)"]
    by (simp add: split_words_def typed_word_def)
qed (simp add: split_words_def)

lemma typed_line: "\<forall>w \<in> set ws. typed_word w \<Longrightarrow> CHR 0x0A \<notin> set (join_words ws)"
  by (induction ws rule: join_words.induct) (auto simp: typed_word_def)

lemma getline_query:
  assumes "\<forall>w \<in> set ws. typed_word w"
  shows "getline (query_line ws @ rest) = Some (join_words ws, rest)"
proof -
  have n: "\<forall>c \<in> set (join_words ws). c \<noteq> CHR 0x0A" using typed_line [OF assms] by auto
  show ?thesis using n by (simp add: getline_def query_line_def takeWhile_append2 dropWhile_append2)
qed

lemma search_loop_ok:
  assumes ois: "list_all2 reads_crawl ois dss" and srt: "sorts srt"
  shows "\<forall>q \<in> set queries. \<forall>w \<in> set q. typed_word w \<and> (\<forall>docs \<in> set dss. no_collision docs (map tolower w)) \<Longrightarrow>
    \<exists>out. search_loop srt ois (concat (map query_line queries)) = Inr out \<and> file_answers dss queries out"
proof (induction queries)
  case Nil
  show ?case by (subst search_loop.simps) (simp add: getline_def)
next
  case (Cons q qs)
  have q: "\<forall>w \<in> set q. typed_word w" using Cons.prems by simp
  obtain out where out: "search_loop srt ois (concat (map query_line qs)) = Inr out" "file_answers dss qs out"
    using Cons by auto
  have line: "getline (concat (map query_line (q # qs))) = Some (join_words q, concat (map query_line qs))"
    using getline_query [OF q] by simp
  show ?case
  proof (cases "q = []")
    case True
    then have "search_loop srt ois (concat (map query_line (q # qs))) = Inr (Prompt # out)"
      unfolding search_loop.simps [of srt ois "concat (map query_line (q # qs))"] line
      using out(1) by (simp add: split_words_def)
    then show ?thesis using True out(2) by auto
  next
    case False
    let ?query = "map (map tolower) q"
    have nc: "\<forall>docs \<in> set dss. \<forall>w \<in> set ?query. no_collision docs w" using Cons.prems by auto
    obtain rs where rs: "ProcessQuery srt ois ?query = Inr rs" "right_results dss ?query rs" "sorted_wrt (\<lambda>x y. rank y \<le> rank x) rs"
      using ProcessQuery_ok [OF ois _ nc srt] False by auto
    have "search_loop srt ois (concat (map query_line (q # qs))) = Inr (Prompt # query_lines rs @ out)"
      unfolding search_loop.simps [of srt ois "concat (map query_line (q # qs))"] line
      using out(1) rs(1) False by (simp add: split_join [OF q])
    then show ?thesis using False out(2) rs(2,3) by auto
  qed
qed

section \<open>Opening the index files\<close>

definition crawl_file :: "byte list \<Rightarrow> document list \<Rightarrow> bool" where
  "crawl_file B docs \<longleftrightarrow> docs_fit docs \<and> (\<exists>c. crawl_rep c docs \<and> written_file B (cr_index c) (cr_doctable c))"

lemma open_indices_ok:
  "list_all2 (\<lambda>name docs. \<exists>B. fs name = Some B \<and> crawl_file B docs) names dss \<Longrightarrow>
   \<exists>ois. open_indices fs True names = Inr ois \<and> list_all2 reads_crawl ois dss"
proof (induction rule: list_all2_induct)
  case (Cons name names docs dss)
  obtain B c where B: "fs name = Some B" "docs_fit docs" "crawl_rep c docs" "written_file B (cr_index c) (cr_doctable c)"
    using Cons.hyps(1) by (auto simp: crawl_file_def)
  note fit = crawl_fits [OF B(3,2)]
  obtain h dtr itr where r: "FileIndexReader B True = Inr h" "GetDocTableReader B h = Inr dtr" "GetIndexTableReader B h = Inr itr"
    "reads_table name_at name_size B (DTGetDocidTable (cr_doctable c)) dtr"
    "reads_table (word_at (mi_store (cr_index c))) (word_size (mi_store (cr_index c))) B (mi_table (cr_index c)) itr"
    using written_file_readers [OF B(4) fit] by blast
  obtain ois where ois: "open_indices fs True names = Inr ois" "list_all2 reads_crawl ois dss" using Cons.IH by blast
  let ?oi = "\<lparr>oi_bytes = B, oi_docs = dtr, oi_words = itr\<rparr>"
  have "mi_inv (cr_index c)" using B(3) by (simp add: crawl_rep_def)
  then have "reads_crawl ?oi docs" using B(3,4) fit r(4,5) by (auto simp: reads_crawl_def opens_def)
  then show ?case using B(1) r(1-3) ois by simp
qed simp

lemma filesearchshell_ok:
  assumes files: "list_all2 (\<lambda>name docs. \<exists>B. fs name = Some B \<and> crawl_file B docs) names dss" "names \<noteq> []"
    and srt: "sorts srt"
    and qs: "\<forall>q \<in> set queries. \<forall>w \<in> set q. typed_word w \<and> (\<forall>docs \<in> set dss. no_collision docs (map tolower w))"
  shows "\<exists>out. filesearchshell_main srt fs (prog # names) (concat (map query_line queries)) = Inr out \<and>
     file_answers dss queries out"
proof -
  obtain ois where ois: "open_indices fs True names = Inr ois" "list_all2 reads_crawl ois dss"
    using open_indices_ok [OF files(1)] by blast
  then show ?thesis
    using search_loop_ok [OF ois(2) srt qs] files(2) by (simp add: filesearchshell_main_def QueryProcessor_def)
qed

end
