(* ===== verification/BuildFileIndex.thy ===== *)
theory BuildFileIndex
  imports FileIndexWriter FileCrawler
begin

text \<open>
  The program of src/hw3/buildfileindex.cc: it crawls a directory and writes the index to a
  file.  \<open>opened\<close> is what opening that file for writing gives; the result is the exit status
  and the file that is left.  \<open>Usage\<close> exits.
\<close>

definition buildfileindex_main ::
  "nat \<Rightarrow> allocator \<Rightarrow> os \<Rightarrow> string list \<Rightarrow> ofile option \<Rightarrow> (int \<times> byte list option) res" where
  "buildfileindex_main fuel m sys argv opened =
     (case argv of
        [_, crawlrootdir, indexfilename] \<Rightarrow>
          bindE (CrawlFileTree fuel m sys crawlrootdir) (\<lambda>(m, c).
          case c of
            None \<Rightarrow> Inl Exit_Failure
          | Some c \<Rightarrow>
              bindE (WriteIndex m (cr_index c) (cr_doctable c) opened) (\<lambda>(idxlen, m, file).
              bindE (FreeDocTable (cr_doctable c)) (\<lambda>_.
              bindE (FreeMemIndex (cr_index c)) (\<lambda>_.
              Inr (if idxlen = 0 then 1 else 0, file)))))
      | _ \<Rightarrow> Inl Exit_Failure)"

end
