(* ===== verification/BuildFileIndexSpec.thy ===== *)
theory BuildFileIndexSpec
  imports BuildFileIndex FileSearchSpec
begin

text \<open>
  The programs of src/hw3 together: what an index file holds that was written from a crawl, and
  what the file search shell answers from one or several of them.
\<close>

section \<open>Writing a crawl\<close>

definition index_room :: "crawl \<Rightarrow> bool" where
  "index_room c \<longleftrightarrow> 16 + doc_size (cr_doctable c) + word_table_size (cr_index c) < 2 ^ 32"

lemma WriteIndex_written:
  assumes rep: "crawl_rep c docs" and fit: "docs_fit docs" "index_room c" and m: "never_fails m"
  shows "\<exists>m' B. WriteIndex m (cr_index c) (cr_doctable c) (Some (new_ofile [])) = Inr (of_nat (length B), m', Some B) \<and>
     never_fails m' \<and> written_file B (cr_index c) (cr_doctable c)"
proof -
  note f = crawl_fits [OF rep fit(1)]
  have "of_plan (new_ofile []) = []" "of_bytes (new_ofile []) = []" by (simp_all add: new_ofile_def)
  then show ?thesis using WriteIndex_ok [OF f _ m] fit(2) unfolding index_room_def by blast
qed

lemma WriteIndex_crawl:
  assumes "crawl_rep c docs" "docs_fit docs" "index_room c" "never_fails m"
  shows "\<exists>m' B. WriteIndex m (cr_index c) (cr_doctable c) (Some (new_ofile [])) = Inr (of_nat (length B), m', Some B) \<and>
     never_fails m' \<and> length B = 16 + doc_size (cr_doctable c) + word_table_size (cr_index c) \<and> crawl_file B docs"
  using WriteIndex_written [OF assms] assms(1,2) by (fastforce simp: crawl_file_def written_file_def)

section \<open>A small crawl\<close>

definition one_pair :: "HTKey_t \<Rightarrow> 'v \<Rightarrow> 'v hash_table" where
  "one_pair k v = (case InsertHashTable [] (new_table 1) \<lparr>kv_key = k, kv_value = v\<rparr> of
     Inr (_, _, _, t) \<Rightarrow> t | Inl _ \<Rightarrow> new_table 1)"

lemma one_pair:
  fixes v :: 'v
  shows "ht_inv (one_pair k v)" "ht_map (one_pair k v) = [k \<mapsto> v]" "unat (ht_num_elements (one_pair k v)) = 1"
    "ht_num_buckets (one_pair k v) = 1" "chains (one_pair k v) = [[as_kv k v]]"
proof -
  have nt: "ht_inv (new_table 1 :: 'v hash_table)" "ht_map (new_table 1 :: 'v hash_table) = Map.empty"
    "Suc (unat (ht_num_elements (new_table 1 :: 'v hash_table))) < 2 ^ 32"
    using new_table [of 1, where 'v = 'v] by simp_all
  obtain m' t' where t': "InsertHashTable [] (new_table 1) \<lparr>kv_key = k, kv_value = v\<rparr> = Inr (1, None, m', t')"
    "ht_inv t'" "ht_map t' = [k \<mapsto> v]" "unat (ht_num_elements t') = 1"
    using ht.ins_full [OF nt(1,3) never_fails_Nil, of k v] nt(2) by auto
  have t: "one_pair k v = t'" using t'(1) by (simp add: one_pair_def)
  show inv: "ht_inv (one_pair k v)" and map: "ht_map (one_pair k v) = [k \<mapsto> v]" and num: "unat (ht_num_elements (one_pair k v)) = 1"
    using t' by (simp_all add: t)
  show nb: "ht_num_buckets (one_pair k v) = 1"
    by (simp add: one_pair_def InsertHashTable_def ResizeHashtable_def new_table_def insert_chain_def HashKeyToBucketNum_def
        NumElementsInLinkedList_def empty_list_def PushLinkedList_def new_node_def set_prev_def set_next_def deref_def set_bucket_def)
  have len: "length (ht_buckets (one_pair k v)) = 1" using inv nb by (simp add: ht_inv_def)
  then obtain l where l: "ht_buckets (one_pair k v) = [l]" by (auto simp: length_Suc_conv)
  then have e: "ht_entries (one_pair k v) = ll_list l" by (simp add: ht_entries_def)
  have "length (ll_list l) = 1" using inv num e by (simp add: ht_inv_def)
  then obtain kv where kv: "ll_list l = [kv]" by (auto simp: length_Suc_conv)
  then have "kv_map [kv] = [k \<mapsto> v]" using map e by (simp add: ht_map_def)
  then have "kv_map [kv] k = Some v" by simp
  then have "kv = as_kv k v" by (cases kv) (auto simp: as_kv_def split: if_splits)
  then show "chains (one_pair k v) = [[as_kv k v]]" using kv l by (simp add: chains_def)
qed

definition demo_docs :: "document list" where
  "demo_docs = [(''a'', [(''two'', 0), (''two'', 4)])]"

definition demo_set :: word_doc_set where
  "demo_set = \<lparr>wds_word = ''two'', wds_docIDs = one_pair 1 (position_list [0, 4])\<rparr>"

definition demo_crawl :: crawl where
  "demo_crawl = \<lparr>cr_doctable = \<lparr>docid_to_docname = one_pair 1 ''a'', docname_to_docid = one_pair (str_key ''a'') 1, max_id = 1\<rparr>,
     cr_index = \<lparr>mi_table = one_pair (str_key ''two'') 0, mi_store = snd (st_alloc empty_store demo_set)\<rparr>\<rparr>"

lemma demo_wds: "wds_of (cr_index demo_crawl) = [str_key ''two'' \<mapsto> demo_set]"
  by (auto simp: wds_of_def view_def demo_crawl_def one_pair(2) st_alloc_def empty_store_def fun_eq_iff)

lemma demo_crawl_rep: "crawl_rep demo_crawl demo_docs"
proof -
  have w: "unat w = 1 \<longleftrightarrow> w = 1" for w :: "64 word" by (simp add: word_unat_eq_iff)
  have dt: "dt_rep (cr_doctable demo_crawl) (map fst demo_docs)"
    by (auto simp: dt_rep_def demo_crawl_def demo_docs_def one_pair w[symmetric] le_Suc_eq)
  have o: "owns (mi_table (cr_index demo_crawl)) (mi_store (cr_index demo_crawl))"
    by (auto simp: owns_def demo_crawl_def one_pair st_alloc_def empty_store_def split: if_splits)
  have inv: "mi_inv (cr_index demo_crawl)"
    using o by (auto simp: mi_inv_def demo_wds demo_set_def wds_ok_def one_pair position_list split: if_splits)
  have h: "hits (cr_index demo_crawl) = doc_hits demo_docs"
  proof (intro ext)
    fix k d
    have "with_key k (occurrences [(''two'', 0), (''two'', 4)]) =
        (if k = str_key ''two'' then [(''two'', 0), (''two'', 4)] else [])"
      by (auto simp: with_key_def occurrences_def)
    then show "hits (cr_index demo_crawl) k d = doc_hits demo_docs k d"
      using w [of d] by (auto simp: hits_def demo_wds doc_hits_def demo_docs_def demo_set_def one_pair position_list le_Suc_eq)
  qed
  have "mi_bound (cr_index demo_crawl) 2 2"
  proof -
    have "unat (ht_num_elements (mi_table (cr_index demo_crawl))) = 1" by (simp add: demo_crawl_def one_pair)
    then show ?thesis by (auto simp: mi_bound_def demo_wds demo_set_def one_pair split: if_splits)
  qed
  moreover have "index_words (cr_index demo_crawl) \<subseteq> doc_words demo_docs"
    by (auto simp: index_words_def demo_wds demo_set_def doc_words_def demo_docs_def split: if_splits)
  moreover have "num_words demo_docs = 2" "\<forall>d \<in> set demo_docs. snd d \<noteq> []" by (simp_all add: num_words_def demo_docs_def)
  ultimately show ?thesis using dt inv h by (simp add: crawl_rep_def)
qed

text \<open>The index of an empty directory.\<close>

lemma table_size_empty:
  assumes "ht_inv t" "ht_map t = Map.empty"
  shows "table_size sz (chains t) = 4 + 8 * unat (ht_num_buckets t)"
proof -
  have "ht_entries t = []"
  proof (rule ccontr)
    assume "ht_entries t \<noteq> []"
    then obtain kv where "kv \<in> set (ht_entries t)" by (cases "ht_entries t") auto
    then show False using assms(2) unfolding ht_map_def kv_in_entries [OF ht_entries_distinct [OF assms(1)]] by simp
  qed
  then have "chains t = replicate (length (ht_buckets t)) []"
    by (intro replicate_eqI) (auto simp: chains_def ht_entries_def)
  then show ?thesis using assms(1) by (simp add: table_size_def bucket_size_def ht_inv_def sum_list_replicate)
qed

lemma AllocateDocTable_new:
  assumes "never_fails m"
  shows "\<exists>m' t. AllocateDocTable m = Inr (t, m') \<and> never_fails m' \<and> dt_rep t [] \<and> doc_size t = 4 + 8 * 1024"
proof -
  obtain m' t where t: "AllocateDocTable m = Inr (t, m')" "never_fails m'" "dt_rep t []"
    using AllocateDocTable_ok [OF assms] by blast
  obtain m1 where m1: "malloc m = (True, m1)" "never_fails m1" using assms by (rule never_fails_malloc)
  obtain m2 and ids :: "string hash_table" where ids: "AllocateHashTable m1 1024 = Inr (Some ids, m2)"
    "never_fails m2" "ht_num_buckets ids = 1024" using Allocate_ok [OF m1(2), of 1024] by auto
  have "ht_num_buckets (docid_to_docname t) = 1024"
    using t(1) m1(1) ids(1,3) by (auto simp: AllocateDocTable_def split: option.splits sum.splits simp: bindE_eq_Inr)
  moreover have "ht_inv (docid_to_docname t)" "ht_map (docid_to_docname t) = Map.empty"
    using t(3) by (auto simp: dt_rep_def)
  ultimately have "doc_size t = 4 + 8 * 1024" by (simp add: doc_size_def DTGetDocidTable_def table_size_empty)
  then show ?thesis using t by blast
qed

lemma AllocateMemIndex_new:
  assumes "never_fails m"
  shows "\<exists>I m'. AllocateMemIndex m = Inr (I, m') \<and> never_fails m' \<and> mi_inv I \<and> mi_bound I 0 0 \<and>
     hits I = (\<lambda>k d. None) \<and> word_table_size I = 4 + 8 * 128"
proof -
  obtain I m' where I: "AllocateMemIndex m = Inr (I, m')" "never_fails m'" "mi_inv I" "mi_bound I 0 0" "hits I = (\<lambda>k d. None)"
    using AllocateMemIndex_ok [OF assms] by blast
  obtain m1 and t :: "nat hash_table" where t: "AllocateHashTable m 128 = Inr (Some t, m1)"
    "ht_inv t" "ht_map t = Map.empty" "ht_num_buckets t = 128" using Allocate_ok [OF assms, of 128] by auto
  have "mi_table I = t" using I(1) t(1) by (auto simp: AllocateMemIndex_def)
  then have "word_table_size I = 4 + 8 * 128" using t(2-4) by (simp add: word_table_size_def table_size_empty)
  then show ?thesis using I by blast
qed

lemma demo_room: "index_room demo_crawl"
  by (simp add: index_room_def doc_size_def word_table_size_def table_size_def bucket_size_def DTGetDocidTable_def
      demo_crawl_def one_pair name_size_def word_size_def st_alloc_def empty_store_def set_size_def demo_set_def
      posting_size_def position_list)

lemma demo_fit: "docs_fit demo_docs"
  by (simp add: docs_fit_def demo_docs_def)

text \<open>A function that sorts the results.\<close>

definition rank_sort :: "query_result list \<Rightarrow> query_result list" where
  "rank_sort rs = rev (sort_key rank rs)"

lemma rank_sort: "sorts rank_sort"
proof -
  have "sorted_wrt (\<lambda>x y. rank x \<le> rank y) (sort_key rank xs)" for xs :: "query_result list"
    using sorted_sort_key [of rank xs] by (simp only: sorted_map)
  then show ?thesis by (simp add: sorts_def rank_sort_def sorted_wrt_rev)
qed


text \<open>A query of one word, and its answer.\<close>

lemma low_two: "map tolower ''Two'' = ''two''"
  by code_simp

lemma demo_query:
  "\<forall>q \<in> set [[''Two'']]. \<forall>w \<in> set q. typed_word w \<and> (\<forall>docs \<in> set [demo_docs]. no_collision docs (map tolower w))"
proof -
  have "typed_word ''Two''" by (simp add: typed_word_def isspace_def)
  moreover have "no_collision demo_docs (map tolower ''Two'')"
    unfolding low_two by (simp add: no_collision_def doc_words_def demo_docs_def)
  ultimately show ?thesis by simp
qed

lemma demo_line: "concat (map query_line [[''Two'']]) = ''Two'' @ [CHR 0x0A]"
  by (simp add: query_line_def)

lemma demo_single:
  assumes "distinct (map document_name rs)" "(\<lambda>r. (document_name r, rank r)) ` set rs = ranked demo_docs [''two'']"
  shows "\<exists>r. rs = [r] \<and> document_name r = ''a'' \<and> rank r = 2"
proof -
  have "word_hits ''two'' [(''two'', 0), (''two'', 4)] = 2" by code_simp
  then have "ranked demo_docs [''two''] = {(''a'', 2)}" by (auto simp: ranked_def demo_docs_def)
  then have rs: "(\<lambda>r. (document_name r, rank r)) ` set rs = {(''a'', 2)}" using assms(2) by simp
  have "document_name ` set rs = {''a''}" using arg_cong [OF rs, of "image fst"] by (simp add: image_image)
  then have "card (set (map document_name rs)) = 1" by simp
  then have "length rs = 1" using distinct_card [OF assms(1)] by simp
  then show ?thesis using rs by (auto simp: length_Suc_conv)
qed

lemma demo_results:
  assumes "file_answers (replicate n demo_docs) [[''Two'']] out"
  shows "\<exists>rs. out = Prompt # query_lines rs @ [Prompt] \<and> right_results (replicate n demo_docs) [''two''] rs"
proof -
  have chars: "tolower CHR ''T'' = CHR ''t''" "tolower CHR ''w'' = CHR ''w''" "tolower CHR ''o'' = CHR ''o''"
    using low_two by simp_all
  show ?thesis using assms by (auto simp: chars)
qed

lemma right_results_demo:
  "right_results (replicate n demo_docs) [''two''] rs \<Longrightarrow>
   length rs = n \<and> (\<forall>r \<in> set rs. document_name r = ''a'' \<and> rank r = 2)"
proof -
  assume "right_results (replicate n demo_docs) [''two''] rs"
  then obtain rss where rss: "list_all2 (\<lambda>docs rs. distinct (map document_name rs) \<and>
      (\<lambda>r. (document_name r, rank r)) ` set rs = ranked docs [''two'']) (replicate n demo_docs) rss" "mset rs = mset (concat rss)"
    by (auto simp: right_results_def)
  have "length (concat rss) = n \<and> (\<forall>r \<in> set (concat rss). document_name r = ''a'' \<and> rank r = 2)"
    using rss(1)
  proof (induction n arbitrary: rss)
    case (Suc n)
    then obtain rs1 rss1 where "rss = rs1 # rss1" "distinct (map document_name rs1)"
      "(\<lambda>r. (document_name r, rank r)) ` set rs1 = ranked demo_docs [''two'']" and
      r: "list_all2 (\<lambda>docs rs. distinct (map document_name rs) \<and>
        (\<lambda>r. (document_name r, rank r)) ` set rs = ranked docs [''two'']) (replicate n demo_docs) rss1"
      unfolding replicate_Suc list_all2_Cons1 by blast
    then show ?case using demo_single [of rs1] Suc.IH [OF r] by auto
  qed simp
  moreover have "set rs = set (concat rss)" "length rs = length (concat rss)"
    using mset_eq_setD [OF rss(2)] mset_eq_length [OF rss(2)] by blast+
  ultimately show ?thesis by simp
qed

lemma demo_answer:
  assumes "file_answers (replicate n demo_docs) [[''Two'']] out" "0 < n"
  shows "out = Prompt # replicate n (Query_Hit ''a'' 2) @ [Prompt]"
proof -
  obtain rs where rs: "out = Prompt # query_lines rs @ [Prompt]" "length rs = n"
    "\<forall>r \<in> set rs. document_name r = ''a'' \<and> rank r = 2"
    using demo_results [OF assms(1)] right_results_demo by blast
  then have "map (\<lambda>r. Query_Hit (document_name r) (rank r)) rs = replicate n (Query_Hit ''a'' 2)"
    by (intro replicate_eqI) auto
  moreover have "rs \<noteq> []" using rs(2) assms(2) by auto
  ultimately show ?thesis using rs(1) by (simp add: query_lines_def)
qed

lemma demo_file:
  "\<exists>m' B. WriteIndex [] (cr_index demo_crawl) (cr_doctable demo_crawl) (Some (new_ofile [])) = Inr (of_nat (length B), m', Some B) \<and>
     crawl_file B demo_docs"
  using WriteIndex_crawl [OF demo_crawl_rep demo_fit demo_room never_fails_Nil] by blast

section \<open>Building the index\<close>

lemma buildfileindex_ok:
  assumes c: "CrawlFileTree fuel m sys root = Inr (m1, Some c)" "never_fails m1"
    and rep: "crawl_rep c docs" "docs_fit docs" "index_room c"
  shows "\<exists>B. buildfileindex_main fuel m sys [prog, root, name] (Some (new_ofile [])) = Inr (0, Some B) \<and> crawl_file B docs"
proof -
  obtain m2 B where B: "WriteIndex m1 (cr_index c) (cr_doctable c) (Some (new_ofile [])) = Inr (of_nat (length B), m2, Some B)"
    "length B = 16 + doc_size (cr_doctable c) + word_table_size (cr_index c)" "crawl_file B docs"
    using WriteIndex_crawl [OF rep c(2)] by blast
  have "0 < length B" "length B < 2 ^ 32" using B(2) rep(3) by (simp_all add: index_room_def)
  then have "(of_nat (length B) :: HWSize_t) \<noteq> 0" by (simp add: word32_eq_0_iff unat_of_nat32)
  moreover obtain s r where "FreeMemIndex (cr_index c) = Inr s" "FreeDocTable (cr_doctable c) = Inr r"
    using rep(1) FreeMemIndex_ok FreeDocTable_ok unfolding crawl_rep_def by metis
  ultimately show ?thesis using c(1) B(1,3) by (simp add: buildfileindex_main_def)
qed

section \<open>Properties\<close>

text \<open>
  Property C2: an index that was crawled from some documents, written to a file and searched with the
  file search shell: the shell accepts the file and prints for every line of words exactly the
  documents in which all the words occur, each once, with the number of occurrences, in
  descending order of it; nothing for a blank line.  The paths and words must fit their
  16-bit length fields, the file must be smaller than 4 GiB, and no word of a query may have the
  hash of another word of the documents.
\<close>

theorem index_file_answers:
  assumes "crawl_rep c docs" "docs_fit docs" "index_room c" "never_fails m" "sorts srt"
    and "\<forall>q \<in> set queries. \<forall>w \<in> set q. typed_word w \<and> no_collision docs (map tolower w)"
  shows "\<exists>m' B. WriteIndex m (cr_index c) (cr_doctable c) (Some (new_ofile [])) = Inr (of_nat (length B), m', Some B) \<and>
     (\<forall>fs. fs name = Some B \<longrightarrow>
       (\<exists>out. filesearchshell_main srt fs [prog, name] (concat (map query_line queries)) = Inr out \<and>
         file_answers [docs] queries out))"
proof -
  obtain m' B where B: "WriteIndex m (cr_index c) (cr_doctable c) (Some (new_ofile [])) = Inr (of_nat (length B), m', Some B)"
    "crawl_file B docs" using WriteIndex_crawl [OF assms(1-4)] by blast
  have "\<exists>out. filesearchshell_main srt fs [prog, name] (concat (map query_line queries)) = Inr out \<and>
      file_answers [docs] queries out" if "fs name = Some B" for fs
    by (rule filesearchshell_ok) (use that B(2) assms(5,6) in auto)
  then show ?thesis using B(1) by blast
qed

lemma index_file_answers_witness:
  "\<exists>m' B. WriteIndex [] (cr_index demo_crawl) (cr_doctable demo_crawl) (Some (new_ofile [])) = Inr (of_nat (length B), m', Some B) \<and>
     filesearchshell_main rank_sort [''i'' \<mapsto> B] [''s'', ''i''] (''Two'' @ [CHR 0x0A]) =
       Inr [Prompt, Query_Hit ''a'' 2, Prompt]"
proof -
  have q: "\<forall>q \<in> set [[''Two'']]. \<forall>w \<in> set q. typed_word w \<and> no_collision demo_docs (map tolower w)"
    using demo_query by simp
  obtain m' B where B: "WriteIndex [] (cr_index demo_crawl) (cr_doctable demo_crawl) (Some (new_ofile [])) = Inr (of_nat (length B), m', Some B)"
    "\<forall>fs. fs ''i'' = Some B \<longrightarrow> (\<exists>out. filesearchshell_main rank_sort fs [''s'', ''i''] (''Two'' @ [CHR 0x0A]) = Inr out \<and>
      file_answers [demo_docs] [[''Two'']] out)"
    using index_file_answers [OF demo_crawl_rep demo_fit demo_room never_fails_Nil rank_sort q, of "''i''" "''s''", unfolded demo_line]
    by blast
  then obtain out where "filesearchshell_main rank_sort [''i'' \<mapsto> B] [''s'', ''i''] (''Two'' @ [CHR 0x0A]) = Inr out"
    "file_answers [demo_docs] [[''Two'']] out" by (metis fun_upd_same)
  moreover have "out = [Prompt, Query_Hit ''a'' 2, Prompt]" using demo_answer [of 1 out] calculation(2) by simp
  ultimately show ?thesis using B(1) by blast
qed

text \<open>
  Property C10: the program that builds an index file: when the crawl of the directory has
  succeeded, its paths and words fit their length fields and the file stays below 4 GiB,
  it exits with status 0, having freed both structures, and leaves a file that holds the index of exactly
  the crawled documents.
\<close>

theorem buildfileindex_writes:
  assumes "CrawlFileTree fuel m sys root = Inr (m1, Some c)" "never_fails m1"
    and "crawl_rep c docs" "docs_fit docs" "index_room c"
  shows "\<exists>B. buildfileindex_main fuel m sys [prog, root, name] (Some (new_ofile [])) = Inr (0, Some B) \<and> crawl_file B docs"
  using buildfileindex_ok [OF assms] .

lemma buildfileindex_writes_witness:
  "\<exists>B. buildfileindex_main 1 [] (os_of [] [(''d'', [])]) [''b'', ''d'', ''i''] (Some (new_ofile [])) = Inr (0, Some B) \<and>
     crawl_file B []"
proof -
  obtain m1 dt where 1: "AllocateDocTable [] = Inr (dt, m1)" "never_fails m1" "dt_rep dt []" "doc_size dt = 4 + 8 * 1024"
    using AllocateDocTable_new [OF never_fails_Nil] by blast
  obtain I m2 where 2: "AllocateMemIndex m1 = Inr (I, m2)" "never_fails m2" "mi_inv I" "mi_bound I 0 0"
    "hits I = (\<lambda>k d. None)" "word_table_size I = 4 + 8 * 128" using AllocateMemIndex_new [OF 1(2)] by blast
  let ?c = "\<lparr>cr_doctable = dt, cr_index = I\<rparr>"
  have c: "CrawlFileTree 1 [] (os_of [] [(''d'', [])]) ''d'' = Inr (m2, Some ?c)"
    using 1(1) 2(1) by (simp add: CrawlFileTree_def os_of_def)
  have "index_words I = {}" by (rule no_hits_no_words [OF 2(3,5)])
  then have "crawl_rep ?c []" using 1 2 by (simp add: crawl_rep_def doc_hits_Nil)
  moreover have "index_room ?c" using 1(4) 2(6) by (simp add: index_room_def)
  ultimately show ?thesis using buildfileindex_writes [OF c 2(2), of "[]"] by (simp add: docs_fit_def)
qed

text \<open>
  Property C7: the file search shell over any number of index files, each holding the index of
  some documents: it accepts them all, and answers every line of words with the right documents
  of every file, in descending order of the number of occurrences over all files.
\<close>

theorem filesearchshell_answers:
  assumes "list_all2 (\<lambda>name docs. \<exists>B. fs name = Some B \<and> crawl_file B docs) names dss" "names \<noteq> []" "sorts srt"
    and "\<forall>q \<in> set queries. \<forall>w \<in> set q. typed_word w \<and> (\<forall>docs \<in> set dss. no_collision docs (map tolower w))"
  shows "\<exists>out. filesearchshell_main srt fs (prog # names) (concat (map query_line queries)) = Inr out \<and>
     file_answers dss queries out"
  using filesearchshell_ok [OF assms] .

lemma filesearchshell_answers_witness:
  "\<exists>B. filesearchshell_main rank_sort [''i'' \<mapsto> B, ''j'' \<mapsto> B] [''s'', ''i'', ''j''] (''Two'' @ [CHR 0x0A]) =
     Inr [Prompt, Query_Hit ''a'' 2, Query_Hit ''a'' 2, Prompt]"
proof -
  obtain B where B: "crawl_file B demo_docs" using demo_file by blast
  have files: "list_all2 (\<lambda>name docs. \<exists>B'. [''i'' \<mapsto> B, ''j'' \<mapsto> B] name = Some B' \<and> crawl_file B' docs)
      [''i'', ''j''] [demo_docs, demo_docs]" using B by simp
  have q: "\<forall>q \<in> set [[''Two'']]. \<forall>w \<in> set q. typed_word w \<and> (\<forall>docs \<in> set [demo_docs, demo_docs]. no_collision docs (map tolower w))"
    using demo_query by simp
  obtain out where out: "filesearchshell_main rank_sort [''i'' \<mapsto> B, ''j'' \<mapsto> B] [''s'', ''i'', ''j''] (''Two'' @ [CHR 0x0A]) = Inr out"
    "file_answers [demo_docs, demo_docs] [[''Two'']] out"
    using filesearchshell_answers [OF files _ rank_sort q, of "''s''", unfolded demo_line] by blast
  moreover have "out = [Prompt, Query_Hit ''a'' 2, Query_Hit ''a'' 2, Prompt]"
    using demo_answer [of 2 out] out(2) by (simp add: numeral_2_eq_2)
  ultimately show ?thesis by blast
qed

end
