(* ===== verification/IndexFileProperties.thy ===== *)
theory IndexFileProperties
  imports BuildFileIndexSpec
begin

text \<open>
  Properties of index files: the checksum, what the readers accept and find, and what the writer
  does when a write fails or a string does not fit its length field.
\<close>

section \<open>Validation\<close>

text \<open>
  Property C26: the table-driven checksum is the standard CRC-32: folding any bytes into a new
  checksum object one at a time, through the table of 256 entries, gives the result of the
  bitwise division.
\<close>

theorem checksum_is_crc32:
  "\<exists>c. fold_bytes new_crc32 bs = Inr c \<and> fst (GetFinalCRC c) = crc_bytes bs"
  by (rule checksum_of_bytes)

text \<open>
  Property C24: opening an index file with validation on: a file below 4 GiB is accepted, with
  the header it holds, exactly if it has a header with the magic number, the sizes in the header
  add up to its length and the checksum of everything behind the header is the stored one;
  any other file, however short, ends in a failed check, never outside the file or in a loop.
\<close>

theorem only_valid_files_open:
  assumes "length B < 2 ^ 32"
  shows "FileIndexReader B True = (if file_valid B then Inr (read_header (take 16 B)) else Inl Verify333_Failed)"
  using FileIndexReader_True [OF assms] .

lemma only_valid_files_open_witness:
  "FileIndexReader (header_disk \<lparr>magic_number = MAGIC_NUMBER, checksum = 0, doctable_size = 0, index_size = 0\<rparr>) True =
     Inr \<lparr>magic_number = MAGIC_NUMBER, checksum = 0, doctable_size = 0, index_size = 0\<rparr> \<and>
   FileIndexReader (header_disk \<lparr>magic_number = MAGIC_NUMBER, checksum = 1, doctable_size = 0, index_size = 0\<rparr>) True =
     Inl Verify333_Failed"
proof -
  let ?B = "\<lambda>c. header_disk \<lparr>magic_number = MAGIC_NUMBER, checksum = c, doctable_size = 0, index_size = 0\<rparr>"
  have len: "length (?B 0) < 2 ^ 32" "length (?B 1) < 2 ^ 32" by simp_all
  have "file_valid (?B 0)" "\<not> file_valid (?B 1)"
    "read_header (take 16 (?B 0)) = \<lparr>magic_number = MAGIC_NUMBER, checksum = 0, doctable_size = 0, index_size = 0\<rparr>"
    by code_simp+
  then show ?thesis using only_valid_files_open [OF len(1)] only_valid_files_open [OF len(2)] by simp
qed

text \<open>
  Property C25: no change of a single byte behind the header goes unnoticed: an index file that
  is accepted is rejected once any one byte of its tables has another value.
\<close>

theorem corrupted_byte_is_noticed:
  assumes "length B < 2 ^ 32" "FileIndexReader B True = Inr h" "16 \<le> i" "i < length B" "b \<noteq> B ! i"
  shows "FileIndexReader (B[i := b]) True = Inl Verify333_Failed"
  using corrupted_file_rejected [OF assms] .

lemma corrupted_byte_is_noticed_witness:
  "\<exists>B h. crawl_file B demo_docs \<and> FileIndexReader B True = Inr h \<and>
     FileIndexReader (B[20 := B ! 20 + 1]) True = Inl Verify333_Failed"
proof -
  obtain B where B: "crawl_file B demo_docs" using demo_file by blast
  then obtain c where c: "crawl_rep c demo_docs" "written_file B (cr_index c) (cr_doctable c)" by (auto simp: crawl_file_def)
  obtain h where h: "FileIndexReader B True = Inr h"
    using written_file_readers [OF c(2) crawl_fits [OF c(1) demo_fit]] by blast
  have len: "length B < 2 ^ 32" "20 < length B"
    using c(2) by (simp_all add: written_file_def doc_size_def word_table_size_def table_size_def)
  have b: "B ! 20 + 1 \<noteq> B ! 20" by simp
  show ?thesis using B h corrupted_byte_is_noticed [OF len(1) h _ len(2) b] by auto
qed

section \<open>What is read is what was written\<close>

lemma word_set_good:
  assumes inv: "mi_inv I" and good: "\<forall>kv \<in> set (ht_entries (mi_table I)). word_good (mi_store I) kv"
    and w: "wds_of I k = Some wds"
  shows "\<forall>kv \<in> set (ht_entries (wds_docIDs wds)). posting_good kv"
proof -
  have o: "owns (mi_table I) (mi_store I)" using inv by (rule mi_inv_owns)
  obtain a where a: "ht_map (mi_table I) k = Some a" "st_cells (mi_store I) a = Some wds"
    using w by (auto simp: wds_of_def view_def split: option.splits)
  then have "as_kv k a \<in> set (ht_entries (mi_table I))"
    unfolding ht_map_def using kv_in_entries [OF ht_entries_distinct [OF owns_inv [OF o]]] by (simp add: as_kv_def)
  then have "word_good (mi_store I) (as_kv k a)" using good by blast
  then show ?thesis using a(2) by (simp add: word_good_def set_good_def as_kv_def)
qed

lemma word_postings:
  assumes rep: "crawl_rep c docs" and oi: "opens oi (cr_index c) (cr_doctable c)" and nc: "no_collision docs w"
  shows "\<exists>r. LookupWord (oi_bytes oi) (oi_words oi) w = Inr r \<and>
     (case r of None \<Rightarrow> \<forall>d. doc_hits docs (str_key w) d = None
      | Some ditr \<Rightarrow> \<forall>d. DocIDTable_LookupDocID (oi_bytes oi) ditr d = Inr (doc_hits docs (str_key w) d))"
proof -
  let ?I = "cr_index c"
  have h: "doc_hits docs = hits ?I" and inv: "mi_inv ?I" and ws: "index_words ?I \<subseteq> doc_words docs"
    using rep by (simp_all add: crawl_rep_def)
  have B: "length (oi_bytes oi) < 2 ^ 32" and
    good: "\<forall>kv \<in> set (ht_entries (mi_table ?I)). word_good (mi_store ?I) kv" and
    rt: "reads_table (word_at (mi_store ?I)) (word_size (mi_store ?I)) (oi_bytes oi) (mi_table ?I) (oi_words oi)"
    using oi by (simp_all add: opens_def written_file_def words_fit_def)
  obtain r where r: "LookupWord (oi_bytes oi) (oi_words oi) w = Inr r"
    "case r of None \<Rightarrow> \<forall>wds. wds_of ?I (str_key w) = Some wds \<longrightarrow> wds_word wds \<noteq> w
      | Some ditr \<Rightarrow> \<exists>wds. wds_of ?I (str_key w) = Some wds \<and> wds_word wds = w \<and>
          reads_table posting_at posting_size (oi_bytes oi) (wds_docIDs wds) ditr"
    using LookupWord_ok [OF rt inv good B, of w] by blast
  show ?thesis
  proof (cases r)
    case None
    have "wds_of ?I (str_key w) \<noteq> Some wds" for wds
    proof
      assume wds: "wds_of ?I (str_key w) = Some wds"
      then have "str_key (wds_word wds) = str_key w" "wds_word wds \<in> doc_words docs"
        using inv ws by (auto simp: mi_inv_def index_words_def)
      then have "wds_word wds = w" using nc by (simp add: no_collision_def)
      then show False using wds r(2) None by simp
    qed
    then have "wds_of ?I (str_key w) = None" by (cases "wds_of ?I (str_key w)") auto
    then show ?thesis using r(1) None by (simp add: h hits_def)
  next
    case (Some ditr)
    then obtain wds where wds: "wds_of ?I (str_key w) = Some wds"
      "reads_table posting_at posting_size (oi_bytes oi) (wds_docIDs wds) ditr" using r(2) by auto
    have "\<forall>kv \<in> set (ht_entries (wds_docIDs wds)). posting_good kv"
      by (rule word_set_good [OF inv good wds(1)])
    then show ?thesis using r(1) Some wds(1) DocIDTable_LookupDocID_ok [OF wds(2)] by (simp add: h hits_def)
  qed
qed

text \<open>
  Property C4: reading back: from the file that was written from a crawl the readers get, for every
  document id, the path with that id, and for every word without a collision the
  documents it occurs in with all its positions, in order.
\<close>

theorem index_file_round_trip:
  assumes "crawl_rep c docs" "docs_fit docs" "index_room c" "never_fails m"
  shows "\<exists>m' B h dtr itr.
     WriteIndex m (cr_index c) (cr_doctable c) (Some (new_ofile [])) = Inr (of_nat (length B), m', Some B) \<and>
     FileIndexReader B True = Inr h \<and> GetDocTableReader B h = Inr dtr \<and> GetIndexTableReader B h = Inr itr \<and>
     (\<forall>d. DocTable_LookupDocID B dtr d =
        Inr (if 0 < unat d \<and> unat d \<le> length docs then Some (fst (docs ! (unat d - 1))) else None)) \<and>
     (\<forall>w. no_collision docs w \<longrightarrow>
        (\<exists>r. LookupWord B itr w = Inr r \<and>
          (case r of None \<Rightarrow> \<forall>d. doc_hits docs (str_key w) d = None
           | Some ditr \<Rightarrow> \<forall>d. DocIDTable_LookupDocID B ditr d = Inr (doc_hits docs (str_key w) d))))"
proof -
  let ?dt = "cr_doctable c" and ?I = "cr_index c"
  obtain m' B where B: "WriteIndex m ?I ?dt (Some (new_ofile [])) = Inr (of_nat (length B), m', Some B)"
    "written_file B ?I ?dt"
    using WriteIndex_written [OF assms] by blast
  note fit = crawl_fits [OF assms(1,2)]
  obtain h dtr itr where r: "FileIndexReader B True = Inr h" "GetDocTableReader B h = Inr dtr" "GetIndexTableReader B h = Inr itr"
    "reads_table name_at name_size B (DTGetDocidTable ?dt) dtr"
    "reads_table (word_at (mi_store ?I)) (word_size (mi_store ?I)) B (mi_table ?I) itr"
    using written_file_readers [OF B(2) fit] by blast
  have oi: "opens \<lparr>oi_bytes = B, oi_docs = dtr, oi_words = itr\<rparr> ?I ?dt"
    using B(2) fit r(4,5) assms(1) by (simp add: opens_def crawl_rep_def)
  have names: "DocTable_LookupDocID B dtr d =
      Inr (if 0 < unat d \<and> unat d \<le> length docs then Some (fst (docs ! (unat d - 1))) else None)" for d
  proof -
    have "DocTable_LookupDocID B dtr d = Inr (ht_map (DTGetDocidTable ?dt) d)"
      by (rule DocTable_LookupDocID_ok [OF r(4)]) (use fit(1) in \<open>simp add: names_fit_def\<close>)
    moreover have "dt_rep ?dt (map fst docs)" using assms(1) by (simp add: crawl_rep_def)
    ultimately show ?thesis by (auto simp: dt_rep_def DTGetDocidTable_def)
  qed
  have words: "\<exists>r. LookupWord B itr w = Inr r \<and>
      (case r of None \<Rightarrow> \<forall>d. doc_hits docs (str_key w) d = None
       | Some ditr \<Rightarrow> \<forall>d. DocIDTable_LookupDocID B ditr d = Inr (doc_hits docs (str_key w) d))"
    if "no_collision docs w" for w
    using word_postings [OF assms(1) oi that] by (simp only: open_index.simps)
  show ?thesis using B(1) r(1-3) names words by blast
qed

lemma index_file_round_trip_witness:
  "\<exists>m' B h dtr itr ditr.
     WriteIndex [] (cr_index demo_crawl) (cr_doctable demo_crawl) (Some (new_ofile [])) = Inr (of_nat (length B), m', Some B) \<and>
     FileIndexReader B True = Inr h \<and> GetDocTableReader B h = Inr dtr \<and> GetIndexTableReader B h = Inr itr \<and>
     DocTable_LookupDocID B dtr 1 = Inr (Some ''a'') \<and> DocTable_LookupDocID B dtr 2 = Inr None \<and>
     LookupWord B itr ''two'' = Inr (Some ditr) \<and> DocIDTable_LookupDocID B ditr 1 = Inr (Some [0, 4])"
proof -
  have nc: "no_collision demo_docs ''two''" by (simp add: no_collision_def doc_words_def demo_docs_def)
  have h: "doc_hits demo_docs (str_key ''two'') 1 = Some [0, 4]" by code_simp
  obtain m' B h dtr itr r where r:
    "WriteIndex [] (cr_index demo_crawl) (cr_doctable demo_crawl) (Some (new_ofile [])) = Inr (of_nat (length B), m', Some B)"
    "FileIndexReader B True = Inr h" "GetDocTableReader B h = Inr dtr" "GetIndexTableReader B h = Inr itr"
    "\<forall>d. DocTable_LookupDocID B dtr d =
        Inr (if 0 < unat d \<and> unat d \<le> length demo_docs then Some (fst (demo_docs ! (unat d - 1))) else None)"
    "LookupWord B itr ''two'' = Inr r"
    "case r of None \<Rightarrow> \<forall>d. doc_hits demo_docs (str_key ''two'') d = None
       | Some ditr \<Rightarrow> \<forall>d. DocIDTable_LookupDocID B ditr d = Inr (doc_hits demo_docs (str_key ''two'') d)"
    using index_file_round_trip [OF demo_crawl_rep demo_fit demo_room never_fails_Nil] nc by blast
  obtain ditr where "r = Some ditr" "DocIDTable_LookupDocID B ditr 1 = Inr (Some [0, 4])"
    using r(7) h by (cases r) (auto dest: spec [of _ 1])
  moreover have "DocTable_LookupDocID B dtr 1 = Inr (Some ''a'')" "DocTable_LookupDocID B dtr 2 = Inr None"
    using r(5) by (simp_all add: demo_docs_def)
  ultimately show ?thesis using r(1-4,6) by blast
qed

section \<open>Failures of the writer\<close>

text \<open>
  Property C35: a failed write of the word index is reported as success: the code tests the
  result of the document table a second time.  When \<open>WriteMemIndex\<close> returns 0 and
  the header can be written, \<open>WriteIndex\<close> keeps the file and returns a size that is not 0.
\<close>

theorem failed_index_write_is_success:
  assumes "WriteDocTable m f dt 16 = Inr (dtres, m1, f1)" "dtres \<noteq> 0"
    and "WriteMemIndex m1 f1 mi (16 + dtres) = Inr (0, m2, f2)" "WriteHeader f2 dtres 0 = Inr (16, f3)"
  shows "WriteIndex m mi dt (Some f) = Inr (dtres + 16, m2, Some (of_bytes f3))"
  using assms by (simp add: WriteIndex_def)

lemma failed_index_write_is_success_witness:
  "\<exists>B. WriteIndex [] (cr_index demo_crawl) \<lparr>docid_to_docname = new_table 1, docname_to_docid = new_table 1, max_id = 0\<rparr>
     (Some (new_ofile [None, None, None, None, Some 0])) = Inr (28, [], Some B) \<and> length B = 28"
proof -
  let ?dt = "\<lparr>docid_to_docname = new_table 1, docname_to_docid = new_table 1, max_id = 0\<rparr> :: doc_table"
  let ?f = "new_ofile [None, None, None, None, Some 0]"
  let ?bs = "[0, 0, 0, 0, 0, 0, 0, 0, 0, 0, 0, 0, 0, 0, 0, 0, 0, 0, 0, 1, 0, 0, 0, 0, 0, 0, 0, 28] :: byte list"
  let ?f1 = "\<lparr>of_bytes = ?bs, of_pos = 28, of_plan = [Some 0]\<rparr>"
  let ?f2 = "?f1\<lparr>of_plan := []\<rparr>"
  have 1: "WriteDocTable [] ?f ?dt 16 = Inr (12, [], ?f1)" by code_simp
  have 2: "WriteMemIndex [] ?f1 (cr_index demo_crawl) (16 + 12) = Inr (0, [], ?f2)"
    by (simp add: WriteMemIndex_def WriteHashTable_def fseek_def next_outcome_def)
  obtain f3 where 3: "WriteHeader ?f2 12 0 = Inr (16, f3)" "length (of_bytes f3) = 28"
    using WriteHeader_ok [of ?f2 12 0] that by (auto simp: write_at_def)
  show ?thesis using failed_index_write_is_success [OF 1 _ 2 3(1)] 3(2) by simp
qed

text \<open>
  Words and paths are written with a 16-bit length: a word whose length is a
  multiple of 65,536 stops the writer in a failed check.
\<close>

theorem word_length_wraps:
  assumes "st_cells s (kv_value kv) = Some wds" "length (wds_word wds) mod 65536 = 0"
  shows "WriteWordDocSetFn s m f offset kv = Inl Verify333_Failed"
proof -
  have "(of_nat (length (wds_word wds)) :: 16 word) = 0"
    using assms(2) by (simp add: word_of_nat_eq_0_iff mod_eq_0_iff_dvd)
  then show ?thesis using assms(1) by (simp add: WriteWordDocSetFn_def st_read_def Verify333_def)
qed

lemma word_length_wraps_witness:
  "\<forall>m f. WriteWordDocSetFn (snd (st_alloc empty_store \<lparr>wds_word = replicate 65536 CHR ''a'', wds_docIDs = new_table 1\<rparr>))
     m f 100 \<lparr>kv_key = 7, kv_value = 0\<rparr> = Inl Verify333_Failed"
  by (intro allI word_length_wraps) (auto simp: st_alloc_def empty_store_def)

section \<open>The last line\<close>

lemma getline_append:
  assumes "getline inp = Some (line, tail)"
  shows "getline (inp @ rest) = Some (line, tail @ rest)" "last inp = CHR 0x0A \<Longrightarrow> tail = [] \<or> last tail = CHR 0x0A"
proof -
  have nl: "CHR 0x0A \<in> set inp" and l: "line = takeWhile (\<lambda>c. c \<noteq> CHR 0x0A) inp"
    and t: "tail = tl (dropWhile (\<lambda>c. c \<noteq> CHR 0x0A) inp)"
    using assms by (auto simp: getline_def split: if_splits)
  have d: "dropWhile (\<lambda>c. c \<noteq> CHR 0x0A) inp \<noteq> []" using nl by (auto simp: dropWhile_eq_Nil_conv)
  have "dropWhile (\<lambda>c. c \<noteq> CHR 0x0A) (inp @ rest) = dropWhile (\<lambda>c. c \<noteq> CHR 0x0A) inp @ rest"
    by (rule dropWhile_append1 [OF nl]) simp
  moreover have "takeWhile (\<lambda>c. c \<noteq> CHR 0x0A) (inp @ rest) = takeWhile (\<lambda>c. c \<noteq> CHR 0x0A) inp"
    by (rule takeWhile_append1 [OF nl]) simp
  ultimately show "getline (inp @ rest) = Some (line, tail @ rest)" using nl d l t by (simp add: getline_def)
  show "tail = [] \<or> last tail = CHR 0x0A" if "last inp = CHR 0x0A"
  proof -
    have "last (dropWhile (\<lambda>c. c \<noteq> CHR 0x0A) inp) = last inp"
      using takeWhile_dropWhile_id [of "\<lambda>c. c \<noteq> CHR 0x0A" inp] last_appendR [OF d] by metis
    then show ?thesis using t d that by (cases "dropWhile (\<lambda>c. c \<noteq> CHR 0x0A) inp") (auto split: if_splits)
  qed
qed

text \<open>
  What the user types behind the last newline is never answered: the shell stops at
  the end of the input even when it has just read a query.
\<close>

theorem unterminated_query_is_dropped:
  assumes "inp = [] \<or> last inp = CHR 0x0A" "CHR 0x0A \<notin> set rest"
  shows "search_loop srt ois (inp @ rest) = search_loop srt ois inp"
  using assms(1)
proof (induction "length inp" arbitrary: inp rule: less_induct)
  case less
  show ?case
  proof (cases "getline inp")
    case None
    then have "CHR 0x0A \<notin> set inp" by (simp add: getline_def split: if_splits)
    then have "inp = []" using less.prems last_in_set [of inp] by metis
    then show ?thesis using assms(2) by (simp add: search_loop.simps [of srt ois rest] search_loop.simps [of srt ois "[]"] getline_def)
  next
    case (Some p)
    then obtain line tail where p: "getline inp = Some (line, tail)" by (cases p) auto
    note q = getline_append(1) [OF p, of rest] getline_append(2) [OF p]
    have "search_loop srt ois (tail @ rest) = search_loop srt ois tail"
      by (rule less.hyps) (use getline_shorter [OF p] q(2) less.prems in auto)
    then show ?thesis unfolding search_loop.simps [of srt ois "inp @ rest"] search_loop.simps [of srt ois inp] p q(1)
      by simp
  qed
qed

lemma unterminated_query_is_dropped_witness:
  "\<forall>srt. search_loop srt [] (''two'' @ [CHR 0x0A] @ ''one'') = search_loop srt [] (''two'' @ [CHR 0x0A])"
  by (intro allI unterminated_query_is_dropped [of "''two'' @ [CHR 0x0A]", unfolded append_assoc]) simp_all

end
