(* ===== verification/ReaderHandles.thy ===== *)
theory ReaderHandles
  imports FileSearch
begin

text \<open>
  The file handles of the readers of src/hw3: \<open>FileDup\<close> (fileindexutil.cc), the copy constructor, assignment and
  destructor of \<open>HashTableReader\<close>, and how FileIndexReader.cc, IndexTableReader.cc and QueryProcessor.cc open,
  duplicate and close handles.

  What is read through a handle is the model of \<open>IndexReaders\<close> and \<open>FileSearch\<close> on the bytes of its file;
  here the open handles are the state.  The temporary reader that is returned and stored with \<open>new\<close> is elided,
  as C++17 demands.
\<close>

section \<open>Handles\<close>

text \<open>
  The open handles with the bytes of their files, the next handle, which no open one equals, and the limit of
  the process on open descriptors.
\<close>

record handles =
  hs_open :: "(nat \<times> byte list) list"
  hs_next :: nat
  hs_limit :: nat

definition add_handle :: "handles \<Rightarrow> byte list \<Rightarrow> nat \<times> handles" where
  "add_handle h B = (hs_next h, h\<lparr>hs_open := (hs_next h, B) # hs_open h, hs_next := Suc (hs_next h)\<rparr>)"

definition fopen :: "(string \<Rightarrow> byte list option) \<Rightarrow> handles \<Rightarrow> string \<Rightarrow> nat option \<times> handles" where
  "fopen fs h name =
     (case fs name of
        None \<Rightarrow> (None, h)
      | Some B \<Rightarrow>
          if length (hs_open h) < hs_limit h then (let (f, h) = add_handle h B in (Some f, h)) else (None, h))"

definition fclose :: "handles \<Rightarrow> nat \<Rightarrow> handles res" where
  "fclose h f =
     (case map_of (hs_open h) f of
        None \<Rightarrow> Inl Undefined_Behaviour
      | Some B \<Rightarrow> Inr (h\<lparr>hs_open := filter (\<lambda>x. fst x \<noteq> f) (hs_open h)\<rparr>))"

text \<open>The bytes behind a handle.\<close>

definition file_of :: "handles \<Rightarrow> nat \<Rightarrow> byte list res" where
  "file_of h f = (case map_of (hs_open h) f of None \<Rightarrow> Inl Undefined_Behaviour | Some B \<Rightarrow> Inr B)"

definition FileDup :: "handles \<Rightarrow> nat \<Rightarrow> (nat \<times> handles) res" where
  "FileDup h f =
     bindE (file_of h f) (\<lambda>B.
     bindE (Verify333 (length (hs_open h) < hs_limit h)) (\<lambda>_. Inr (add_handle h B)))"

section \<open>Readers\<close>

record reader =
  rd_file :: nat
  rd_table :: table_reader

definition new_reader :: "handles \<Rightarrow> nat \<Rightarrow> IndexFileOffset_t \<Rightarrow> reader res" where
  "new_reader h f offset =
     bindE (file_of h f) (\<lambda>B. bindE (HashTableReader B offset) (\<lambda>t. Inr \<lparr>rd_file = f, rd_table = t\<rparr>))"

definition delete_reader :: "handles \<Rightarrow> reader \<Rightarrow> handles res" where
  "delete_reader h r = fclose h (rd_file r)"

definition copy_reader :: "handles \<Rightarrow> reader \<Rightarrow> (reader \<times> handles) res" where
  "copy_reader h rhs = bindE (FileDup h (rd_file rhs)) (\<lambda>(f, h). Inr (\<lparr>rd_file = f, rd_table = rd_table rhs\<rparr>, h))"

text \<open>\<open>self\<close>: the two sides are the same object.\<close>

definition assign_reader :: "bool \<Rightarrow> handles \<Rightarrow> reader \<Rightarrow> reader \<Rightarrow> (reader \<times> handles) res" where
  "assign_reader self h this rhs =
     (if self then Inr (this, h)
      else
        bindE (fclose h (rd_file this)) (\<lambda>h.
        bindE (FileDup h (rd_file rhs)) (\<lambda>(f, h). Inr (\<lparr>rd_file = f, rd_table = rd_table rhs\<rparr>, h))))"

definition lookup_word_reader :: "handles \<Rightarrow> reader \<Rightarrow> string \<Rightarrow> (reader option \<times> handles) res" where
  "lookup_word_reader h r word =
     bindE (file_of h (rd_file r)) (\<lambda>B.
     bindE (LookupWord B (rd_table r) word) (\<lambda>ditr.
     case ditr of
       None \<Rightarrow> Inr (None, h)
     | Some t \<Rightarrow> bindE (FileDup h (rd_file r)) (\<lambda>(f, h). Inr (Some \<lparr>rd_file = f, rd_table = t\<rparr>, h))))"

definition docid_list_reader :: "handles \<Rightarrow> reader \<Rightarrow> docid_element list res" where
  "docid_list_reader h r = bindE (file_of h (rd_file r)) (\<lambda>B. GetDocIDList B (rd_table r))"

section \<open>Index files\<close>

record index_reader =
  ir_file :: nat
  ir_header :: index_file_header

definition new_index_reader ::
  "(string \<Rightarrow> byte list option) \<Rightarrow> handles \<Rightarrow> string \<Rightarrow> bool \<Rightarrow> (index_reader \<times> handles) res" where
  "new_index_reader fs h filename validate =
     (case fopen fs h filename of
        (None, h) \<Rightarrow> Inl Verify333_Failed
      | (Some f, h) \<Rightarrow>
          bindE (file_of h f) (\<lambda>B.
          bindE (FileIndexReader B validate) (\<lambda>header. Inr (\<lparr>ir_file = f, ir_header = header\<rparr>, h))))"

definition doc_table_reader :: "handles \<Rightarrow> index_reader \<Rightarrow> (reader \<times> handles) res" where
  "doc_table_reader h fir =
     bindE (FileDup h (ir_file fir)) (\<lambda>(f, h). bindE (new_reader h f 16) (\<lambda>r. Inr (r, h)))"

definition index_table_reader :: "handles \<Rightarrow> index_reader \<Rightarrow> (reader \<times> handles) res" where
  "index_table_reader h fir =
     bindE (FileDup h (ir_file fir)) (\<lambda>(f, h).
     bindE (new_reader h f (16 + doctable_size (ir_header fir))) (\<lambda>r. Inr (r, h)))"

section \<open>The query processor\<close>

text \<open>The loop of the constructor; the index reader of a round is destroyed at its end.\<close>

fun new_readers ::
  "(string \<Rightarrow> byte list option) \<Rightarrow> handles \<Rightarrow> bool \<Rightarrow> string list \<Rightarrow> ((reader \<times> reader) list \<times> handles) res" where
  "new_readers fs h validate [] = Inr ([], h)"
| "new_readers fs h validate (name # names) =
     bindE (new_index_reader fs h name validate) (\<lambda>(fir, h).
     bindE (doc_table_reader h fir) (\<lambda>(dtr, h).
     bindE (index_table_reader h fir) (\<lambda>(itr, h).
     bindE (fclose h (ir_file fir)) (\<lambda>h.
     bindE (new_readers fs h validate names) (\<lambda>(rs, h). Inr ((dtr, itr) # rs, h))))))"

definition new_query_processor ::
  "(string \<Rightarrow> byte list option) \<Rightarrow> handles \<Rightarrow> string list \<Rightarrow> bool \<Rightarrow> ((reader \<times> reader) list \<times> handles) res" where
  "new_query_processor fs h indexlist validate =
     bindE (Verify333 (indexlist \<noteq> [])) (\<lambda>_. new_readers fs h validate indexlist)"

fun delete_query_processor :: "handles \<Rightarrow> (reader \<times> reader) list \<Rightarrow> handles res" where
  "delete_query_processor h [] = Inr h"
| "delete_query_processor h ((dtr, itr) # rs) =
     bindE (delete_reader h dtr) (\<lambda>h. bindE (delete_reader h itr) (\<lambda>h. delete_query_processor h rs))"

definition add_results :: "handles \<Rightarrow> reader \<Rightarrow> docid_element list \<Rightarrow> query_result list res" where
  "add_results h dtr docs = bindE (file_of h (rd_file dtr)) (\<lambda>B. AddQueryResult B (rd_table dtr) docs)"

fun further_words_handles ::
  "handles \<Rightarrow> reader \<Rightarrow> string list \<Rightarrow> docid_element list \<Rightarrow> (docid_element list \<times> handles) res" where
  "further_words_handles h itr [] final_docid_list = Inr (final_docid_list, h)"
| "further_words_handles h itr (word # words) final_docid_list =
     bindE (lookup_word_reader h itr word) (\<lambda>(ditr, h).
     case ditr of
       None \<Rightarrow> Inr ([], h)
     | Some ditr \<Rightarrow>
         bindE (docid_list_reader h ditr) (\<lambda>cur_word_docid_list.
         bindE (delete_reader h ditr) (\<lambda>h.
         further_words_handles h itr words (CombineDocIDList final_docid_list cur_word_docid_list))))"

definition query_one_handles ::
  "handles \<Rightarrow> reader \<times> reader \<Rightarrow> string list \<Rightarrow> (query_result list \<times> handles) res" where
  "query_one_handles h rs query =
     (case query of
        [] \<Rightarrow> Inl Undefined_Behaviour
      | word # words \<Rightarrow>
          bindE (lookup_word_reader h (snd rs) word) (\<lambda>(ditr, h).
          case ditr of
            None \<Rightarrow> Inr ([], h)
          | Some ditr \<Rightarrow>
              bindE (docid_list_reader h ditr) (\<lambda>final_docid_list.
              bindE (delete_reader h ditr) (\<lambda>h.
              if words = [] then bindE (add_results h (fst rs) final_docid_list) (\<lambda>qs. Inr (qs, h))
              else
                bindE (further_words_handles h (snd rs) words final_docid_list) (\<lambda>(final_docid_list, h).
                if final_docid_list = [] then Inr ([], h)
                else bindE (add_results h (fst rs) final_docid_list) (\<lambda>qs. Inr (qs, h)))))))"

fun query_all_handles ::
  "handles \<Rightarrow> (reader \<times> reader) list \<Rightarrow> string list \<Rightarrow> (query_result list \<times> handles) res" where
  "query_all_handles h [] query = Inr ([], h)"
| "query_all_handles h (r # rs) query =
     bindE (query_one_handles h r query) (\<lambda>(qs, h).
     bindE (query_all_handles h rs query) (\<lambda>(qs', h). Inr (qs @ qs', h)))"

definition process_query_handles ::
  "(query_result list \<Rightarrow> query_result list) \<Rightarrow> handles \<Rightarrow> (reader \<times> reader) list \<Rightarrow> string list \<Rightarrow>
   (query_result list \<times> handles) res" where
  "process_query_handles srt h rs query =
     bindE (Verify333 (query \<noteq> [])) (\<lambda>_.
     bindE (query_all_handles h rs query) (\<lambda>(finalresult, h). Inr (srt finalresult, h)))"

end
