(* ===== verification/ReaderHandlesSpec.thy ===== *)
theory ReaderHandlesSpec
  imports ReaderHandles BuildFileIndexSpec
begin

text \<open>
  The readers with their handles do what the readers on bytes do, close every handle they open, and need
  a known number of descriptors.
\<close>

section \<open>Handles\<close>

definition handles_ok :: "handles \<Rightarrow> bool" where
  "handles_ok h \<longleftrightarrow> distinct (map fst (hs_open h)) \<and> (\<forall>f \<in> fst ` set (hs_open h). f < hs_next h)"

text \<open>The same handles are open, whatever was opened and closed in between.\<close>

definition same_open :: "handles \<Rightarrow> handles \<Rightarrow> bool" where
  "same_open h h' \<longleftrightarrow> hs_open h' = hs_open h \<and> hs_limit h' = hs_limit h \<and> hs_next h \<le> hs_next h'"

lemma same_open_refl [simp]: "same_open h h"
  by (simp add: same_open_def)

lemma same_open_trans: "same_open h h' \<Longrightarrow> same_open h' h'' \<Longrightarrow> same_open h h''"
  by (auto simp: same_open_def)

lemma same_open_ok: "handles_ok h \<Longrightarrow> same_open h h' \<Longrightarrow> handles_ok h'"
  by (fastforce simp: handles_ok_def same_open_def)

lemma file_of_same: "same_open h h' \<Longrightarrow> file_of h' f = file_of h f"
  by (simp add: file_of_def same_open_def)

definition opened :: "handles \<Rightarrow> byte list \<Rightarrow> handles" where
  "opened h B = snd (add_handle h B)"

lemma add_handle: "add_handle h B = (hs_next h, opened h B)"
  by (simp add: opened_def add_handle_def)

lemma opened_simps [simp]:
  "hs_open (opened h B) = (hs_next h, B) # hs_open h" "hs_limit (opened h B) = hs_limit h" "hs_next (opened h B) = Suc (hs_next h)"
  by (simp_all add: opened_def add_handle_def)

lemma opened_ok: "handles_ok h \<Longrightarrow> handles_ok (opened h B)"
  by (fastforce simp: handles_ok_def)

lemma file_of_opened [simp]: "file_of (opened h B) (hs_next h) = Inr B"
  by (simp add: file_of_def)

lemma file_of_open: "file_of h f = Inr B \<Longrightarrow> f \<in> fst ` set (hs_open h)"
  by (force simp: file_of_def dest: map_of_SomeD split: option.splits)

lemma file_of_older: "handles_ok h \<Longrightarrow> file_of h f = Inr B \<Longrightarrow> file_of (opened h C) f = Inr B"
  using file_of_open [of h f B] by (fastforce simp: handles_ok_def file_of_def)

lemma fclose_open:
  "f \<in> fst ` set (hs_open h) \<Longrightarrow> fclose h f = Inr (h\<lparr>hs_open := filter (\<lambda>x. fst x \<noteq> f) (hs_open h)\<rparr>)"
  by (auto simp: fclose_def map_of_eq_None_iff split: option.splits)

lemma filter_other: "f \<notin> fst ` set xs \<Longrightarrow> filter (\<lambda>x. fst x \<noteq> f) xs = xs"
  by (intro filter_True) force

lemma next_unused: "handles_ok h \<Longrightarrow> hs_next h \<notin> fst ` set (hs_open h)"
  by (auto simp: handles_ok_def)

lemma fclose_opened: "handles_ok h \<Longrightarrow> \<exists>h'. fclose (opened h B) (hs_next h) = Inr h' \<and> same_open h h'"
  using next_unused [of h] by (simp add: fclose_open filter_other same_open_def)

lemma FileDup_ok: "file_of h f = Inr B \<Longrightarrow> length (hs_open h) < hs_limit h \<Longrightarrow> FileDup h f = Inr (hs_next h, opened h B)"
  by (simp add: FileDup_def add_handle)

lemma FileDup_full: "file_of h f = Inr B \<Longrightarrow> hs_limit h \<le> length (hs_open h) \<Longrightarrow> FileDup h f = Inl Verify333_Failed"
  by (simp add: FileDup_def Verify333_def)

section \<open>Calls that leave the handles as they were\<close>

text \<open>The call does what the call without handles does, and the same handles are open after it.\<close>

definition leaves :: "handles \<Rightarrow> 'a res \<Rightarrow> ('a \<times> handles) res \<Rightarrow> bool" where
  "leaves h r c \<longleftrightarrow> (case r of Inl e \<Rightarrow> c = Inl e | Inr x \<Rightarrow> \<exists>h'. c = Inr (x, h') \<and> same_open h h')"

lemma leaves_return: "same_open h h' \<Longrightarrow> leaves h (Inr x) (Inr (x, h'))"
  by (simp add: leaves_def)

lemma leaves_bind:
  assumes "leaves h r c" "\<And>x h'. same_open h h' \<Longrightarrow> leaves h' (f x) (g (x, h'))"
  shows "leaves h (bindE r f) (bindE c g)"
proof (cases r)
  case (Inl e)
  then show ?thesis using assms(1) by (simp add: leaves_def)
next
  case (Inr x)
  then obtain h' where h': "c = Inr (x, h')" "same_open h h'" using assms(1) by (auto simp: leaves_def)
  show ?thesis using assms(2) [OF h'(2), of x] Inr h' by (auto simp: leaves_def split: sum.splits intro: same_open_trans)
qed

text \<open>Looking up a word, using the reader of its documents and deleting it.\<close>

definition word_docs :: "byte list \<Rightarrow> table_reader \<Rightarrow> string \<Rightarrow> docid_element list option res" where
  "word_docs B t word =
     bindE (LookupWord B t word) (\<lambda>ditr.
     case ditr of None \<Rightarrow> Inr None | Some ditr \<Rightarrow> bindE (GetDocIDList B ditr) (\<lambda>docs. Inr (Some docs)))"

definition word_docs_handles :: "handles \<Rightarrow> reader \<Rightarrow> string \<Rightarrow> (docid_element list option \<times> handles) res" where
  "word_docs_handles h itr word =
     bindE (lookup_word_reader h itr word) (\<lambda>(ditr, h).
     case ditr of
       None \<Rightarrow> Inr (None, h)
     | Some ditr \<Rightarrow> bindE (docid_list_reader h ditr) (\<lambda>docs. bindE (delete_reader h ditr) (\<lambda>h. Inr (Some docs, h))))"

definition room :: "handles \<Rightarrow> bool" where
  "room h \<longleftrightarrow> handles_ok h \<and> length (hs_open h) < hs_limit h"

lemma room_same: "room h \<Longrightarrow> same_open h h' \<Longrightarrow> room h'"
  using same_open_ok [of h h'] by (simp add: room_def same_open_def)

lemma word_docs_leaves:
  assumes "room h" "file_of h (rd_file itr) = Inr B"
  shows "leaves h (word_docs B (rd_table itr) word) (word_docs_handles h itr word)"
proof (cases "LookupWord B (rd_table itr) word")
  case (Inl e)
  then show ?thesis using assms(2) by (simp add: leaves_def word_docs_def word_docs_handles_def lookup_word_reader_def)
next
  case (Inr ditr)
  show ?thesis
  proof (cases ditr)
    case None
    then show ?thesis using Inr assms(2) by (simp add: leaves_def word_docs_def word_docs_handles_def lookup_word_reader_def)
  next
    case (Some t)
    have dup: "FileDup h (rd_file itr) = Inr (hs_next h, opened h B)" using assms by (simp add: FileDup_ok room_def)
    obtain h' where h': "fclose (opened h B) (hs_next h) = Inr h'" "same_open h h'" using fclose_opened assms(1) by (auto simp: room_def)
    show ?thesis using Inr Some dup h' assms(2)
      by (cases "GetDocIDList B t")
        (simp_all add: leaves_def word_docs_def word_docs_handles_def lookup_word_reader_def docid_list_reader_def delete_reader_def)
  qed
qed

lemma bindE_assoc: "bindE (bindE r f) g = bindE r (\<lambda>x. bindE (f x) g)"
  by (cases r) simp_all

lemma bindE_word_docs:
  "bindE (word_docs B t word) k =
     bindE (LookupWord B t word) (\<lambda>ditr.
     case ditr of None \<Rightarrow> k None | Some ditr \<Rightarrow> bindE (GetDocIDList B ditr) (\<lambda>docs. k (Some docs)))"
  unfolding word_docs_def bindE_assoc by (rule bindE_cong) (auto simp: bindE_assoc split: option.splits)

lemma bindE_word_docs_handles:
  "bindE (word_docs_handles h itr word) k =
     bindE (lookup_word_reader h itr word) (\<lambda>(ditr, h).
     case ditr of
       None \<Rightarrow> k (None, h)
     | Some ditr \<Rightarrow> bindE (docid_list_reader h ditr) (\<lambda>docs. bindE (delete_reader h ditr) (\<lambda>h. k (Some docs, h))))"
  unfolding word_docs_handles_def bindE_assoc by (rule bindE_cong) (auto simp: bindE_assoc split: option.splits)

lemma further_words_leaves:
  "room h \<Longrightarrow> file_of h (rd_file itr) = Inr B \<Longrightarrow>
   leaves h (further_words B (rd_table itr) words docs) (further_words_handles h itr words docs)"
proof (induction words arbitrary: h docs)
  case Nil
  then show ?case by (simp add: leaves_return)
next
  case (Cons word words)
  let ?f = "\<lambda>d. case d of None \<Rightarrow> Inr [] | Some cur \<Rightarrow> further_words B (rd_table itr) words (CombineDocIDList docs cur)"
  let ?g = "\<lambda>(d, h). case d of None \<Rightarrow> Inr ([], h) | Some cur \<Rightarrow> further_words_handles h itr words (CombineDocIDList docs cur)"
  have "further_words B (rd_table itr) (word # words) docs = bindE (word_docs B (rd_table itr) word) ?f"
    unfolding bindE_word_docs by (simp cong: option.case_cong)
  moreover have "further_words_handles h itr (word # words) docs = bindE (word_docs_handles h itr word) ?g"
    unfolding bindE_word_docs_handles by (simp cong: option.case_cong)
  moreover have "leaves h (bindE (word_docs B (rd_table itr) word) ?f) (bindE (word_docs_handles h itr word) ?g)"
    by (rule leaves_bind [OF word_docs_leaves])
      (use Cons room_same file_of_same in \<open>auto simp: leaves_return split: option.split\<close>)
  ultimately show ?case by simp
qed

section \<open>Queries\<close>

text \<open>The readers of the query processor belong to an open index.\<close>

definition reads_index :: "handles \<Rightarrow> reader \<times> reader \<Rightarrow> open_index \<Rightarrow> bool" where
  "reads_index h rs oi \<longleftrightarrow> file_of h (rd_file (fst rs)) = Inr (oi_bytes oi) \<and> rd_table (fst rs) = oi_docs oi \<and>
     file_of h (rd_file (snd rs)) = Inr (oi_bytes oi) \<and> rd_table (snd rs) = oi_words oi"

lemma reads_index_same: "same_open h h' \<Longrightarrow> reads_index h' rs oi = reads_index h rs oi"
  by (simp add: reads_index_def file_of_same)

lemma query_one_leaves:
  assumes room: "room h" and r: "reads_index h rs oi"
  shows "leaves h (query_one oi query) (query_one_handles h rs query)"
proof (cases query)
  case Nil
  then show ?thesis by (simp add: query_one_def query_one_handles_def leaves_def)
next
  case (Cons word words)
  let ?B = "oi_bytes oi"
  let ?add = "\<lambda>docs. AddQueryResult ?B (oi_docs oi) docs"
  let ?add' = "\<lambda>h docs. bindE (add_results h (fst rs) docs) (\<lambda>qs. Inr (qs, h))"
  let ?f = "\<lambda>d. case d of None \<Rightarrow> Inr []
    | Some docs \<Rightarrow> if words = [] then ?add docs
        else bindE (further_words ?B (oi_words oi) words docs) (\<lambda>docs. if docs = [] then Inr [] else ?add docs)"
  let ?g = "\<lambda>(d, h). case d of None \<Rightarrow> Inr ([], h)
    | Some docs \<Rightarrow> if words = [] then ?add' h docs
        else bindE (further_words_handles h (snd rs) words docs) (\<lambda>(docs, h). if docs = [] then Inr ([], h) else ?add' h docs)"
  have add: "leaves h' (?add docs) (?add' h' docs)" if "same_open h h'" for h' docs
    using r by (cases "?add docs") (simp_all add: leaves_def reads_index_def add_results_def file_of_same [OF that])
  have further: "leaves h' (bindE (further_words ?B (oi_words oi) words docs) (\<lambda>docs. if docs = [] then Inr [] else ?add docs))
      (bindE (further_words_handles h' (snd rs) words docs) (\<lambda>(docs, h). if docs = [] then Inr ([], h) else ?add' h docs))"
    if s: "same_open h h'" for h' docs
  proof (rule leaves_bind)
    have "file_of h' (rd_file (snd rs)) = Inr ?B" "rd_table (snd rs) = oi_words oi"
      using r file_of_same [OF s] by (simp_all add: reads_index_def)
    then show "leaves h' (further_words ?B (oi_words oi) words docs) (further_words_handles h' (snd rs) words docs)"
      using further_words_leaves [OF room_same [OF room s]] by metis
  qed (use add same_open_trans [OF s] in \<open>auto simp: leaves_return\<close>)
  have "leaves h (word_docs ?B (rd_table (snd rs)) word) (word_docs_handles h (snd rs) word)"
    using r by (intro word_docs_leaves room) (simp add: reads_index_def)
  then have "leaves h (bindE (word_docs ?B (oi_words oi) word) ?f) (bindE (word_docs_handles h (snd rs) word) ?g)"
    using r by (intro leaves_bind) (auto simp: reads_index_def leaves_return add further split: option.split)
  moreover have "query_one oi query = bindE (word_docs ?B (oi_words oi) word) ?f"
    unfolding bindE_word_docs by (simp add: Cons query_one_def cong: option.case_cong)
  moreover have "query_one_handles h rs query = bindE (word_docs_handles h (snd rs) word) ?g"
    unfolding bindE_word_docs_handles by (simp add: Cons query_one_handles_def cong: option.case_cong)
  ultimately show ?thesis by simp
qed

lemma query_all_leaves:
  "room h \<Longrightarrow> list_all2 (reads_index h) rs ois \<Longrightarrow> leaves h (query_all ois query) (query_all_handles h rs query)"
proof (induction ois arbitrary: h rs)
  case Nil
  then show ?case by (simp add: leaves_return)
next
  case (Cons oi ois)
  then obtain r rs' where rs: "rs = r # rs'" "reads_index h r oi" "list_all2 (reads_index h) rs' ois"
    by (auto simp: list_all2_Cons2)
  show ?case unfolding rs(1) query_all.simps query_all_handles.simps
  proof (rule leaves_bind [OF query_one_leaves [OF Cons.prems(1) rs(2)]])
    fix qs h' assume s: "same_open h h'"
    have "list_all2 (reads_index h') rs' ois" using rs(3) by (simp add: reads_index_same [OF s] cong: list.rel_cong)
    then have "leaves h' (query_all ois query) (query_all_handles h' rs' query)"
      by (rule Cons.IH [OF room_same [OF Cons.prems(1) s]])
    then show "leaves h' (bindE (query_all ois query) (\<lambda>rs'. Inr (qs @ rs')))
        (case (qs, h') of (qs, h) \<Rightarrow> bindE (query_all_handles h rs' query) (\<lambda>(qs', h). Inr (qs @ qs', h)))"
      unfolding prod.case by (rule leaves_bind) (simp add: leaves_return)
  qed
qed

lemma process_query_leaves:
  assumes "room h" "list_all2 (reads_index h) rs ois"
  shows "leaves h (ProcessQuery srt ois query) (process_query_handles srt h rs query)"
proof (cases "query = []")
  case True
  then show ?thesis by (simp add: ProcessQuery_def process_query_handles_def leaves_def)
next
  case False
  have "leaves h (bindE (query_all ois query) (\<lambda>rs. Inr (srt rs))) (bindE (query_all_handles h rs query) (\<lambda>(rs, h). Inr (srt rs, h)))"
    by (rule leaves_bind [OF query_all_leaves [OF assms]]) (simp add: leaves_return)
  then show ?thesis using False by (simp add: ProcessQuery_def process_query_handles_def)
qed

end
