(* ===== verification/ReaderHandlesProperties.thy ===== *)
theory ReaderHandlesProperties
  imports ReaderHandlesSpec "HOL-Library.Multiset"
begin

text \<open>
  The life of a query processor and of table readers, with the number of descriptors they need.
\<close>

section \<open>Opening and closing index files\<close>

text \<open>One round of the constructor.\<close>

definition open_one ::
  "(string \<Rightarrow> byte list option) \<Rightarrow> handles \<Rightarrow> bool \<Rightarrow> string \<Rightarrow> ((reader \<times> reader) \<times> handles) res" where
  "open_one fs h validate name =
     bindE (new_index_reader fs h name validate) (\<lambda>(fir, h).
     bindE (doc_table_reader h fir) (\<lambda>(dtr, h).
     bindE (index_table_reader h fir) (\<lambda>(itr, h).
     bindE (fclose h (ir_file fir)) (\<lambda>h. Inr ((dtr, itr), h)))))"

lemma new_readers_Cons:
  "new_readers fs h validate (name # names) =
     bindE (open_one fs h validate name) (\<lambda>(r, h). bindE (new_readers fs h validate names) (\<lambda>(rs, h). Inr (r # rs, h)))"
  unfolding open_one_def bindE_assoc new_readers.simps by (auto intro!: bindE_cong simp: bindE_assoc)

definition good_index :: "(string \<Rightarrow> byte list option) \<Rightarrow> bool \<Rightarrow> string \<Rightarrow> open_index \<Rightarrow> bool" where
  "good_index fs validate name oi \<longleftrightarrow> fs name = Some (oi_bytes oi) \<and>
     (\<exists>fir. FileIndexReader (oi_bytes oi) validate = Inr fir \<and> GetDocTableReader (oi_bytes oi) fir = Inr (oi_docs oi) \<and>
        GetIndexTableReader (oi_bytes oi) fir = Inr (oi_words oi))"

lemma open_indices_good: "open_indices fs validate names = Inr ois \<longleftrightarrow> list_all2 (good_index fs validate) names ois"
proof (induction names arbitrary: ois)
  case (Cons name names)
  show ?case
    by (cases ois) (fastforce simp: bindE_eq_Inr good_index_def Cons.IH split: option.splits)+
qed auto

text \<open>Two handles more are open after a round, and three during it.\<close>

lemma open_one_ok:
  assumes h: "handles_ok h" "length (hs_open h) + 3 \<le> hs_limit h" and oi: "good_index fs validate name oi"
  shows "\<exists>h' r. open_one fs h validate name = Inr (r, h') \<and> handles_ok h' \<and> hs_limit h' = hs_limit h \<and>
    hs_open h' = [(rd_file (snd r), oi_bytes oi), (rd_file (fst r), oi_bytes oi)] @ hs_open h \<and>
    reads_index h' r oi \<and> hs_next h \<le> hs_next h'"
proof -
  let ?B = "oi_bytes oi" and ?n = "hs_next h"
  obtain fir where fir: "fs name = Some ?B" "FileIndexReader ?B validate = Inr fir" "HashTableReader ?B 16 = Inr (oi_docs oi)"
    "HashTableReader ?B (16 + doctable_size fir) = Inr (oi_words oi)"
    using oi by (auto simp: good_index_def GetDocTableReader_def DocTableReader_def GetIndexTableReader_def IndexTableReader_def)
  let ?h1 = "opened h ?B"
  let ?h2 = "opened ?h1 ?B"
  let ?h3 = "opened ?h2 ?B"
  have ok: "handles_ok ?h1" "handles_ok ?h2" "handles_ok ?h3" using h(1) by (simp_all add: opened_ok)
  have f: "file_of ?h2 ?n = Inr ?B" using ok(1) by (simp add: file_of_older)
  let ?h4 = "?h3\<lparr>hs_open := [(Suc (Suc ?n), ?B), (Suc ?n, ?B)] @ hs_open h\<rparr>"
  have close: "fclose ?h3 ?n = Inr ?h4" using next_unused [OF h(1)] by (simp add: fclose_open filter_other)
  let ?r = "(\<lparr>rd_file = Suc ?n, rd_table = oi_docs oi\<rparr>, \<lparr>rd_file = Suc (Suc ?n), rd_table = oi_words oi\<rparr>)"
  have "open_one fs h validate name = Inr (?r, ?h4)"
    using h(2) f close file_of_opened [of h ?B] file_of_opened [of ?h1 ?B] file_of_opened [of ?h2 ?B]
    by (simp add: open_one_def new_index_reader_def fopen_def doc_table_reader_def index_table_reader_def new_reader_def
        fir FileDup_ok add_handle del: file_of_opened)
  moreover have "handles_ok ?h4" using h(1) by (fastforce simp: handles_ok_def)
  moreover have "reads_index ?h4 ?r oi" by (simp add: reads_index_def file_of_def)
  ultimately show ?thesis by (intro exI [of _ ?h4] exI [of _ ?r]) simp
qed

lemma open_one_full:
  assumes h: "handles_ok h" "hs_limit h < length (hs_open h) + 3" and oi: "good_index fs validate name oi"
  shows "open_one fs h validate name = Inl Verify333_Failed"
proof -
  let ?B = "oi_bytes oi" and ?n = "hs_next h"
  obtain fir where fir: "fs name = Some ?B" "FileIndexReader ?B validate = Inr fir" "HashTableReader ?B 16 = Inr (oi_docs oi)"
    using oi by (auto simp: good_index_def GetDocTableReader_def DocTableReader_def)
  let ?h1 = "opened h ?B"
  let ?h2 = "opened ?h1 ?B"
  have f: "file_of ?h2 ?n = Inr ?B" using opened_ok [OF h(1)] by (simp add: file_of_older)
  consider "hs_limit h \<le> length (hs_open h)" | "hs_limit h = length (hs_open h) + 1" | "hs_limit h = length (hs_open h) + 2"
    using h(2) by linarith
  then show ?thesis
  proof cases
    case 1
    then show ?thesis by (simp add: open_one_def new_index_reader_def fopen_def fir)
  next
    case 2
    then show ?thesis using FileDup_full [OF file_of_opened [of h ?B]]
      by (simp add: open_one_def new_index_reader_def fopen_def fir add_handle doc_table_reader_def)
  next
    case 3
    then show ?thesis using FileDup_full [OF f] FileDup_ok [OF file_of_opened [of h ?B]] file_of_opened [of h ?B] file_of_opened [of ?h1 ?B]
      by (simp add: open_one_def new_index_reader_def fopen_def fir add_handle doc_table_reader_def new_reader_def
          index_table_reader_def del: file_of_opened)
  qed
qed

definition handles_of :: "(reader \<times> reader) list \<Rightarrow> nat list" where
  "handles_of rs = concat (map (\<lambda>(d, w). [rd_file d, rd_file w]) rs)"

lemma handles_of_simps [simp]: "handles_of [] = []" "handles_of ((d, w) # rs) = rd_file d # rd_file w # handles_of rs"
  by (simp_all add: handles_of_def)

lemma reads_index_mono:
  assumes "handles_ok h'" "set (hs_open h) \<subseteq> set (hs_open h')" "reads_index h r oi"
  shows "reads_index h' r oi"
proof -
  have "file_of h' f = Inr B" if "file_of h f = Inr B" for f B
  proof -
    have "(f, B) \<in> set (hs_open h')" using that assms(2) by (auto simp: file_of_def dest: map_of_SomeD split: option.splits)
    then show ?thesis using assms(1) by (simp add: file_of_def handles_ok_def map_of_is_SomeI)
  qed
  then show ?thesis using assms(3) by (simp add: reads_index_def)
qed

lemma new_readers_ok:
  "handles_ok h \<Longrightarrow> length (hs_open h) + 2 * length names + 1 \<le> hs_limit h \<Longrightarrow> list_all2 (good_index fs validate) names ois \<Longrightarrow>
   \<exists>rs h' new. new_readers fs h validate names = Inr (rs, h') \<and> handles_ok h' \<and> hs_limit h' = hs_limit h \<and>
     hs_open h' = new @ hs_open h \<and> length new = 2 * length names \<and> map fst new = rev (handles_of rs) \<and>
     list_all2 (reads_index h') rs ois \<and> hs_next h \<le> hs_next h'"
proof (induction names arbitrary: h ois)
  case (Cons name names)
  obtain oi ois' where ois: "ois = oi # ois'" "good_index fs validate name oi" "list_all2 (good_index fs validate) names ois'"
    using Cons.prems(3) by (auto simp: list_all2_Cons1)
  have "length (hs_open h) + 3 \<le> hs_limit h" using Cons.prems(2) by simp
  then obtain h1 r where h1: "open_one fs h validate name = Inr (r, h1)" "handles_ok h1" "hs_limit h1 = hs_limit h"
    "hs_open h1 = [(rd_file (snd r), oi_bytes oi), (rd_file (fst r), oi_bytes oi)] @ hs_open h" "reads_index h1 r oi" "hs_next h \<le> hs_next h1"
    using open_one_ok [OF Cons.prems(1) _ ois(2)] by blast
  have "length (hs_open h1) + 2 * length names + 1 \<le> hs_limit h1" using Cons.prems(2) h1(3,4) by simp
  then obtain rs h' new where n: "new_readers fs h1 validate names = Inr (rs, h')" "handles_ok h'" "hs_limit h' = hs_limit h1"
    "hs_open h' = new @ hs_open h1" "length new = 2 * length names" "map fst new = rev (handles_of rs)" "list_all2 (reads_index h') rs ois'" "hs_next h1 \<le> hs_next h'"
    using Cons.IH [OF h1(2) _ ois(3)] by blast
  have "reads_index h' r oi" by (rule reads_index_mono [OF n(2) _ h1(5)]) (simp add: n(4))
  moreover have "new_readers fs h validate (name # names) = Inr (r # rs, h')" unfolding new_readers_Cons h1(1) by (simp add: n(1))
  moreover have "handles_of (r # rs) = rd_file (fst r) # rd_file (snd r) # handles_of rs" by (cases r) simp
  ultimately show ?case using n h1(3,4,6) ois(1)
    by (intro exI [of _ "r # rs"] exI [of _ h'] exI [of _ "new @ [(rd_file (snd r), oi_bytes oi), (rd_file (fst r), oi_bytes oi)]"]) simp
qed simp

lemma new_readers_full:
  "handles_ok h \<Longrightarrow> hs_limit h < length (hs_open h) + 2 * length names + 1 \<Longrightarrow> names \<noteq> [] \<Longrightarrow>
   list_all2 (good_index fs validate) names ois \<Longrightarrow> new_readers fs h validate names = Inl Verify333_Failed"
proof (induction names arbitrary: h ois)
  case (Cons name names)
  obtain oi ois' where ois: "good_index fs validate name oi" "list_all2 (good_index fs validate) names ois'"
    using Cons.prems(4) by (auto simp: list_all2_Cons1)
  show ?case
  proof (cases "length (hs_open h) + 3 \<le> hs_limit h")
    case True
    obtain h1 r where h1: "open_one fs h validate name = Inr (r, h1)" "handles_ok h1" "hs_limit h1 = hs_limit h"
      "length (hs_open h1) = length (hs_open h) + 2"
      using open_one_ok [OF Cons.prems(1) True ois(1)] by fastforce
    have "names \<noteq> []" using True Cons.prems(2) by auto
    moreover have "hs_limit h1 < length (hs_open h1) + 2 * length names + 1" using Cons.prems(2) h1(3,4) by simp
    ultimately have "new_readers fs h1 validate names = Inl Verify333_Failed" using Cons.IH [OF h1(2) _ _ ois(2)] by blast
    then show ?thesis unfolding new_readers_Cons h1(1) by simp
  next
    case False
    then have "open_one fs h validate name = Inl Verify333_Failed" by (intro open_one_full [OF Cons.prems(1) _ ois(1)]) simp
    then show ?thesis unfolding new_readers_Cons by simp
  qed
qed simp

lemma delete_query_processor_ok:
  "distinct (handles_of rs) \<Longrightarrow> set (handles_of rs) \<subseteq> fst ` set (hs_open h) \<Longrightarrow>
   delete_query_processor h rs = Inr (h\<lparr>hs_open := filter (\<lambda>x. fst x \<notin> set (handles_of rs)) (hs_open h)\<rparr>)"
proof (induction rs arbitrary: h)
  case (Cons r rs)
  obtain d w where r: "r = (d, w)" by (cases r)
  let ?h1 = "h\<lparr>hs_open := filter (\<lambda>x. fst x \<noteq> rd_file d) (hs_open h)\<rparr>"
  let ?h2 = "?h1\<lparr>hs_open := filter (\<lambda>x. fst x \<noteq> rd_file w) (hs_open ?h1)\<rparr>"
  have 1: "fclose h (rd_file d) = Inr ?h1" using Cons.prems r by (intro fclose_open) simp
  have 2: "fclose ?h1 (rd_file w) = Inr ?h2" using Cons.prems r by (intro fclose_open) force
  have 3: "delete_query_processor ?h2 rs = Inr (?h2\<lparr>hs_open := filter (\<lambda>x. fst x \<notin> set (handles_of rs)) (hs_open ?h2)\<rparr>)"
    using Cons.prems r by (intro Cons.IH) force+
  show ?case using 1 2 3 by (simp add: r delete_reader_def filter_filter conj_commute conj_left_commute)
qed simp

section \<open>The life of a query processor\<close>

fun ask_all :: "(query_result list \<Rightarrow> query_result list) \<Rightarrow> open_index list \<Rightarrow> string list list \<Rightarrow> query_result list list res" where
  "ask_all srt ois [] = Inr []"
| "ask_all srt ois (q # qs) = bindE (ProcessQuery srt ois q) (\<lambda>r. bindE (ask_all srt ois qs) (\<lambda>rs. Inr (r # rs)))"

fun ask_all_handles ::
  "(query_result list \<Rightarrow> query_result list) \<Rightarrow> handles \<Rightarrow> (reader \<times> reader) list \<Rightarrow> string list list \<Rightarrow>
   (query_result list list \<times> handles) res" where
  "ask_all_handles srt h rs [] = Inr ([], h)"
| "ask_all_handles srt h rs (q # qs) =
     bindE (process_query_handles srt h rs q) (\<lambda>(a, h). bindE (ask_all_handles srt h rs qs) (\<lambda>(as, h). Inr (a # as, h)))"

definition use_processor ::
  "(query_result list \<Rightarrow> query_result list) \<Rightarrow> (string \<Rightarrow> byte list option) \<Rightarrow> handles \<Rightarrow> string list \<Rightarrow> bool \<Rightarrow>
   string list list \<Rightarrow> (query_result list list \<times> handles) res" where
  "use_processor srt fs h names validate qs =
     bindE (new_query_processor fs h names validate) (\<lambda>(rs, h).
     bindE (ask_all_handles srt h rs qs) (\<lambda>(as, h).
     bindE (delete_query_processor h rs) (\<lambda>h. Inr (as, h))))"

lemma ask_all_leaves:
  "room h \<Longrightarrow> list_all2 (reads_index h) rs ois \<Longrightarrow> leaves h (ask_all srt ois qs) (ask_all_handles srt h rs qs)"
proof (induction qs arbitrary: h)
  case (Cons q qs)
  show ?case unfolding ask_all.simps ask_all_handles.simps
  proof (rule leaves_bind [OF process_query_leaves [OF Cons.prems]])
    fix a h' assume s: "same_open h h'"
    have "list_all2 (reads_index h') rs ois" using Cons.prems(2) by (simp add: reads_index_same [OF s] cong: list.rel_cong)
    then have "leaves h' (ask_all srt ois qs) (ask_all_handles srt h' rs qs)" by (rule Cons.IH [OF room_same [OF Cons.prems(1) s]])
    then show "leaves h' (bindE (ask_all srt ois qs) (\<lambda>rs. Inr (a # rs)))
        (case (a, h') of (a, h) \<Rightarrow> bindE (ask_all_handles srt h rs qs) (\<lambda>(as, h). Inr (a # as, h)))"
      unfolding prod.case by (rule leaves_bind) (simp add: leaves_return)
  qed
qed (simp add: leaves_return)

text \<open>Closing the handles that were opened leaves the others.\<close>

lemma close_new:
  assumes "handles_ok h'" "hs_open h' = new @ old" "map fst new = rev fs"
  shows "distinct fs" "set fs \<subseteq> fst ` set (hs_open h')" "filter (\<lambda>x. fst x \<notin> set fs) (hs_open h') = old"
proof -
  have d: "distinct (rev fs @ map fst old)" using assms by (simp add: handles_ok_def)
  then show "distinct fs" by simp
  have s: "fst ` set new = set fs" using arg_cong [OF assms(3), of set] by simp
  then show "set fs \<subseteq> fst ` set (hs_open h')" using assms(2) by auto
  have "filter (\<lambda>x. fst x \<notin> set fs) new = []" using s by (auto simp: filter_empty_conv)
  moreover have "filter (\<lambda>x. fst x \<notin> set fs) old = old" using d by (intro filter_True) (auto simp: image_iff)
  ultimately show "filter (\<lambda>x. fst x \<notin> set fs) (hs_open h') = old" by (simp add: assms(2))
qed

lemma use_processor_ok:
  assumes h: "handles_ok h" "length (hs_open h) + 2 * length names + 1 \<le> hs_limit h" and ois: "QueryProcessor fs names validate = Inr ois"
  shows "leaves h (ask_all srt ois qs) (use_processor srt fs h names validate qs)"
proof -
  have names: "names \<noteq> []" "list_all2 (good_index fs validate) names ois"
    using ois by (auto simp: QueryProcessor_def bindE_eq_Inr open_indices_good)
  obtain rs h1 new where n: "new_readers fs h validate names = Inr (rs, h1)" "handles_ok h1" "hs_limit h1 = hs_limit h"
    "hs_open h1 = new @ hs_open h" "length new = 2 * length names" "map fst new = rev (handles_of rs)" "list_all2 (reads_index h1) rs ois"
    "hs_next h \<le> hs_next h1"
    using new_readers_ok [OF h names(2)] by blast
  have new: "new_query_processor fs h names validate = Inr (rs, h1)" using names(1) n(1) by (simp add: new_query_processor_def)
  have "room h1" using n h(2) by (simp add: room_def)
  note l = ask_all_leaves [OF this n(7), of srt qs]
  show ?thesis
  proof (cases "ask_all srt ois qs")
    case (Inl e)
    then show ?thesis using l new by (simp add: leaves_def use_processor_def)
  next
    case (Inr as)
    then obtain h2 where h2: "ask_all_handles srt h1 rs qs = Inr (as, h2)" "same_open h1 h2" using l by (auto simp: leaves_def)
    have o: "handles_ok h2" "hs_open h2 = new @ hs_open h" using same_open_ok [OF n(2) h2(2)] h2(2) n(4) by (simp_all add: same_open_def)
    note c = close_new [OF o n(6)]
    have "delete_query_processor h2 rs = Inr (h2\<lparr>hs_open := hs_open h\<rparr>)" using delete_query_processor_ok [OF c(1,2)] c(3) by simp
    then show ?thesis using Inr new h2 n(3,8) by (simp add: leaves_def use_processor_def same_open_def)
  qed
qed

section \<open>Readers as values\<close>

text \<open>What a client can do with table readers: open one on a file, copy one, assign one to another, destroy one.\<close>

datatype reader_op = Open_Table string IndexFileOffset_t | Copy nat | Assign nat nat | Destroy nat

definition remove_nth :: "nat \<Rightarrow> 'a list \<Rightarrow> 'a list" where
  "remove_nth i xs = take i xs @ drop (Suc i) xs"

fun reader_step ::
  "(string \<Rightarrow> byte list option) \<Rightarrow> reader_op \<Rightarrow> reader list \<times> handles \<Rightarrow> (reader list \<times> handles) res" where
  "reader_step fs (Open_Table name offset) (rs, h) =
     (case fopen fs h name of
        (None, h) \<Rightarrow> Inl Verify333_Failed
      | (Some f, h) \<Rightarrow> bindE (new_reader h f offset) (\<lambda>r. Inr (rs @ [r], h)))"
| "reader_step fs (Copy i) (rs, h) =
     bindE (index_res rs i) (\<lambda>r. bindE (copy_reader h r) (\<lambda>(r', h). Inr (rs @ [r'], h)))"
| "reader_step fs (Assign i j) (rs, h) =
     bindE (index_res rs i) (\<lambda>this. bindE (index_res rs j) (\<lambda>rhs.
     bindE (assign_reader (i = j) h this rhs) (\<lambda>(r, h). Inr (rs[i := r], h))))"
| "reader_step fs (Destroy i) (rs, h) =
     bindE (index_res rs i) (\<lambda>r. bindE (delete_reader h r) (\<lambda>h. Inr (remove_nth i rs, h)))"

fun reader_steps ::
  "(string \<Rightarrow> byte list option) \<Rightarrow> reader_op list \<Rightarrow> reader list \<times> handles \<Rightarrow> (reader list \<times> handles) res" where
  "reader_steps fs [] s = Inr s"
| "reader_steps fs (op # ops) s = bindE (reader_step fs op s) (reader_steps fs ops)"

text \<open>The same with readers that are plain values: the bytes of a file and a table in it.\<close>

fun value_step ::
  "(string \<Rightarrow> byte list option) \<Rightarrow> reader_op \<Rightarrow> (byte list \<times> table_reader) list \<Rightarrow> (byte list \<times> table_reader) list res" where
  "value_step fs (Open_Table name offset) vs =
     (case fs name of
        None \<Rightarrow> Inl Verify333_Failed
      | Some B \<Rightarrow> bindE (HashTableReader B offset) (\<lambda>t. Inr (vs @ [(B, t)])))"
| "value_step fs (Copy i) vs = bindE (index_res vs i) (\<lambda>v. Inr (vs @ [v]))"
| "value_step fs (Assign i j) vs = bindE (index_res vs i) (\<lambda>_. bindE (index_res vs j) (\<lambda>v. Inr (vs[i := v])))"
| "value_step fs (Destroy i) vs = bindE (index_res vs i) (\<lambda>_. Inr (remove_nth i vs))"

fun value_steps ::
  "(string \<Rightarrow> byte list option) \<Rightarrow> reader_op list \<Rightarrow> (byte list \<times> table_reader) list \<Rightarrow> (byte list \<times> table_reader) list res" where
  "value_steps fs [] vs = Inr vs"
| "value_steps fs (op # ops) vs = bindE (value_step fs op vs) (value_steps fs ops)"

text \<open>Every reader owns an open handle of its own, and every open handle has an owner.\<close>

definition owned :: "reader list \<Rightarrow> handles \<Rightarrow> bool" where
  "owned rs h \<longleftrightarrow> handles_ok h \<and> distinct (map rd_file rs) \<and> set (map rd_file rs) = fst ` set (hs_open h)"

definition value_of :: "handles \<Rightarrow> reader \<Rightarrow> byte list \<times> table_reader" where
  "value_of h r = (the (map_of (hs_open h) (rd_file r)), rd_table r)"

lemma owned_length: "owned rs h \<Longrightarrow> length (hs_open h) = length rs"
  unfolding owned_def handles_ok_def by (metis distinct_card length_map set_map)

lemma owned_file: "owned rs h \<Longrightarrow> r \<in> set rs \<Longrightarrow> file_of h (rd_file r) = Inr (fst (value_of h r))"
proof -
  assume "owned rs h" "r \<in> set rs"
  then have "rd_file r \<in> fst ` set (hs_open h)" by (auto simp: owned_def)
  then obtain B where "map_of (hs_open h) (rd_file r) = Some B" by (metis map_of_eq_None_iff not_None_eq)
  then show ?thesis by (simp add: file_of_def value_of_def)
qed

lemma owned_fresh: "owned rs h \<Longrightarrow> x \<in> set rs \<Longrightarrow> rd_file x \<noteq> hs_next h"
  using next_unused [of h] unfolding owned_def set_map by (metis image_eqI)

lemma owned_add:
  assumes "owned rs h" and r: "rd_file r = hs_next h"
  shows "owned (rs @ [r]) (opened h B)" "map (value_of (opened h B)) (rs @ [r]) = map (value_of h) rs @ [(B, rd_table r)]"
proof -
  have n: "hs_next h \<notin> rd_file ` set rs" using owned_fresh [OF assms(1)] by (metis imageE)
  have h: "handles_ok h" "distinct (map rd_file rs)" "rd_file ` set rs = fst ` set (hs_open h)"
    using assms(1) by (simp_all add: owned_def)
  show "owned (rs @ [r]) (opened h B)" using opened_ok [OF h(1)] h(2,3) n r by (simp add: owned_def)
  show "map (value_of (opened h B)) (rs @ [r]) = map (value_of h) rs @ [(B, rd_table r)]"
    using owned_fresh [OF assms(1)] r by (simp add: value_of_def)
qed

lemma map_of_close: "g \<noteq> f \<Longrightarrow> map_of (filter (\<lambda>x. fst x \<noteq> f) xs) g = map_of xs g"
  by (induction xs) auto

lemma owned_remove:
  assumes "owned rs h" "i < length rs"
  obtains h' where "fclose h (rd_file (rs ! i)) = Inr h'" "owned (remove_nth i rs) h'" "hs_limit h' = hs_limit h"
    "map (value_of h') (remove_nth i rs) = remove_nth i (map (value_of h) rs)" "hs_next h' = hs_next h"
    "\<forall>f. f \<noteq> rd_file (rs ! i) \<longrightarrow> map_of (hs_open h') f = map_of (hs_open h) f"
proof -
  let ?f = "rd_file (rs ! i)"
  let ?h = "h\<lparr>hs_open := filter (\<lambda>x. fst x \<noteq> ?f) (hs_open h)\<rparr>"
  have rs: "rs = take i rs @ rs ! i # drop (Suc i) rs" using assms(2) by (rule id_take_nth_drop)
  have d: "distinct (map rd_file (take i rs) @ ?f # map rd_file (drop (Suc i) rs))"
    using assms(1) arg_cong [OF rs, of "map rd_file"] by (simp add: owned_def)
  have set: "insert ?f (rd_file ` set (remove_nth i rs)) = fst ` set (hs_open h)"
    using assms(1) arg_cong [OF rs, of "\<lambda>xs. rd_file ` set xs"] by (auto simp: owned_def remove_nth_def)
  have out: "?f \<notin> rd_file ` set (remove_nth i rs)" using d by (auto simp: remove_nth_def)
  have "fclose h ?f = Inr ?h" using set by (intro fclose_open) blast
  moreover have "handles_ok ?h" using assms(1) by (auto simp: owned_def handles_ok_def distinct_map_filter)
  moreover have "rd_file ` set (remove_nth i rs) = fst ` set (hs_open ?h)" using set out by (fastforce simp: image_iff)
  moreover have "distinct (map rd_file (remove_nth i rs))" using d by (auto simp: remove_nth_def)
  moreover have "map (value_of ?h) (remove_nth i rs) = map (value_of h) (remove_nth i rs)"
  proof (rule map_cong [OF refl])
    fix x assume "x \<in> set (remove_nth i rs)"
    then have "rd_file x \<noteq> ?f" using out by (metis image_eqI)
    then show "value_of ?h x = value_of h x" by (simp add: value_of_def map_of_close)
  qed
  moreover have "map (value_of h) (remove_nth i rs) = remove_nth i (map (value_of h) rs)"
    by (simp add: remove_nth_def take_map drop_map)
  ultimately show ?thesis by (intro that [of ?h]) (simp_all add: owned_def map_of_close)
qed

lemma owned_mset: "mset rs = mset rs' \<Longrightarrow> owned rs h \<longleftrightarrow> owned rs' h"
  unfolding owned_def by (metis mset_eq_setD mset_eq_imp_distinct_iff mset_map)

lemma mset_replace: "i < length xs \<Longrightarrow> mset (xs[i := x]) = mset (remove_nth i xs @ [x])"
  by (simp add: upd_conv_take_nth_drop remove_nth_def)

lemma assign_ok:
  assumes o: "owned rs h" "length rs \<le> hs_limit h" and i: "i < length rs" "j < length rs" "i \<noteq> j"
  shows "\<exists>r h'. assign_reader False h (rs ! i) (rs ! j) = Inr (r, h') \<and> owned (rs[i := r]) h' \<and> hs_limit h' = hs_limit h \<and>
    map (value_of h') (rs[i := r]) = (map (value_of h) rs)[i := value_of h (rs ! j)]"
proof -
  let ?f = "rd_file (rs ! i)" and ?B = "fst (value_of h (rs ! j))"
  obtain h1 where h1: "fclose h ?f = Inr h1" "owned (remove_nth i rs) h1" "hs_limit h1 = hs_limit h"
    "map (value_of h1) (remove_nth i rs) = remove_nth i (map (value_of h) rs)" "hs_next h1 = hs_next h"
    "\<forall>f. f \<noteq> ?f \<longrightarrow> map_of (hs_open h1) f = map_of (hs_open h) f" by (rule owned_remove [OF o(1) i(1)])
  have other: "rd_file (rs ! k) \<noteq> ?f" if "k < length rs" "k \<noteq> i" for k
    using o(1) that i(1) by (auto simp: owned_def distinct_conv_nth)
  have f: "file_of h1 (rd_file (rs ! j)) = Inr ?B"
    using owned_file [OF o(1), of "rs ! j"] i(2) h1(6) other [OF i(2)] i(3) by (simp add: file_of_def)
  have "length (hs_open h1) < hs_limit h1" using owned_length [OF h1(2)] o(2) i(1) h1(3) by (simp add: remove_nth_def)
  note dup = FileDup_ok [OF f this]
  let ?r = "\<lparr>rd_file = hs_next h1, rd_table = rd_table (rs ! j)\<rparr>"
  let ?h = "opened h1 ?B"
  have "owned (rs[i := ?r]) ?h" using owned_add(1) [OF h1(2), of ?r ?B] mset_replace [OF i(1), of ?r] owned_mset by fastforce
  moreover have "map (value_of ?h) (rs[i := ?r]) = (map (value_of h) rs)[i := value_of h (rs ! j)]"
  proof (rule nth_equalityI)
    fix k assume k: "k < length (map (value_of ?h) (rs[i := ?r]))"
    show "map (value_of ?h) (rs[i := ?r]) ! k = (map (value_of h) rs)[i := value_of h (rs ! j)] ! k"
    proof (cases "k = i")
      case True
      then show ?thesis using k by (simp add: value_of_def)
    next
      case False
      have "rd_file (rs ! k) \<noteq> hs_next h" using owned_fresh [OF o(1)] k by simp
      then show ?thesis using False k h1(5,6) other [of k] by (simp add: value_of_def)
    qed
  qed simp
  ultimately show ?thesis using h1(1,3) dup by (simp add: assign_reader_def)
qed

fun opens_handle :: "reader_op \<Rightarrow> nat" where
  "opens_handle (Open_Table name offset) = 1"
| "opens_handle (Copy i) = 1"
| "opens_handle (Assign i j) = 0"
| "opens_handle (Destroy i) = 0"

definition agrees :: "nat \<Rightarrow> nat \<Rightarrow> (byte list \<times> table_reader) list res \<Rightarrow> (reader list \<times> handles) res \<Rightarrow> bool" where
  "agrees lim n v r \<longleftrightarrow> (case v of Inl e \<Rightarrow> r = Inl e
     | Inr vs \<Rightarrow> \<exists>rs h. r = Inr (rs, h) \<and> owned rs h \<and> map (value_of h) rs = vs \<and> hs_limit h = lim \<and> length rs \<le> n)"

lemma reader_step_ok:
  assumes o: "owned rs h" "length rs + opens_handle op \<le> hs_limit h"
  shows "agrees (hs_limit h) (length rs + opens_handle op) (value_step fs op (map (value_of h) rs)) (reader_step fs op (rs, h))"
proof (cases op)
  case (Open_Table name offset)
  show ?thesis
  proof (cases "fs name")
    case None
    then show ?thesis by (simp add: Open_Table agrees_def fopen_def)
  next
    case (Some B)
    have "fopen fs h name = (Some (hs_next h), opened h B)"
      using Some o owned_length [OF o(1)] by (simp add: fopen_def Open_Table add_handle)
    then show ?thesis
      using Some owned_add [OF o(1), of "\<lparr>rd_file = hs_next h, rd_table = t\<rparr>" B for t]
      by (cases "HashTableReader B offset") (simp_all add: Open_Table agrees_def new_reader_def)
  qed
next
  case (Copy i)
  show ?thesis
  proof (cases "i < length rs")
    case True
    then have "FileDup h (rd_file (rs ! i)) = Inr (hs_next h, opened h (fst (value_of h (rs ! i))))"
      using o owned_length [OF o(1)] by (intro FileDup_ok owned_file [OF o(1) nth_mem]) (simp_all add: Copy)
    then show ?thesis
      using True owned_add [OF o(1), of "\<lparr>rd_file = hs_next h, rd_table = rd_table (rs ! i)\<rparr>" "fst (value_of h (rs ! i))"]
      by (simp add: Copy agrees_def copy_reader_def) (simp add: value_of_def)
  qed (simp add: Copy agrees_def index_res_def)
next
  case (Assign i j)
  show ?thesis
  proof (cases "i < length rs \<and> j < length rs")
    case True
    show ?thesis
    proof (cases "i = j")
      case True
      then show ?thesis using o \<open>i < length rs \<and> j < length rs\<close>
        by (simp add: Assign agrees_def assign_reader_def map_update [symmetric])
    next
      case False
      then show ?thesis using assign_ok [OF o(1) _ _ _ False] o(2) True by (force simp: Assign agrees_def)
    qed
  qed (auto simp: Assign agrees_def index_res_def)
next
  case (Destroy i)
  show ?thesis
  proof (cases "i < length rs")
    case True
    then show ?thesis using o(1)
      by (rule_tac owned_remove [OF o(1) True]) (auto simp: Destroy agrees_def delete_reader_def remove_nth_def)
  qed (simp add: Destroy agrees_def index_res_def)
qed

lemma reader_steps_ok:
  "owned rs h \<Longrightarrow> length rs + sum_list (map opens_handle ops) \<le> hs_limit h \<Longrightarrow>
   agrees (hs_limit h) (length rs + sum_list (map opens_handle ops)) (value_steps fs ops (map (value_of h) rs)) (reader_steps fs ops (rs, h))"
proof (induction ops arbitrary: rs h)
  case (Cons op ops)
  let ?n = "length rs + sum_list (map opens_handle (op # ops))"
  have s: "agrees (hs_limit h) (length rs + opens_handle op) (value_step fs op (map (value_of h) rs)) (reader_step fs op (rs, h))"
    using Cons.prems by (intro reader_step_ok) simp_all
  show ?case
  proof (cases "value_step fs op (map (value_of h) rs)")
    case (Inl e)
    then show ?thesis using s by (simp add: agrees_def)
  next
    case (Inr vs)
    then obtain rs1 h1 where h1: "reader_step fs op (rs, h) = Inr (rs1, h1)" "owned rs1 h1" "map (value_of h1) rs1 = vs"
      "hs_limit h1 = hs_limit h" "length rs1 \<le> length rs + opens_handle op" using s by (auto simp: agrees_def)
    have "agrees (hs_limit h1) (length rs1 + sum_list (map opens_handle ops)) (value_steps fs ops vs) (reader_steps fs ops (rs1, h1))"
      using Cons.IH [OF h1(2)] h1(3-5) Cons.prems(2) by simp
    then have "agrees (hs_limit h) ?n (value_steps fs ops vs) (reader_steps fs ops (rs1, h1))"
      using h1(4,5) by (fastforce simp: agrees_def split: sum.splits)
    then show ?thesis using Inr h1(1) by simp
  qed
qed (simp add: agrees_def)

section \<open>Properties\<close>

text \<open>
  Property C39: a query processor over some valid index files, asked any queries and destroyed, gives the answers of
  the model without handles and leaves exactly the handles open that were open before, whether words are found or
  not; this takes two descriptors for each file and one more, and with fewer the program stops in a failed check.
\<close>

theorem processor_balances_handles:
  assumes "handles_ok h" "QueryProcessor fs names validate = Inr ois"
  shows "if length (hs_open h) + 2 * length names + 1 \<le> hs_limit h
    then case ask_all srt ois qs of
        Inl e \<Rightarrow> use_processor srt fs h names validate qs = Inl e
      | Inr as \<Rightarrow> \<exists>h'. use_processor srt fs h names validate qs = Inr (as, h') \<and> hs_open h' = hs_open h
    else use_processor srt fs h names validate qs = Inl Verify333_Failed"
proof (cases "length (hs_open h) + 2 * length names + 1 \<le> hs_limit h")
  case True
  then show ?thesis using use_processor_ok [OF assms(1) True assms(2), of srt qs]
    by (auto simp: leaves_def same_open_def split: sum.splits)
next
  case False
  have "names \<noteq> []" "list_all2 (good_index fs validate) names ois"
    using assms(2) by (auto simp: QueryProcessor_def bindE_eq_Inr open_indices_good)
  then have "new_readers fs h validate names = Inl Verify333_Failed" using False by (intro new_readers_full [OF assms(1)]) simp_all
  then show ?thesis using False \<open>names \<noteq> []\<close> by (simp add: use_processor_def new_query_processor_def)
qed

lemma demo_asked:
  "\<exists>B ois. QueryProcessor [''i'' \<mapsto> B] [''i''] True = Inr ois \<and>
     ask_all rank_sort ois [[''two'']] = Inr [[\<lparr>document_name = ''a'', rank = 2\<rparr>]]"
proof -
  obtain B where "crawl_file B demo_docs" using demo_file by blast
  then have "list_all2 (\<lambda>name docs. \<exists>B'. [''i'' \<mapsto> B] name = Some B' \<and> crawl_file B' docs) [''i''] [demo_docs]" by simp
  then obtain ois where ois: "open_indices [''i'' \<mapsto> B] True [''i''] = Inr ois" "list_all2 reads_crawl ois [demo_docs]"
    using open_indices_ok by blast
  have "\<forall>docs \<in> set [demo_docs]. \<forall>w \<in> set [''two'']. no_collision docs w"
    by (simp add: no_collision_def doc_words_def demo_docs_def)
  then obtain rs where rs: "ProcessQuery rank_sort ois [''two''] = Inr rs" "right_results [demo_docs] [''two''] rs"
    using ProcessQuery_ok [OF ois(2) _ _ rank_sort, of "[''two'']"] by auto
  have "length rs = 1" "\<forall>r \<in> set rs. document_name r = ''a'' \<and> rank r = 2" using right_results_demo [of 1 rs] rs(2) by simp_all
  then have "rs = [\<lparr>document_name = ''a'', rank = 2\<rparr>]" by (auto simp: length_Suc_conv)
  then have "ask_all rank_sort ois [[''two'']] = Inr [[\<lparr>document_name = ''a'', rank = 2\<rparr>]]" using rs(1) by simp
  moreover have "QueryProcessor [''i'' \<mapsto> B] [''i''] True = Inr ois" using ois(1) by (simp add: QueryProcessor_def)
  ultimately show ?thesis by blast
qed

lemma processor_balances_handles_witness:
  "\<exists>B h'. use_processor rank_sort [''i'' \<mapsto> B] \<lparr>hs_open = [], hs_next = 0, hs_limit = 3\<rparr> [''i''] True [[''two'']] =
       Inr ([[\<lparr>document_name = ''a'', rank = 2\<rparr>]], h') \<and> hs_open h' = [] \<and>
     use_processor rank_sort [''i'' \<mapsto> B] \<lparr>hs_open = [], hs_next = 0, hs_limit = 2\<rparr> [''i''] True [[''two'']] = Inl Verify333_Failed"
proof -
  obtain B ois where B: "QueryProcessor [''i'' \<mapsto> B] [''i''] True = Inr ois"
    "ask_all rank_sort ois [[''two'']] = Inr [[\<lparr>document_name = ''a'', rank = 2\<rparr>]]" using demo_asked by blast
  have ok: "handles_ok \<lparr>hs_open = [], hs_next = 0, hs_limit = n\<rparr>" for n by (simp add: handles_ok_def)
  show ?thesis
    using processor_balances_handles [OF ok [of 3] B(1), of rank_sort "[[''two'']]"] processor_balances_handles [OF ok [of 2] B(1), of rank_sort "[[''two'']]"]
    by (auto simp del: ask_all.simps simp add: B(2))
qed

text \<open>
  Property C40: table readers behave as values although each owns a handle: from any state in which every
  reader has an open handle of its own and every open handle has an owner, any sequence of opening, copying, assigning (also to
  itself) and destroying keeps that so, uses no closed handle, and gives each reader the file and table it would have if
  readers were plain values.
\<close>

theorem readers_are_values:
  assumes "owned rs h" "length rs + sum_list (map opens_handle ops) \<le> hs_limit h"
  shows "case value_steps fs ops (map (value_of h) rs) of
      Inl e \<Rightarrow> reader_steps fs ops (rs, h) = Inl e
    | Inr vs \<Rightarrow> \<exists>rs' h'. reader_steps fs ops (rs, h) = Inr (rs', h') \<and> owned rs' h' \<and> map (value_of h') rs' = vs"
  using reader_steps_ok [OF assms, of fs] by (auto simp: agrees_def split: sum.splits)

lemma readers_are_values_witness:
  "\<exists>r h'. reader_steps [''f'' \<mapsto> [0, 0, 0, 5, 0, 0, 0, 7]] [Open_Table ''f'' 0, Open_Table ''f'' 4, Copy 1, Assign 0 2, Destroy 2, Assign 0 0, Destroy 1]
       ([], \<lparr>hs_open = [], hs_next = 0, hs_limit = 3\<rparr>) = Inr ([r], h') \<and> owned [r] h' \<and> rd_table r = \<lparr>htr_offset = 4, htr_num_buckets = 7\<rparr>"
proof -
  let ?B = "[0, 0, 0, 5, 0, 0, 0, 7] :: byte list"
  let ?ops = "[Open_Table ''f'' 0, Open_Table ''f'' 4, Copy 1, Assign 0 2, Destroy 2, Assign 0 0, Destroy 1]"
  have t: "HashTableReader ?B 0 = Inr \<lparr>htr_offset = 0, htr_num_buckets = 5\<rparr>" "HashTableReader ?B 4 = Inr \<lparr>htr_offset = 4, htr_num_buckets = 7\<rparr>"
    by code_simp+
  have v: "value_steps [''f'' \<mapsto> ?B] ?ops [] = Inr [(?B, \<lparr>htr_offset = 4, htr_num_buckets = 7\<rparr>)]"
    by (simp add: t remove_nth_def)
  have o: "owned [] \<lparr>hs_open = [], hs_next = 0, hs_limit = 3\<rparr>" by (simp add: owned_def handles_ok_def)
  have room: "length ([] :: reader list) + sum_list (map opens_handle ?ops) \<le> hs_limit \<lparr>hs_open = [], hs_next = 0, hs_limit = 3\<rparr>"
    by simp
  obtain rs' h' where "reader_steps [''f'' \<mapsto> ?B] ?ops ([], \<lparr>hs_open = [], hs_next = 0, hs_limit = 3\<rparr>) = Inr (rs', h')"
    "owned rs' h'" "map (value_of h') rs' = [(?B, \<lparr>htr_offset = 4, htr_num_buckets = 7\<rparr>)]"
    using readers_are_values [OF o room, of "[''f'' \<mapsto> ?B]"] unfolding list.map v sum.case by (elim exE conjE) (rule that)
  then show ?thesis by (auto simp: value_of_def)
qed

end
