(* ===== verification/IndexChecker.thy ===== *)
theory IndexChecker
  imports IndexReaders
begin

text \<open>
  The checker of index files in src/hw3/hw3fsck: it walks over the header and the tables of a file and prints a
  message for everything that looks wrong, but goes on.

  The messages are a list.  What the code formats into the name of a field is kept as the format and
  its arguments.  A failed \<open>assert\<close> is \<open>Assertion_Failed\<close>, which ends the program; the messages printed
  before it are not kept.  Reading an item of no bytes fails one too, since \<open>fread\<close> reports no items then.
\<close>

section \<open>Messages\<close>

datatype field = Field string "nat list"

text \<open>
  The two numbers, and whether the note on byte order is added.
\<close>

datatype complaint = Unequal field nat nat bool | Not_Less field nat nat bool | Sizes_Swapped

definition CheckEQ16 :: "16 word \<Rightarrow> 16 word \<Rightarrow> field \<Rightarrow> complaint list" where
  "CheckEQ16 expected actual fieldname =
     (if expected = actual then []
      else [Unequal fieldname (unat expected) (unat actual) (htons actual = expected)])"

definition CheckEQ32 :: "32 word \<Rightarrow> 32 word \<Rightarrow> field \<Rightarrow> complaint list" where
  "CheckEQ32 expected actual fieldname =
     (if expected = actual then []
      else [Unequal fieldname (unat expected) (unat actual) (htonl actual = expected)])"

definition CheckEQ64 :: "64 word \<Rightarrow> 64 word \<Rightarrow> field \<Rightarrow> complaint list" where
  "CheckEQ64 expected actual fieldname =
     (if expected = actual then []
      else [Unequal fieldname (unat expected) (unat actual) (ntohll actual = expected)])"

definition CheckLT16 :: "16 word \<Rightarrow> 16 word \<Rightarrow> field \<Rightarrow> complaint list" where
  "CheckLT16 smaller bigger fieldname =
     (if smaller < bigger then []
      else [Not_Less fieldname (unat smaller) (unat bigger) (htons smaller < bigger)])"

definition CheckLT32 :: "32 word \<Rightarrow> 32 word \<Rightarrow> field \<Rightarrow> complaint list" where
  "CheckLT32 smaller bigger fieldname =
     (if smaller < bigger then []
      else [Not_Less fieldname (unat smaller) (unat bigger) (htonl smaller < bigger)])"

definition CheckLT64 :: "64 word \<Rightarrow> 64 word \<Rightarrow> field \<Rightarrow> complaint list" where
  "CheckLT64 smaller bigger fieldname =
     (if smaller < bigger then []
      else [Not_Less fieldname (unat smaller) (unat bigger) (ntohll smaller < bigger)])"

section \<open>Tables\<close>

definition read_item :: "byte list \<Rightarrow> nat \<Rightarrow> nat \<Rightarrow> byte list res" where
  "read_item B pos n =
     (if n = 0 then Inl Assertion_Failed
      else case fread B pos n of None \<Rightarrow> Inl Assertion_Failed | Some bs \<Rightarrow> Inr bs)"

text \<open>\<open>CheckElement\<close> of a derived class gets the number of buckets, the offset and the bucket.\<close>

type_synonym check_element = "32 word \<Rightarrow> 32 word \<Rightarrow> 32 word \<Rightarrow> complaint list res"

text \<open>The loop over the elements of a bucket from index \<open>j\<close> on; \<open>n\<close> are left.\<close>

fun check_chain ::
  "nat \<Rightarrow> nat \<Rightarrow> byte list \<Rightarrow> check_element \<Rightarrow> 32 word \<Rightarrow> 32 word \<Rightarrow> 32 word \<Rightarrow> 32 word \<Rightarrow> complaint list res" where
  "check_chain 0 j B CheckElement numBuckets tableEnd curBucket i = Inr []"
| "check_chain (Suc n) j B CheckElement numBuckets tableEnd curBucket i =
     bindE (read_item B (unat (curBucket + of_nat j * 4)) 4) (\<lambda>bs.
     let elementPos = host32 bs in
     bindE (CheckElement numBuckets elementPos i) (\<lambda>ms.
     bindE (check_chain n (Suc j) B CheckElement numBuckets tableEnd curBucket i) (\<lambda>ms'.
     Inr (CheckLT32 elementPos (tableEnd + 1) (Field ''bucket[%d].element[%d].position < table_end+1'' [unat i, j]) @
       ms @ ms'))))"

text \<open>
  The loop over the buckets from \<open>i\<close> on; \<open>n\<close> are left.  \<open>prev\<close> is \<open>prevBucket\<close> once a non-empty bucket
  was found.
\<close>

fun check_buckets ::
  "nat \<Rightarrow> 32 word \<Rightarrow> byte list \<Rightarrow> check_element \<Rightarrow> 32 word \<Rightarrow> 32 word \<Rightarrow> 32 word \<Rightarrow> 32 word option \<Rightarrow>
   complaint list res" where
  "check_buckets 0 i B CheckElement numBuckets offset tableEnd prev = Inr []"
| "check_buckets (Suc n) i B CheckElement numBuckets offset tableEnd prev =
     (let rec = offset + 4 + 8 * i in
      bindE (read_item B (unat rec) 4) (\<lambda>bs.
      bindE (read_item B (unat rec + 4) 4) (\<lambda>bs'.
      let curChainLen = host32 bs; curBucket = host32 bs' in
      bindE
        (case prev of
           Some prevBucket \<Rightarrow>
             if 0 < curChainLen then
               Inr (CheckLT32 prevBucket curBucket
                      (Field ''bucket_rec[%d].position < bucket_rec[%d].position'' [unat i, unat (i + 1)]), Some curBucket)
             else Inr ([], prev)
         | None \<Rightarrow>
             if 0 < curChainLen then
               bindE (read_item B (unat (offset + 4)) 4) (\<lambda>_.
               bindE (read_item B (unat (offset + 4) + 4) 4) (\<lambda>bs.
               let prevBucket = host32 bs in
               Inr (CheckEQ32 (offset + 4 + 8 * numBuckets) prevBucket
                      (Field ''position of the first non-empty bucket (expected to be (table start) + (4) + (8*num_buckets))'' []), Some prevBucket)))
             else Inr ([], None)) (\<lambda>(ms, prev).
      bindE (check_chain (unat curChainLen) 0 B CheckElement numBuckets tableEnd curBucket i) (\<lambda>ms'.
      bindE (check_buckets n (i + 1) B CheckElement numBuckets offset tableEnd prev) (\<lambda>ms''.
      Inr (ms @ CheckLT32 curBucket (tableEnd + 1) (Field ''bucket_rec[%d].position < table_end+1'' [unat i]) @
        ms' @ ms'')))))))"

definition HashTableChecker_Check ::
  "byte list \<Rightarrow> check_element \<Rightarrow> 32 word \<Rightarrow> 32 word \<Rightarrow> complaint list res" where
  "HashTableChecker_Check B CheckElement offset len =
     bindE (read_item B (unat offset) 4) (\<lambda>bs.
     let numBuckets = host32 bs in
     bindE (check_buckets (unat numBuckets) 0 B CheckElement numBuckets offset (offset + len) None) (\<lambda>ms.
     Inr (CheckLT32 (numBuckets * 8) len (Field ''num_buckets < len(table)'' []) @ ms)))"

section \<open>Elements\<close>

definition isascii :: "byte \<Rightarrow> bool" where
  "isascii b \<longleftrightarrow> b < 128"

definition DocTable_CheckElement :: "byte list \<Rightarrow> check_element" where
  "DocTable_CheckElement B numBuckets elementOffset bucketNumber =
     bindE (read_item B (unat elementOffset) 8) (\<lambda>bs.
     let docID = host64 bs in
     bindE (read_item B (unat elementOffset + 8) 2) (\<lambda>bs.
     let fnlen = host16 bs in
     bindE (read_item B (unat elementOffset + 10) (unat fnlen)) (\<lambda>filename.
     Inr (CheckEQ32 bucketNumber (ucast (docID mod ucast numBuckets))
            (Field ''[DocTable] DocID % numBuckets_ == bucket_number'' []) @
          CheckLT16 fnlen 1024 (Field ''[DocTable] filename length'' []) @
          concat (map (\<lambda>i. CheckEQ16 1 (if isascii (filename ! i) then 1 else 0)
            (Field ''[DocTable] isascii(filename)[%d]'' [i])) [0..<unat fnlen])))))"

text \<open>The loop over the positions; \<open>prev\<close> is the position before.\<close>

fun check_positions :: "nat \<Rightarrow> byte list \<Rightarrow> nat \<Rightarrow> 32 word option \<Rightarrow> complaint list res" where
  "check_positions 0 B pos prev = Inr []"
| "check_positions (Suc n) B pos prev =
     bindE (read_item B pos 4) (\<lambda>bs.
     let curPos = host32 bs in
     bindE (check_positions n B (pos + 4) (Some curPos)) (\<lambda>ms.
     Inr ((case prev of None \<Rightarrow> []
           | Some prevPos \<Rightarrow> CheckLT32 prevPos curPos (Field ''word position[i] < word position[i+1]'' [])) @ ms)))"

definition DocIDTable_CheckElement :: "byte list \<Rightarrow> check_element" where
  "DocIDTable_CheckElement B numBuckets elementOffset bucketNumber =
     bindE (read_item B (unat elementOffset) 8) (\<lambda>bs.
     let docID = host64 bs in
     bindE (read_item B (unat elementOffset + 8) 4) (\<lambda>bs.
     let numPos = host32 bs in
     bindE (check_positions (unat numPos) B (unat elementOffset + 12) None) (\<lambda>ms.
     Inr (CheckEQ64 (ucast bucketNumber) (ucast (ucast (docID mod ucast numBuckets) :: 32 word))
            (Field ''[DocID table] DocID % numBuckets_ == bucket_number'' []) @
          CheckLT32 numPos 1000000 (Field ''[DocID table] num_positions'' []) @ ms))))"

text \<open>The checks of one character of a word; in the C locale only the letters of ASCII are letters.\<close>

definition check_letter :: "32 word \<Rightarrow> nat \<Rightarrow> byte \<Rightarrow> complaint list" where
  "check_letter bucketNumber i c =
     CheckEQ16 1 (if isascii c then 1 else 0) (Field ''[IndexTable] isascii(word)[%d] in bucket[%d]'' [i, unat bucketNumber]) @
     (if \<not> (65 \<le> c \<and> c \<le> 90 \<or> 97 \<le> c \<and> c \<le> 122) then []
      else CheckEQ16 1 (if 97 \<le> c \<and> c \<le> 122 then 1 else 0)
        (Field ''[IndexTable] islower(word)[%d] in bucket[%d]'' [i, unat bucketNumber]))"

definition IndexTable_CheckElement :: "byte list \<Rightarrow> 32 word \<Rightarrow> 32 word \<Rightarrow> check_element" where
  "IndexTable_CheckElement B offset len numBuckets elementOffset bucketNumber =
     bindE (read_item B (unat elementOffset) 2) (\<lambda>bs.
     let wordLen = host16 bs in
     bindE (read_item B (unat elementOffset + 2) 4) (\<lambda>bs.
     let docIDTableLen = host32 bs in
     bindE (read_item B (unat elementOffset + 6) (unat wordLen)) (\<lambda>word.
     bindE (HashTableChecker_Check B (DocIDTable_CheckElement B) (elementOffset + 2 + 4 + ucast wordLen) docIDTableLen) (\<lambda>ms.
     Inr (CheckLT16 wordLen 8192 (Field ''[IndexTable] unreasonably long word in bucket[%d]'' [unat bucketNumber]) @
          CheckLT32 (elementOffset + 2 + 4 + ucast wordLen) (offset + len)
            (Field ''[IndexTable] element_end < indextable_end in bucket[%d]'' [unat bucketNumber]) @
          concat (map (\<lambda>i. check_letter bucketNumber i (word ! i)) [0..<unat wordLen]) @ ms)))))"

section \<open>The file\<close>

text \<open>
  The loop of the checksum.  Every round reads a byte or fails the assertion, so the length of the file
  bounds them.
\<close>

fun recalculate_loop :: "nat \<Rightarrow> byte list \<Rightarrow> nat \<Rightarrow> 32 word \<Rightarrow> crc32 \<Rightarrow> crc32 res" where
  "recalculate_loop fuel B pos bytesLeft crc =
     (if bytesLeft = 0 then Inr crc
      else case fuel of
        0 \<Rightarrow> Inl Out_Of_Fuel
      | Suc fuel \<Rightarrow>
          let buf = take 512 (drop pos B) in
          if buf = [] then Inl Assertion_Failed
          else
            bindE (fold_bytes crc buf) (\<lambda>crc.
            recalculate_loop fuel B (pos + length buf) (bytesLeft - of_nat (length buf)) crc))"

declare recalculate_loop.simps [simp del]

definition FileIndexChecker :: "byte list \<Rightarrow> complaint list res" where
  "FileIndexChecker B =
     bindE (read_item B 0 4) (\<lambda>magic.
     bindE (read_item B 4 4) (\<lambda>checksum.
     bindE (read_item B 8 4) (\<lambda>doct.
     bindE (read_item B 12 4) (\<lambda>index.
     let magicNumber = host32 magic; checksum = host32 checksum; doctableSize = host32 doct; indexSize = host32 index;
         bytesLeft = of_nat (length B) - 16
     in
     bindE (recalculate_loop (length B) B 16 bytesLeft new_crc32) (\<lambda>crc.
     bindE (HashTableChecker_Check B (DocTable_CheckElement B) 16 doctableSize) (\<lambda>docs.
     bindE (HashTableChecker_Check B (IndexTable_CheckElement B (16 + doctableSize) indexSize) (16 + doctableSize) indexSize) (\<lambda>words.
     Inr (CheckEQ32 MAGIC_NUMBER magicNumber (Field ''magic number'' []) @
          CheckEQ32 bytesLeft (doctableSize + indexSize) (Field ''doctable_size + index_size'' []) @
          (if htonl doctableSize + htonl indexSize = bytesLeft then [Sizes_Swapped] else []) @
          CheckEQ32 (fst (GetFinalCRC crc)) checksum (Field ''checksum'' []) @ docs @ words))))))))"

text \<open>The exit status is 0 whatever the checker has found.\<close>

definition hw3fsck_main :: "(string \<Rightarrow> byte list option) \<Rightarrow> string list \<Rightarrow> (int \<times> complaint list) res" where
  "hw3fsck_main fs argv =
     (case argv of
        _ # indexfile # _ \<Rightarrow>
          (case fs indexfile of
             None \<Rightarrow> Inl Assertion_Failed
           | Some B \<Rightarrow> bindE (FileIndexChecker B) (\<lambda>ms. Inr (0, ms)))
      | _ \<Rightarrow> Inl Exit_Failure)"

end
