(* ===== verification/IndexCheckerSpec.thy ===== *)
theory IndexCheckerSpec
  imports IndexChecker BuildFileIndexSpec
begin

text \<open>
  The checker and the writer agree: a file written from a crawl gives no message, and a file that gives none
  is accepted by the reader.
\<close>

section \<open>Reading\<close>

lemma read_item_has: "has_bytes B pos bs \<Longrightarrow> length bs = n \<Longrightarrow> 0 < n \<Longrightarrow> read_item B pos n = Inr bs"
  by (simp add: read_item_def fread_has)

lemma read_parts:
  assumes "has_bytes B pos bs" "n + k \<le> length bs" "0 < k"
  shows "read_item B (pos + n) k = Inr (take k (drop n bs))"
proof -
  have "has_bytes B pos (take n bs @ take k (drop n bs) @ drop (n + k) bs)"
    using assms(1) by (metis append_take_drop_id drop_drop add.commute)
  then have "has_bytes B (pos + length (take n bs)) (take k (drop n bs))" unfolding has_bytes_append by blast
  then show ?thesis using assms(2,3) by (intro read_item_has) (auto simp: min_def)
qed

lemma CheckLT32_ok: "a < b \<Longrightarrow> b < 2 ^ 32 \<Longrightarrow> CheckLT32 (of_nat a) (of_nat b) f = []"
  by (simp add: CheckLT32_def word_less_nat_alt unat_of_nat32)

section \<open>Tables\<close>

lemma check_chain_ok:
  "els_at el sz B (cur + 4 * j) pos kvs \<Longrightarrow>
   \<forall>kv \<in> set kvs. 0 < sz kv \<and> (\<forall>p. el B p kv \<and> p + sz kv \<le> E \<longrightarrow> ce nb (of_nat p) i = Inr []) \<Longrightarrow>
   pos + sum_list (map sz kvs) \<le> E \<Longrightarrow> cur + 4 * j + 4 * length kvs \<le> E \<Longrightarrow> E + 1 < 2 ^ 32 \<Longrightarrow>
   check_chain (length kvs) j B ce nb (of_nat E) (of_nat cur) i = Inr []"
proof (induction kvs arbitrary: j pos)
  case (Cons kv kvs)
  have h: "has_bytes B (cur + 4 * j) (element_position_rec_disk (of_nat pos))" "el B pos kv"
    "els_at el sz B (cur + 4 * j + 4) (pos + sz kv) kvs" using Cons.prems(1) by simp_all
  have s: "cur + 4 * j + 4 = cur + 4 * Suc j" by simp
  have "cur + 4 * j < 2 ^ 32" using Cons.prems(4,5) by simp
  then have u: "unat (of_nat cur + of_nat j * 4 :: 32 word) = cur + 4 * j"
    using unat_of_nat32 [of "cur + 4 * j"] by (simp add: mult.commute)
  have 1: "read_item B (unat (of_nat cur + of_nat j * 4 :: 32 word)) 4 = Inr (element_position_rec_disk (of_nat pos))"
    unfolding u using h(1) by (rule read_item_has) simp_all
  have 2: "ce nb (of_nat pos) i = Inr []" using Cons.prems(2,3) h(2) by simp
  have 3: "check_chain (length kvs) (Suc j) B ce nb (of_nat E) (of_nat cur) i = Inr []"
    by (rule Cons.IH [OF h(3) [unfolded s]]) (use Cons.prems in auto)
  have 4: "CheckLT32 (of_nat pos) (of_nat E + 1) f = []" for f
    using CheckLT32_ok [of pos "E + 1"] Cons.prems(3,5) by (simp add: add.commute)
  show ?case unfolding list.size add_0_right add_Suc_right check_chain.simps 1 bindE_Inr Let_def rec_fields 2 3
    by (simp add: 4)
qed simp

text \<open>What the loop knows of the buckets it has seen: nothing but empty ones, or where the last one began.\<close>

definition seen :: "nat \<Rightarrow> nat \<Rightarrow> 32 word option \<Rightarrow> bool" where
  "seen start pos prev \<longleftrightarrow> (case prev of None \<Rightarrow> pos = start | Some q \<Rightarrow> unat q < pos)"

lemma check_buckets_ok:
  assumes E: "E + 1 < 2 ^ 32" and N: "off + 4 + 8 * N \<le> E" and first: "has_bytes B (off + 4) (bucket_rec_disk c (of_nat (off + 4 + 8 * N)))"
  shows "buckets_at el sz B (off + 4 + 8 * k) pos bs \<Longrightarrow>
    \<forall>i < length bs. \<forall>kv \<in> set (bs ! i). 0 < sz kv \<and>
      (\<forall>p. el B p kv \<and> p + sz kv \<le> E \<longrightarrow> ce (of_nat N) (of_nat p) (of_nat (k + i)) = Inr []) \<Longrightarrow>
    pos + sum_list (map (bucket_size sz) bs) \<le> E \<Longrightarrow> k + length bs \<le> N \<Longrightarrow> seen (off + 4 + 8 * N) pos prev \<Longrightarrow>
    check_buckets (length bs) (of_nat k) B ce (of_nat N) (of_nat off) (of_nat E) prev = Inr []"
proof (induction bs arbitrary: k pos prev)
  case (Cons kvs bs)
  let ?rec = "bucket_rec_disk (of_nat (length kvs)) (of_nat pos)"
  have h: "has_bytes B (off + 4 + 8 * k) ?rec" "els_at el sz B pos (pos + 4 * length kvs) kvs"
    "buckets_at el sz B (off + 4 + 8 * k + 8) (pos + bucket_size sz kvs) bs" using Cons.prems(1) by simp_all
  have s: "off + 4 + 8 * k + 8 = off + 4 + 8 * Suc k" by simp
  have "off + 4 + 8 * k < 2 ^ 32" using Cons.prems(4) N E by simp
  then have u: "unat (of_nat off + 4 + 8 * of_nat k :: 32 word) = off + 4 + 8 * k"
    using unat_of_nat32 [of "off + 4 + 8 * k"] by simp
  have r1: "read_item B (off + 4 + 8 * k) 4 = Inr (take 4 ?rec)" using read_parts [OF h(1), of 0 4] by simp
  have r2: "read_item B (off + 4 + 8 * k + 4) 4 = Inr (drop 4 ?rec)" using read_parts [OF h(1), of 4 4] by simp
  have small: "pos + bucket_size sz kvs \<le> E" using Cons.prems(3) by simp
  then have len: "unat (of_nat (length kvs) :: 32 word) = length kvs" using E by (intro unat_of_nat32) (simp add: bucket_size_def)
  have chain: "check_chain (length kvs) 0 B ce (of_nat N) (of_nat E) (of_nat pos) (of_nat k) = Inr []"
    by (rule check_chain_ok [where pos = "pos + 4 * length kvs" and el = el and sz = sz])
      (use h(2) small E Cons.prems(2) in \<open>force simp: bucket_size_def\<close>)+
  have lt: "CheckLT32 (of_nat pos) (of_nat E + 1) f = []" for f
    using CheckLT32_ok [of pos "E + 1"] small E by (simp add: add.commute)
  define prev' where "prev' = (if kvs = [] then prev else case prev of None \<Rightarrow> Some (of_nat (off + 4 + 8 * N)) | Some q \<Rightarrow> Some (of_nat pos))"
  have "off + 4 < 2 ^ 32" using N E by simp
  then have u4: "unat (of_nat off + 4 :: 32 word) = off + 4" using unat_of_nat32 [of "off + 4"] by simp
  have f1: "read_item B (off + 4) 4 = Inr (take 4 (bucket_rec_disk c (of_nat (off + 4 + 8 * N))))"
    using read_parts [OF first, of 0 4] by simp
  have f2: "read_item B (8 + off) 4 = Inr (drop 4 (bucket_rec_disk c (of_nat (off + 4 + 8 * N))))"
    using read_parts [OF first, of 4 4] by (simp add: add.commute)
  have pos: "(0 < (of_nat (length kvs) :: 32 word)) = (kvs \<noteq> [])" using len by (simp add: word_less_nat_alt)
  have step: "(case prev of
           Some prevBucket \<Rightarrow>
             if 0 < (of_nat (length kvs) :: 32 word) then
               Inr (CheckLT32 prevBucket (of_nat pos) g, Some (of_nat pos))
             else Inr ([], prev)
         | None \<Rightarrow>
             if 0 < (of_nat (length kvs) :: 32 word) then
               bindE (read_item B (unat (of_nat off + 4 :: 32 word)) 4) (\<lambda>_.
               bindE (read_item B (unat (of_nat off + 4 :: 32 word) + 4) 4) (\<lambda>bs.
               Inr (CheckEQ32 (of_nat off + 4 + 8 * of_nat N) (host32 bs) g', Some (host32 bs))))
             else Inr ([], None)) = Inr ([], prev')" for g g'
  proof (cases prev)
    case None
    then show ?thesis by (simp add: pos u4 f1 f2 rec_fields prev'_def CheckEQ32_def)
  next
    case (Some q)
    then have "unat q < pos" using Cons.prems(5) by (simp add: seen_def)
    then have "CheckLT32 q (of_nat pos) g = []" using CheckLT32_ok [of "unat q" pos g] small E by simp
    then show ?thesis using Some by (simp add: pos prev'_def)
  qed
  have "seen (off + 4 + 8 * N) (pos + bucket_size sz kvs) prev'"
  proof (cases "kvs = []")
    case True
    then show ?thesis using Cons.prems(5) by (simp add: prev'_def bucket_size_def)
  next
    case False
    have "unat (of_nat pos :: 32 word) = pos" "unat (of_nat (off + 4 + 8 * N) :: 32 word) = off + 4 + 8 * N"
      using small N E by (simp_all add: unat_of_nat32 del: of_nat_add of_nat_mult)
    moreover have "0 < bucket_size sz kvs" using False by (simp add: bucket_size_def)
    ultimately show ?thesis using False Cons.prems(5) by (auto simp: prev'_def seen_def split: option.splits)
  qed
  then have rest: "check_buckets (length bs) (of_nat (Suc k)) B ce (of_nat N) (of_nat off) (of_nat E) prev' = Inr []"
    using Cons.IH [OF h(3) [unfolded s], of prev'] Cons.prems(2-4) by fastforce
  then have rest': "check_buckets (length bs) (of_nat k + 1) B ce (of_nat N) (of_nat off) (of_nat E) prev' = Inr []"
    by (simp add: add.commute)
  show ?case
    unfolding list.size add_0_right add_Suc_right check_buckets.simps Let_def u r1 r2 bindE_Inr rec_fields step prod.case len chain
    using rest' by (simp add: lt)
qed simp

lemma Check_ok:
  assumes t: "table_at el sz B off bs" and room: "off + table_size sz bs + 1 < 2 ^ 32"
    and elem: "\<forall>i < length bs. \<forall>kv \<in> set (bs ! i). 0 < sz kv \<and>
      (\<forall>p. el B p kv \<and> p + sz kv \<le> off + table_size sz bs \<longrightarrow> ce (of_nat (length bs)) (of_nat p) (of_nat i) = Inr [])"
  shows "HashTableChecker_Check B ce (of_nat off) (of_nat (table_size sz bs)) = Inr []"
proof -
  let ?N = "length bs" and ?size = "table_size sz bs"
  have hd: "has_bytes B off (bucket_list_header_disk (of_nat ?N))" and
    b: "buckets_at el sz B (off + 4) (off + 4 + 8 * ?N) bs" using t by (simp_all add: table_at_def)
  have u: "unat (of_nat off :: 32 word) = off" "unat (of_nat ?N :: 32 word) = ?N"
    using room by (simp_all add: unat_of_nat32 table_size_def)
  have r: "read_item B off 4 = Inr (bucket_list_header_disk (of_nat ?N))" using hd by (rule read_item_has) simp_all
  have "check_buckets ?N (of_nat 0) B ce (of_nat ?N) (of_nat off) (of_nat (off + ?size)) None = Inr []"
  proof (cases "bs = []")
    case False
    then obtain kvs bs' where bs: "bs = kvs # bs'" by (cases bs) auto
    have first: "has_bytes B (off + 4) (bucket_rec_disk (of_nat (length kvs)) (of_nat (off + 4 + 8 * ?N)))"
      using b by (simp add: bs)
    show ?thesis
      by (rule check_buckets_ok [OF room _ first, where el = el and sz = sz and k = 0 and pos = "off + 4 + 8 * ?N"])
        (use b elem in \<open>simp_all add: seen_def table_size_def\<close>)
  qed simp
  then have run: "check_buckets ?N 0 B ce (of_nat ?N) (of_nat off) (of_nat off + of_nat ?size) None = Inr []" by simp
  have "8 * ?N < ?size" by (simp add: table_size_def)
  then have "CheckLT32 (of_nat ?N * 8) (of_nat ?size) f = []" for f
    using CheckLT32_ok [of "8 * ?N" ?size] room by (simp add: mult.commute)
  then show ?thesis by (simp add: HashTableChecker_Check_def u r rec_fields run)
qed

text \<open>The entries of a table in memory are in the buckets of their keys.\<close>

lemma chain_entry:
  assumes "ht_inv t" "i < length (chains t)" "kv \<in> set (chains t ! i)"
  shows "kv \<in> set (ht_entries t)" "unat (kv_key kv) mod length (chains t) = i" "0 < length (chains t)"
    "length (chains t) < 2 ^ 32"
proof -
  have n: "length (chains t) = length (ht_buckets t)" "length (ht_buckets t) = unat (ht_num_buckets t)"
    "chains t ! i = ll_list (ht_buckets t ! i)" using assms by (simp_all add: chains_def ht_inv_def)
  have "chain_ok (unat (ht_num_buckets t)) i (ht_buckets t ! i)" using assms n by (simp add: ht_inv_def)
  then show "unat (kv_key kv) mod length (chains t) = i" using assms(3) n by (simp add: chain_ok_def)
  show "kv \<in> set (ht_entries t)" using assms(2,3) n by (auto simp: ht_entries_def)
  show "0 < length (chains t)" using assms(2) by linarith
  show "length (chains t) < 2 ^ 32" unfolding n(1,2) using unsigned_less [of "ht_num_buckets t"] by simp
qed

text \<open>
  What is asked of the \<open>CheckElement\<close> of a derived class for the whole table to pass: it has nothing against a
  good element that ends at \<open>E\<close> at the latest and is in the bucket of its key.
\<close>

locale element_checker =
  fixes B :: "byte list" and E :: nat and CheckElement :: check_element
    and at :: "byte list \<Rightarrow> nat \<Rightarrow> 'v ht_kv \<Rightarrow> bool" and sz :: "'v ht_kv \<Rightarrow> nat" and good :: "'v ht_kv \<Rightarrow> bool"
  assumes good_size: "good kv \<Longrightarrow> 0 < sz kv"
    and good_element: "good kv \<Longrightarrow> at B p kv \<Longrightarrow> p + sz kv \<le> E \<Longrightarrow> E + 1 < 2 ^ 32 \<Longrightarrow>
      unat (kv_key kv) mod N = i \<Longrightarrow> 0 < N \<Longrightarrow> N < 2 ^ 32 \<Longrightarrow> CheckElement (of_nat N) (of_nat p) (of_nat i) = Inr []"
begin

lemma good_table:
  assumes t: "ht_inv t" "\<forall>kv \<in> set (ht_entries t). good kv" "table_at at sz B off (chains t)"
    and E: "off + table_size sz (chains t) = E" "E + 1 < 2 ^ 32"
  shows "HashTableChecker_Check B CheckElement (of_nat off) (of_nat (table_size sz (chains t))) = Inr []"
proof (rule Check_ok [OF t(3)], goal_cases)
  case 1
  then show ?case using E by simp
next
  case 2
  have "0 < sz kv \<and> (\<forall>p. at B p kv \<and> p + sz kv \<le> E \<longrightarrow> CheckElement (of_nat (length (chains t))) (of_nat p) (of_nat i) = Inr [])"
    if "i < length (chains t)" "kv \<in> set (chains t ! i)" for i kv
    using good_size good_element [OF _ _ _ E(2)] chain_entry [OF t(1) that] t(2) by blast
  then show ?case unfolding E(1) by blast
qed

end

section \<open>Elements\<close>

text \<open>A key in the bucket it hashes to.\<close>

lemma bucket_word:
  assumes "unat (key :: 64 word) mod N = i" "0 < N" "N < 2 ^ 32"
  shows "(ucast (key mod ucast (of_nat N :: 32 word)) :: 32 word) = of_nat i"
proof -
  have n: "unat (ucast (of_nat N :: 32 word) :: 64 word) = N"
    using assms(3) by (simp add: unsigned_ucast_eq unat_of_nat32 take_bit_nat_eq_self unsigned_of_nat)
  have "unat (key mod ucast (of_nat N :: 32 word)) = i" using assms(1) n by (simp only: unat_mod)
  then have "(of_nat (unat (key mod ucast (of_nat N :: 32 word))) :: 32 word) = of_nat i" by (simp only:)
  then show ?thesis by simp
qed

definition ascii :: "string \<Rightarrow> bool" where
  "ascii s \<longleftrightarrow> (\<forall>c \<in> set s. (of_char c :: nat) < 128)"

lemma unat_of_char: "unat (of_char c :: byte) = of_char c"
  by (simp add: of_char_def unat_word_ariths)

lemma ascii_bytes: "ascii s \<Longrightarrow> i < length s \<Longrightarrow> isascii (bytes_of s ! i)"
  by (simp add: ascii_def isascii_def bytes_of_def word_less_nat_alt unat_of_char)

lemma name_checked:
  assumes at: "name_at B p kv" and good: "name_good kv" and p: "p + name_size kv < 2 ^ 32"
    and n: "length (kv_value kv) < 1024" "ascii (kv_value kv)"
    and i: "unat (kv_key kv) mod N = i" "0 < N" "N < 2 ^ 32"
  shows "DocTable_CheckElement B (of_nat N) (of_nat p) (of_nat i) = Inr []"
proof -
  let ?n = "kv_value kv"
  let ?hd = "doctable_element_header_disk (kv_key kv) (of_nat (length ?n))"
  have h: "has_bytes B p ?hd" "has_bytes B (p + 10) (bytes_of ?n)" using at by (simp_all add: name_at_def has_bytes_append)
  have u: "unat (of_nat p :: 32 word) = p" "unat (of_nat (length ?n) :: 16 word) = length ?n"
    using p n(1) by (simp_all add: unat_of_nat32 unat_of_nat16)
  have 1: "read_item B p 8 = Inr (take 8 ?hd)" "read_item B (p + 8) 2 = Inr (drop 8 ?hd)"
    using read_parts [OF h(1), of 0 8] read_parts [OF h(1), of 8 2] by simp_all
  have "length (bytes_of ?n) = length ?n" "0 < length ?n" using good by (simp_all add: bytes_of_def name_good_def)
  then have 2: "read_item B (p + 10) (length ?n) = Inr (bytes_of ?n)" using h(2) by (intro read_item_has) simp_all
  have 3: "CheckLT16 (of_nat (length ?n)) 1024 f = []" for f
    using n(1) by (simp add: CheckLT16_def word_less_nat_alt u(2))
  have 4: "concat (map (\<lambda>i. CheckEQ16 1 (if isascii (bytes_of ?n ! i) then 1 else 0) (f i)) [0..<length ?n]) = []" for f
    using ascii_bytes [OF n(2)] by (simp add: CheckEQ16_def)
  show ?thesis unfolding DocTable_CheckElement_def u 1 bindE_Inr Let_def rec_fields 2 4 bucket_word [OF i]
    by (simp add: 3 CheckEQ32_def)
qed

definition name_checkable :: "string ht_kv \<Rightarrow> bool" where
  "name_checkable kv \<longleftrightarrow> name_good kv \<and> length (kv_value kv) < 1024 \<and> ascii (kv_value kv)"

interpretation checked_names: element_checker B E "DocTable_CheckElement B" name_at name_size name_checkable for B E
  by unfold_locales (auto simp: name_checkable_def name_size_def intro: name_checked)

lemma check_positions_ok:
  "has_bytes B pos (concat (map docid_element_position_disk qs)) \<Longrightarrow> sorted_wrt (<) qs \<Longrightarrow>
   (case prev of None \<Rightarrow> True | Some q \<Rightarrow> \<forall>x \<in> set qs. q < x) \<Longrightarrow>
   check_positions (length qs) B pos prev = Inr []"
proof (induction qs arbitrary: pos prev)
  case (Cons q qs)
  have h: "has_bytes B pos (docid_element_position_disk q)" "has_bytes B (pos + 4) (concat (map docid_element_position_disk qs))"
    using Cons.prems(1) by (simp_all add: has_bytes_append)
  have 1: "read_item B pos 4 = Inr (docid_element_position_disk q)" using h(1) by (rule read_item_has) simp_all
  have 2: "check_positions (length qs) B (pos + 4) (Some q) = Inr []" using Cons.IH [OF h(2), of "Some q"] Cons.prems(2) by simp
  show ?case using Cons.prems(3) by (cases prev) (simp_all add: 1 rec_fields 2 CheckLT32_def)
qed simp

lemma posting_checked:
  assumes at: "posting_at B p kv" and good: "posting_good kv" and p: "p + posting_size kv < 2 ^ 32"
    and q: "sorted_wrt (<) (ll_list (kv_value kv))" "length (ll_list (kv_value kv)) < 1000000"
    and i: "unat (kv_key kv) mod N = i" "0 < N" "N < 2 ^ 32"
  shows "DocIDTable_CheckElement B (of_nat N) (of_nat p) (of_nat i) = Inr []"
proof -
  let ?qs = "ll_list (kv_value kv)"
  let ?hd = "docid_element_header_disk (kv_key kv) (of_nat (length ?qs))"
  have h: "has_bytes B p ?hd" "has_bytes B (p + 12) (concat (map docid_element_position_disk ?qs))"
    using at by (simp_all add: posting_at_def has_bytes_append)
  have u: "unat (of_nat p :: 32 word) = p" "unat (of_nat (length ?qs) :: 32 word) = length ?qs"
    using p q(2) by (simp_all add: unat_of_nat32)
  have 1: "read_item B p 8 = Inr (take 8 ?hd)" "read_item B (p + 8) 4 = Inr (drop 8 ?hd)"
    using read_parts [OF h(1), of 0 8] read_parts [OF h(1), of 8 4] by simp_all
  have 2: "check_positions (length ?qs) B (p + 12) None = Inr []" using check_positions_ok [OF h(2) q(1), of None] by simp
  have 3: "CheckLT32 (of_nat (length ?qs)) 1000000 f = []" for f
    using q(2) by (simp add: CheckLT32_def word_less_nat_alt u(2))
  show ?thesis unfolding DocIDTable_CheckElement_def u 1 bindE_Inr Let_def rec_fields 2 bucket_word [OF i]
    by (simp add: u 2 3 CheckEQ64_def)
qed

definition posting_checkable :: "DocPositionOffset_t linked_list ht_kv \<Rightarrow> bool" where
  "posting_checkable kv \<longleftrightarrow>
     posting_good kv \<and> sorted_wrt (<) (ll_list (kv_value kv)) \<and> length (ll_list (kv_value kv)) < 1000000"

interpretation checked_postings: element_checker B E "DocIDTable_CheckElement B" posting_at posting_size posting_checkable for B E
  by unfold_locales (auto simp: posting_checkable_def posting_size_def intro: posting_checked)

definition lower :: "string \<Rightarrow> bool" where
  "lower s \<longleftrightarrow> (\<forall>c \<in> set s. 97 \<le> (of_char c :: nat) \<and> (of_char c :: nat) \<le> 122)"

lemma letter_checked: "lower s \<Longrightarrow> i < length s \<Longrightarrow> check_letter b i (bytes_of s ! i) = []"
proof -
  assume "lower s" "i < length s"
  then have "97 \<le> (of_char (s ! i) :: nat)" "(of_char (s ! i) :: nat) \<le> 122" by (simp_all add: lower_def)
  moreover have "unat (bytes_of s ! i) = of_char (s ! i)" using \<open>i < length s\<close> by (simp add: bytes_of_def unat_of_char)
  ultimately have "97 \<le> bytes_of s ! i" "bytes_of s ! i \<le> 122" "isascii (bytes_of s ! i)"
    by (simp_all add: word_le_nat_alt word_less_nat_alt isascii_def)
  then show ?thesis by (simp add: check_letter_def CheckEQ16_def)
qed

text \<open>What the checker asks of a word and the lists of its positions.\<close>

definition set_checkable :: "word_doc_set \<Rightarrow> bool" where
  "set_checkable wds \<longleftrightarrow> length (wds_word wds) < 8192 \<and> lower (wds_word wds) \<and>
     (\<forall>kv \<in> set (ht_entries (wds_docIDs wds)).
        sorted_wrt (<) (ll_list (kv_value kv)) \<and> length (ll_list (kv_value kv)) < 1000000)"

lemma word_checked:
  assumes at: "set_at B p wds" and good: "set_good wds" and ok: "set_checkable wds"
    and E: "p + set_size wds \<le> E" "E + 1 < 2 ^ 32" "offset + len = of_nat E"
  shows "IndexTable_CheckElement B offset len N (of_nat p) i = Inr []"
proof -
  let ?w = "wds_word wds" and ?t = "wds_docIDs wds"
  let ?size = "table_size posting_size (chains ?t)"
  let ?hd = "worddocset_header_disk (of_nat (length ?w)) (of_nat ?size)"
  have h: "has_bytes B p ?hd" "has_bytes B (p + 6) (bytes_of ?w)"
    "table_at posting_at posting_size B (p + 6 + length ?w) (chains ?t)"
    using at by (simp_all add: set_at_def has_bytes_append)
  have s: "p + 6 + length ?w + ?size \<le> E" using E(1) by (simp add: set_size_def add.assoc)
  have w: "length ?w < 2 ^ 16" "?w \<noteq> []" "ht_inv ?t" "\<forall>kv \<in> set (ht_entries ?t). posting_good kv"
    using good by (simp_all add: set_good_def)
  have u: "unat (of_nat p :: 32 word) = p" "unat (of_nat (length ?w) :: 16 word) = length ?w"
    using s E(2) w(1) by (simp_all add: unat_of_nat32 unat_of_nat16)
  have uw: "ucast (of_nat (length ?w) :: 16 word) = (of_nat (length ?w) :: 32 word)" using w(1) by (rule ucast_of_nat16)
  have 1: "read_item B p 2 = Inr (take 2 ?hd)" "read_item B (p + 2) 4 = Inr (drop 2 ?hd)"
    using read_parts [OF h(1), of 0 2] read_parts [OF h(1), of 2 4] by simp_all
  have size: "host32 (drop 2 ?hd) = of_nat ?size" by (simp add: worddocset_header_disk_def host_mem)
  have "length (bytes_of ?w) = length ?w" "0 < length ?w" using w(2) by (simp_all add: bytes_of_def)
  then have 2: "read_item B (p + 6) (length ?w) = Inr (bytes_of ?w)" using h(2) by (intro read_item_has) simp_all
  have off: "(of_nat p + 2 + 4 + of_nat (length ?w) :: 32 word) = of_nat (p + 6 + length ?w)" by simp
  have "\<forall>kv \<in> set (ht_entries ?t). posting_checkable kv" using w(4) ok by (simp add: set_checkable_def posting_checkable_def)
  then have 3: "HashTableChecker_Check B (DocIDTable_CheckElement B) (of_nat (p + 6 + length ?w)) (of_nat ?size) = Inr []"
    by (rule checked_postings.good_table [OF w(3) _ h(3) refl]) (use s E(2) in simp)
  have "p + 6 + length ?w < E" using s by (simp add: table_size_def)
  then have 4: "CheckLT32 (of_nat (p + 6 + length ?w)) (of_nat E) f = []" for f
    by (rule CheckLT32_ok) (use E(2) in simp)
  have 5: "CheckLT16 (of_nat (length ?w)) 8192 f = []" for f
    using ok by (simp add: CheckLT16_def word_less_nat_alt u(2) set_checkable_def)
  have 6: "concat (map (\<lambda>i. check_letter b i (bytes_of ?w ! i)) [0..<length ?w]) = []" for b
    using letter_checked ok by (simp add: set_checkable_def)
  show ?thesis
    unfolding IndexTable_CheckElement_def u 1 bindE_Inr Let_def rec_fields size uw off 2 3 E(3) u(2) 4 5 6 by simp
qed

definition word_checkable :: "word_doc_set store \<Rightarrow> nat ht_kv \<Rightarrow> bool" where
  "word_checkable s kv \<longleftrightarrow> word_good s kv \<and> (\<forall>wds. st_cells s (kv_value kv) = Some wds \<longrightarrow> set_checkable wds)"

interpretation checked_words:
  element_checker B "off + n" "IndexTable_CheckElement B (of_nat off) (of_nat n)" "word_at s" "word_size s" "word_checkable s"
  for B off n s
  by unfold_locales
    (auto simp: word_checkable_def word_good_def word_at_def word_size_def set_size_def intro: word_checked split: option.splits)

section \<open>The file\<close>

lemma recalculate_loop_ok:
  "pos + n = length B \<Longrightarrow> n < 2 ^ 32 \<Longrightarrow> n \<le> fuel \<Longrightarrow> \<not> crc_finalized c \<Longrightarrow>
   recalculate_loop fuel B pos (of_nat n) c = validate_loop fuel B pos (of_nat n) c"
proof (induction n arbitrary: fuel pos c rule: less_induct)
  case (less n)
  have u: "unat (of_nat n :: 32 word) = n" using less.prems(2) by (rule unat_of_nat32)
  show ?case
  proof (cases "n = 0")
    case True
    then show ?thesis by (simp add: recalculate_loop.simps [of fuel] validate_loop.simps [of fuel])
  next
    case False
    let ?buf = "take 512 (drop pos B)"
    let ?k = "length ?buf"
    have k: "0 < ?k" "?k \<le> n" using less.prems(1) False by auto
    obtain fuel' where fuel: "fuel = Suc fuel'" using less.prems(3) False by (cases fuel) auto
    have nz: "(of_nat n :: 32 word) \<noteq> 0" unfolding word32_eq_0_iff u by (rule False)
    have left: "(of_nat n - of_nat ?k :: 32 word) = of_nat (n - ?k)" using k(2) by (simp only: of_nat_diff)
    let ?c = "c\<lparr>crc_state := foldl crc_byte (crc_state c) ?buf\<rparr>"
    have "recalculate_loop fuel' B (pos + ?k) (of_nat (n - ?k)) ?c = validate_loop fuel' B (pos + ?k) (of_nat (n - ?k)) ?c"
      by (rule less.IH) (use k less.prems fuel in auto)
    moreover have "?buf \<noteq> []" using k(1) by fastforce
    ultimately show ?thesis using nz less.prems(4)
      by (simp add: recalculate_loop.simps [of "Suc fuel'"] validate_loop.simps [of "Suc fuel'"] fuel fold_bytes_crc Let_def left [symmetric] del: length_take)
  qed
qed

lemma recalculate_crc:
  assumes "16 \<le> length B" "length B < 2 ^ 32"
  shows "\<exists>crc. recalculate_loop (length B) B 16 (of_nat (length B) - 16) new_crc32 = Inr crc \<and>
    fst (GetFinalCRC crc) = crc_bytes (drop 16 B)"
proof -
  have n: "(of_nat (length B - 16) :: 32 word) = of_nat (length B) - of_nat 16" using assms(1) by (simp only: of_nat_diff)
  have "recalculate_loop (length B) B 16 (of_nat (length B - 16)) new_crc32 =
      Inr (new_crc32\<lparr>crc_state := foldl crc_byte (crc_state new_crc32) (drop 16 B)\<rparr>)"
    using recalculate_loop_ok [of 16 "length B - 16" B "length B" new_crc32] validate_loop_ok [of 16 "length B - 16" B "length B" new_crc32] assms
    by (simp add: new_crc32_def)
  then show ?thesis unfolding n by (simp add: new_crc32_def GetFinalCRC_def crc_bytes_def)
qed

text \<open>Documents whose names, words and positions the checker has nothing against.\<close>

definition checkable :: "document list \<Rightarrow> bool" where
  "checkable docs \<longleftrightarrow> (\<forall>(f, ws) \<in> set docs. length f < 1024 \<and> ascii f \<and> length ws < 1000000 \<and>
     sorted_wrt (<) (map snd ws) \<and> (\<forall>(w, p) \<in> set ws. length w < 8192 \<and> lower w \<and> p < 2 ^ 32))"

lemma names_checkable:
  assumes rep: "crawl_rep c docs" and ok: "checkable docs" and kv: "kv \<in> set (ht_entries (DTGetDocidTable (cr_doctable c)))"
  shows "length (kv_value kv) < 1024 \<and> ascii (kv_value kv)"
proof -
  let ?dt = "cr_doctable c"
  have dt: "dt_rep ?dt (map fst docs)" using rep by (simp add: crawl_rep_def)
  have tid: "ht_inv (DTGetDocidTable ?dt)" using dt by (simp add: dt_rep_def DTGetDocidTable_def)
  have "ht_map (DTGetDocidTable ?dt) (kv_key kv) = Some (kv_value kv)"
    unfolding ht_map_def using kv_in_entries [OF ht_entries_distinct [OF tid]] kv by blast
  then have "0 < unat (kv_key kv) \<and> unat (kv_key kv) \<le> length docs \<and> kv_value kv = map fst docs ! (unat (kv_key kv) - 1)"
    using dt by (simp add: dt_rep_def DTGetDocidTable_def split: if_splits)
  then have "kv_value kv \<in> fst ` set docs" by (metis One_nat_def Suc_pred length_map less_le_trans lessI list.set_map nth_mem not_less_eq_eq not_le)
  then show ?thesis using ok by (auto simp: checkable_def)
qed

lemma positions_checkable:
  assumes ok: "checkable docs" and h: "doc_hits docs k d = Some ps"
  shows "sorted_wrt (<) ps \<and> length ps < 1000000"
proof -
  obtain ws where ws: "snd (docs ! (unat d - 1)) = ws" "0 < unat d" "unat d \<le> length docs"
    "ps = map snd (with_key k (occurrences ws))"
    using h by (auto simp: doc_hits_def split: if_splits list.splits)
  then have "docs ! (unat d - 1) \<in> set docs" by (intro nth_mem) simp
  then have w: "length ws < 1000000" "sorted_wrt (<) (map snd ws)" "\<forall>(w, p) \<in> set ws. p < 2 ^ 32"
    using ok ws(1) by (fastforce simp: checkable_def)+
  have "sorted_wrt (<) (map snd (with_key k (occurrences ws)))" using w(2,3)
  proof (induction ws)
    case (Cons x ws)
    obtain v p where x: "x = (v, p)" by (cases x)
    have "(of_nat p :: 32 word) < of_nat q" if "(u, q) \<in> set ws" for u q
    proof -
      have "p < q" "q < 2 ^ 32" using Cons.prems that x by force+
      then show ?thesis by (simp add: word_less_nat_alt unat_of_nat32)
    qed
    then have "\<forall>y \<in> set (map snd (with_key k (occurrences ws))). of_nat p < y"
      by (auto simp: with_key_def occurrences_def)
    then show ?case using Cons x by (simp add: with_key_def)
  qed (simp add: with_key_def)
  moreover have "length (with_key k (occurrences ws)) \<le> length ws"
    using length_filter_le [of _ "occurrences ws"] by (simp add: with_key_def)
  ultimately show ?thesis using ws(4) w(1) by simp
qed

lemma words_checkable:
  assumes rep: "crawl_rep c docs" and ok: "checkable docs" and kv: "kv \<in> set (ht_entries (mi_table (cr_index c)))"
    and cell: "st_cells (mi_store (cr_index c)) (kv_value kv) = Some wds"
  shows "set_checkable wds"
proof -
  let ?I = "cr_index c"
  have inv: "mi_inv ?I" and h: "hits ?I = doc_hits docs" and ws: "index_words ?I \<subseteq> doc_words docs"
    using rep by (simp_all add: crawl_rep_def)
  have o: "owns (mi_table ?I) (mi_store ?I)" using inv by (rule mi_inv_owns)
  have ti: "ht_inv (mi_table ?I)" using o by (rule owns_inv)
  have "ht_map (mi_table ?I) (kv_key kv) = Some (kv_value kv)"
    unfolding ht_map_def using kv_in_entries [OF ht_entries_distinct [OF ti]] kv by blast
  then have w: "wds_of ?I (kv_key kv) = Some wds" using cell by (simp add: wds_of_def view_def)
  have t: "ht_inv (wds_docIDs wds)" using inv w by (simp add: mi_inv_def wds_ok_def)
  have "wds_word wds \<in> doc_words docs" using w ws by (auto simp: index_words_def)
  then have word: "length (wds_word wds) < 8192 \<and> lower (wds_word wds)"
    using ok by (fastforce simp: doc_words_def checkable_def)
  have "sorted_wrt (<) (ll_list (kv_value p)) \<and> length (ll_list (kv_value p)) < 1000000"
    if "p \<in> set (ht_entries (wds_docIDs wds))" for p
  proof -
    have "ht_map (wds_docIDs wds) (kv_key p) = Some (kv_value p)"
      unfolding ht_map_def using kv_in_entries [OF ht_entries_distinct [OF t]] that by blast
    then have "doc_hits docs (kv_key kv) (kv_key p) = Some (ll_list (kv_value p))"
      using w unfolding h [symmetric] by (simp add: hits_def)
    then show ?thesis by (rule positions_checkable [OF ok])
  qed
  then show ?thesis using word by (simp add: set_checkable_def)
qed

text \<open>The only thing the checker may say of a written file is its guess about the byte order of the sizes.\<close>

definition swapped_note :: "nat \<Rightarrow> nat \<Rightarrow> complaint list" where
  "swapped_note d n = (if htonl (of_nat d) + htonl (of_nat n) = of_nat (d + n) then [Sizes_Swapped] else [])"

lemma FileIndexChecker_ok:
  assumes rep: "crawl_rep c docs" and fit: "docs_fit docs" and ok: "checkable docs"
    and B: "written_file B (cr_index c) (cr_doctable c)" "length B + 1 < 2 ^ 32"
  shows "FileIndexChecker B = Inr (swapped_note (doc_size (cr_doctable c)) (word_table_size (cr_index c)))"
proof -
  let ?dt = "cr_doctable c" and ?I = "cr_index c"
  let ?d = "doc_size ?dt" and ?n = "word_table_size ?I"
  let ?h = "\<lparr>magic_number = MAGIC_NUMBER, checksum = crc_bytes (drop 16 B), doctable_size = of_nat ?d, index_size = of_nat ?n\<rparr>"
  let ?hd = "header_disk ?h"
  have len: "length B = 16 + ?d + ?n" and hd: "has_bytes B 0 ?hd"
    and t1: "table_at name_at name_size B 16 (chains (DTGetDocidTable ?dt))"
    and t2: "table_at (word_at (mi_store ?I)) (word_size (mi_store ?I)) B (16 + ?d) (chains (mi_table ?I))"
    using B(1) by (simp_all add: written_file_def)
  have fits: "names_fit ?dt" "words_fit ?I" using crawl_fits [OF rep fit] by simp_all
  have r: "read_item B 0 4 = Inr (take 4 ?hd)" "read_item B 4 4 = Inr (take 4 (drop 4 ?hd))"
    "read_item B 8 4 = Inr (take 4 (drop 8 ?hd))" "read_item B 12 4 = Inr (drop 12 ?hd)"
    using read_parts [OF hd, of 0 4] read_parts [OF hd, of 4 4] read_parts [OF hd, of 8 4] read_parts [OF hd, of 12 4] by simp_all
  have f: "host32 (take 4 ?hd) = MAGIC_NUMBER" "host32 (take 4 (drop 4 ?hd)) = crc_bytes (drop 16 B)"
    "host32 (take 4 (drop 8 ?hd)) = of_nat ?d" "host32 (drop 12 ?hd) = of_nat ?n"
    using read_header_disk [of ?h] by (simp_all add: read_header_def)
  obtain crc where crc: "recalculate_loop (length B) B 16 (of_nat (length B) - 16) new_crc32 = Inr crc"
    "fst (GetFinalCRC crc) = crc_bytes (drop 16 B)" using recalculate_crc [of B] B(2) len by auto
  have inv: "ht_inv (DTGetDocidTable ?dt)" "ht_inv (mi_table ?I)" using fits by (simp_all add: names_fit_def words_fit_def)
  have "\<forall>kv \<in> set (ht_entries (DTGetDocidTable ?dt)). name_checkable kv"
    using fits(1) names_checkable [OF rep ok] by (simp add: names_fit_def name_checkable_def)
  then have 1: "HashTableChecker_Check B (DocTable_CheckElement B) (of_nat 16) (of_nat ?d) = Inr []"
    unfolding doc_size_def by (rule checked_names.good_table [OF inv(1) _ t1 refl]) (use len B(2) in \<open>simp add: doc_size_def\<close>)
  have "\<forall>kv \<in> set (ht_entries (mi_table ?I)). word_checkable (mi_store ?I) kv"
    using fits(2) words_checkable [OF rep ok] by (simp add: words_fit_def word_checkable_def)
  then have 2: "HashTableChecker_Check B (IndexTable_CheckElement B (of_nat (16 + ?d)) (of_nat ?n)) (of_nat (16 + ?d)) (of_nat ?n) = Inr []"
    unfolding word_table_size_def by (rule checked_words.good_table [OF inv(2) _ t2 refl]) (use len B(2) in \<open>simp add: word_table_size_def\<close>)
  have w: "(of_nat 16 :: 32 word) = 16" "(of_nat (16 + ?d) :: 32 word) = 16 + of_nat ?d" "(of_nat (length B) - 16 :: 32 word) = of_nat (?d + ?n)"
    by (simp_all add: len)
  show ?thesis
    unfolding FileIndexChecker_def r bindE_Inr Let_def f crc(1) [unfolded w] 1 [unfolded w] 2 [unfolded w] crc(2) w
    by (simp add: CheckEQ32_def swapped_note_def crc(2))
qed

lemma quiet_file_valid:
  assumes "FileIndexChecker B = Inr ms" "set ms \<subseteq> {Sizes_Swapped}" "length B < 2 ^ 32"
  shows "file_valid B"
proof -
  obtain m s d n where r: "read_item B 0 4 = Inr m" "read_item B 4 4 = Inr s" "read_item B 8 4 = Inr d" "read_item B 12 4 = Inr n"
    using assms(1) unfolding FileIndexChecker_def bindE_eq_Inr by blast
  have b: "16 \<le> length B" "m = take 4 B" "s = take 4 (drop 4 B)" "d = take 4 (drop 8 B)" "n = take 4 (drop 12 B)"
    using r by (auto simp: read_item_def fread_def split: if_splits)
  obtain crc where crc: "recalculate_loop (length B) B 16 (of_nat (length B) - 16) new_crc32 = Inr crc"
    "fst (GetFinalCRC crc) = crc_bytes (drop 16 B)" using recalculate_crc [OF b(1) assms(3)] by blast
  have eq: "e = a" if "set (CheckEQ32 e a f) \<subseteq> set ms" for e a f
    using that assms(2) by (auto simp: CheckEQ32_def split: if_splits)
  have "set (CheckEQ32 MAGIC_NUMBER (host32 m) (Field ''magic number'' [])) \<subseteq> set ms"
    "set (CheckEQ32 (of_nat (length B) - 16) (host32 d + host32 n) (Field ''doctable_size + index_size'' [])) \<subseteq> set ms"
    "set (CheckEQ32 (crc_bytes (drop 16 B)) (host32 s) (Field ''checksum'' [])) \<subseteq> set ms"
    using assms(1) unfolding FileIndexChecker_def r bindE_Inr Let_def crc(1) by (auto simp: bindE_eq_Inr crc(2))
  note e = this [THEN eq]
  have "host32 d + host32 n + 16 = of_nat (length B)" unfolding e(2) [symmetric] by simp
  then show ?thesis using b e by (simp add: file_valid_def read_header_def take_drop algebra_simps)
qed

end
