(* ===== verification/IndexCheckerProperties.thy ===== *)
theory IndexCheckerProperties
  imports IndexCheckerSpec
begin

text \<open>
  What the index checker of src/hw3/hw3fsck promises: it always ends, it has nothing against the files of
  the writer, and what it has nothing against is a file the reader opens.
\<close>

section \<open>The checker ends\<close>

text \<open>A run that gives its messages or fails an assertion.\<close>

definition ends :: "'a res \<Rightarrow> bool" where
  "ends r \<longleftrightarrow> (case r of Inr x \<Rightarrow> True | Inl e \<Rightarrow> e = Assertion_Failed)"

lemma ends_Inr [simp]: "ends (Inr x)"
  by (simp add: ends_def)

lemma ends_bindE: "ends r \<Longrightarrow> (\<And>x. r = Inr x \<Longrightarrow> ends (f x)) \<Longrightarrow> ends (bindE r f)"
  by (cases r) (simp_all add: ends_def bindE_def)

lemma ends_read_item: "ends (read_item B pos n)"
  by (simp add: ends_def read_item_def split: option.splits)

lemmas ends_intros = ends_bindE ends_read_item ends_Inr

lemma ends_chain: "(\<And>nb p i. ends (ce nb p i)) \<Longrightarrow> ends (check_chain n j B ce nb e cur i)"
  by (induction n arbitrary: j) (auto simp: Let_def intro!: ends_intros)

lemma ends_buckets: "(\<And>nb p i. ends (ce nb p i)) \<Longrightarrow> ends (check_buckets n i B ce nb off e prev)"
  by (induction n arbitrary: i prev) (auto simp: Let_def split: option.split intro!: ends_intros ends_chain)

lemma ends_Check: "(\<And>nb p i. ends (ce nb p i)) \<Longrightarrow> ends (HashTableChecker_Check B ce off len)"
  by (auto simp: HashTableChecker_Check_def Let_def intro!: ends_intros ends_buckets)

lemma ends_positions: "ends (check_positions n B pos prev)"
  by (induction n arbitrary: pos prev) (auto simp: Let_def intro!: ends_intros)

lemma ends_DocTable: "ends (DocTable_CheckElement B nb p i)"
  by (auto simp: DocTable_CheckElement_def Let_def intro!: ends_intros)

lemma ends_DocIDTable: "ends (DocIDTable_CheckElement B nb p i)"
  by (auto simp: DocIDTable_CheckElement_def Let_def intro!: ends_intros ends_positions)

lemma ends_IndexTable: "ends (IndexTable_CheckElement B off len nb p i)"
  by (auto simp: IndexTable_CheckElement_def Let_def intro!: ends_intros ends_Check ends_DocIDTable)

lemma ends_recalculate:
  "pos \<le> length B \<Longrightarrow> length B < pos + fuel \<Longrightarrow> \<not> crc_finalized c \<Longrightarrow> ends (recalculate_loop fuel B pos left c)"
proof (induction fuel arbitrary: pos left c)
  case (Suc fuel)
  let ?buf = "take 512 (drop pos B)"
  have "ends (recalculate_loop fuel B (pos + length ?buf) (left - of_nat (length ?buf))
      (c\<lparr>crc_state := foldl crc_byte (crc_state c) ?buf\<rparr>))" if "?buf \<noteq> []"
  proof (rule Suc.IH)
    have "0 < length ?buf" using that by (rule length_greater_0_conv [THEN iffD2])
    then show "length B < pos + length ?buf + fuel" using Suc.prems(2) by linarith
  qed (use Suc.prems in simp_all)
  then show ?case using Suc.prems(3)
    by (simp add: recalculate_loop.simps [of "Suc fuel"] fold_bytes_crc Let_def del: length_take) (simp add: ends_def)
qed simp

lemma read_item_length: "read_item B pos n = Inr bs \<Longrightarrow> pos + n \<le> length B"
  by (auto simp: read_item_def fread_def split: if_splits)

lemma ends_checker: "ends (FileIndexChecker B)"
proof -
  have crc: "ends (recalculate_loop (length B) B 16 left new_crc32)" if "read_item B 12 4 = Inr bs" for left bs
    using read_item_length [OF that] by (intro ends_recalculate) (simp_all add: new_crc32_def)
  show ?thesis unfolding FileIndexChecker_def Let_def
    by (intro ends_intros ends_Check ends_DocTable ends_IndexTable) (rule crc)
qed

section \<open>Properties\<close>

text \<open>
  Property C38: the checker ends on every file, whatever its bytes: it gives its messages or fails an
  assertion, and the rounds counted for the checksum are always enough.
\<close>

theorem fsck_ends:
  "(\<exists>ms. FileIndexChecker B = Inr ms) \<or> FileIndexChecker B = Inl Assertion_Failed"
  using ends_checker [of B] by (auto simp: ends_def split: sum.splits)

text \<open>
  Property C36: the checker has nothing against a file that the writer made of a crawl whose names, words
  and positions are within its limits, but perhaps its guess about the byte order of the sizes.
\<close>

theorem fsck_accepts_written_files:
  assumes "crawl_rep c docs" "docs_fit docs" "checkable docs" "never_fails m"
    and "16 + doc_size (cr_doctable c) + word_table_size (cr_index c) + 1 < 2 ^ 32"
  shows "\<exists>m' B. WriteIndex m (cr_index c) (cr_doctable c) (Some (new_ofile [])) = Inr (of_nat (length B), m', Some B) \<and>
    hw3fsck_main (fs(path \<mapsto> B)) [prog, path] =
      Inr (0, swapped_note (doc_size (cr_doctable c)) (word_table_size (cr_index c)))"
proof -
  have "index_room c" using assms(5) by (simp add: index_room_def)
  then obtain m' B where B: "WriteIndex m (cr_index c) (cr_doctable c) (Some (new_ofile [])) = Inr (of_nat (length B), m', Some B)"
    "written_file B (cr_index c) (cr_doctable c)" using WriteIndex_written [OF assms(1,2) _ assms(4)] by blast
  then have "length B + 1 < 2 ^ 32" using assms(5) by (simp add: written_file_def)
  with B show ?thesis using FileIndexChecker_ok [OF assms(1-3)] by (fastforce simp: hw3fsck_main_def)
qed

lemma demo_sizes: "doc_size (cr_doctable demo_crawl) = 27" "word_table_size (cr_index demo_crawl) = 61"
  by (simp_all add: doc_size_def word_table_size_def table_size_def bucket_size_def DTGetDocidTable_def
      demo_crawl_def one_pair name_size_def word_size_def st_alloc_def empty_store_def set_size_def demo_set_def
      posting_size_def position_list)

lemma demo_note: "swapped_note 27 61 = []"
  by (simp add: swapped_note_def) code_simp

lemma demo_checkable: "checkable demo_docs"
  by (simp add: checkable_def demo_docs_def ascii_def lower_def)

lemma fsck_accepts_written_files_witness:
  "\<exists>m' B. WriteIndex [] (cr_index demo_crawl) (cr_doctable demo_crawl) (Some (new_ofile [])) = Inr (of_nat (length B), m', Some B) \<and>
    hw3fsck_main [''i'' \<mapsto> B] [''hw3fsck'', ''i''] = Inr (0, [])"
  using fsck_accepts_written_files [OF demo_crawl_rep demo_fit demo_checkable never_fails_Nil, of Map.empty "''i''" "''hw3fsck''"]
  unfolding demo_sizes demo_note by simp

text \<open>
  Property C37: a file the checker has nothing against is opened by the validating reader, and when one byte
  behind its header is changed the checker, if no assertion fails, has a complaint, but still
  exits with status 0.
\<close>

theorem fsck_is_sound:
  assumes "fs path = Some B" "hw3fsck_main fs [prog, path] = Inr (s, ms)" "set ms \<subseteq> {Sizes_Swapped}" "length B < 2 ^ 32"
  shows "FileIndexReader B True = Inr (read_header (take 16 B)) \<and>
    (\<forall>i b t ms'. 16 \<le> i \<longrightarrow> i < length B \<longrightarrow> b \<noteq> B ! i \<longrightarrow>
       hw3fsck_main (fs(path \<mapsto> B[i := b])) [prog, path] = Inr (t, ms') \<longrightarrow>
       t = 0 \<and> \<not> set ms' \<subseteq> {Sizes_Swapped})"
proof -
  have "file_valid B" using assms by (auto simp: hw3fsck_main_def bindE_eq_Inr intro: quiet_file_valid)
  then have r: "FileIndexReader B True = Inr (read_header (take 16 B))" using assms(4) by (simp add: FileIndexReader_True)
  have "t = 0 \<and> \<not> set ms' \<subseteq> {Sizes_Swapped}" if i: "16 \<le> i" "i < length B" "b \<noteq> B ! i"
    and run: "hw3fsck_main (fs(path \<mapsto> B[i := b])) [prog, path] = Inr (t, ms')" for i b t ms'
  proof -
    have "FileIndexReader (B[i := b]) True = Inl Verify333_Failed" by (rule corrupted_file_rejected [OF assms(4) r i])
    then have "\<not> file_valid (B[i := b])" using assms(4) by (simp add: FileIndexReader_True split: if_splits)
    then show ?thesis using run assms(4) quiet_file_valid [of "B[i := b]"] by (auto simp: hw3fsck_main_def bindE_eq_Inr)
  qed
  with r show ?thesis by blast
qed

lemma fsck_is_sound_witness:
  "\<exists>B. hw3fsck_main [''i'' \<mapsto> B] [''hw3fsck'', ''i''] = Inr (0, []) \<and> FileIndexReader B True = Inr (read_header (take 16 B))"
proof -
  obtain m' B where "written_file B (cr_index demo_crawl) (cr_doctable demo_crawl)"
    using WriteIndex_written [OF demo_crawl_rep demo_fit demo_room never_fails_Nil] by blast
  then have B: "length B < 2 ^ 32" "hw3fsck_main [''i'' \<mapsto> B] [''hw3fsck'', ''i''] = Inr (0, [])"
    using FileIndexChecker_ok [OF demo_crawl_rep demo_fit demo_checkable] by (simp_all add: written_file_def demo_sizes demo_note hw3fsck_main_def)
  then show ?thesis using fsck_is_sound [of "[''i'' \<mapsto> B]" "''i''" B "''hw3fsck''" 0 "[]"] by auto
qed

end
