(* ===== verification/ThreadPool.thy ===== *)
theory ThreadPool
  imports Prelude
begin

text \<open>
  The thread pool of src/hw4/ThreadPool.cc as a step relation: any number of worker threads and
  the owner of the pool, which creates it, dispatches tasks and destroys it.

  A thread's program counter is the next statement that reads or writes shared state; a step
  runs up to the next such point, and which thread steps is not determined.  \<open>qlock_\<close> is the
  thread that holds it, if any; a thread that wants it can step only when it is free.
  \<open>pthread_cond_wait\<close> releases the lock and blocks in one step; \<open>pthread_cond_signal\<close> unblocks
  one blocked thread if there is one; a blocked thread may also wake up for no reason.  The
  \<open>pthread\<close> calls are assumed to succeed.  The task function of a task is one step, of the
  thread that runs it, with the lock free for the others.  The last three fields of
  the state are ghosts: the tasks dispatched, taken from the queue, and run, in order.
\<close>

section \<open>The state\<close>

datatype 'task thread_pc = Unborn | Born | Outer_Test | Waiting | Woken | Inner_Test | Running 'task | Task_Done | Exited

datatype 'task owner_pc =
    Creating nat | Spin_Test | Spin_Unlocked
  | Ready
  | Dispatching 'task | Pushing 'task
  | Destroying | Join_Test nat "32 word" | Joining nat "32 word" | Rejoin nat "32 word"
  | Draining | Owner_Done | Check_Failed

datatype thread = Owner | Worker nat

record 'task pool =
  qlock :: "thread option"
  work_queue :: "'task list"
  killthreads :: bool
  num_threads_running :: "32 word"
  num_threads :: "32 word"
  threads :: "'task thread_pc list"
  owner :: "'task owner_pc"
  dispatched :: "'task list"
  started :: "'task list"
  finished :: "'task list"

text \<open>The constructor has taken the lock and has no thread created yet.\<close>

definition new_pool :: "32 word \<Rightarrow> 'task pool" where
  "new_pool n =
     \<lparr>qlock = Some Owner, work_queue = [], killthreads = False, num_threads_running = 0, num_threads = n,
      threads = replicate (unat n) Unborn, owner = Creating 0, dispatched = [], started = [], finished = []\<rparr>"

section \<open>The worker threads\<close>

definition set_thread :: "nat \<Rightarrow> 'task thread_pc \<Rightarrow> 'task pool \<Rightarrow> 'task pool" where
  "set_thread i pc s = s\<lparr>threads := (threads s)[i := pc]\<rparr>"

text \<open>The next step of thread \<open>i\<close> in \<open>ThreadLoop\<close>; \<open>None\<close> if it cannot step.\<close>

definition ThreadLoop_step :: "nat \<Rightarrow> 'task pool \<Rightarrow> 'task pool option" where
  "ThreadLoop_step i s =
     (case threads s ! i of
        Born \<Rightarrow>
          if qlock s = None
          then Some (set_thread i Outer_Test (s\<lparr>qlock := Some (Worker i), num_threads_running := num_threads_running s + 1\<rparr>))
          else None
      | Outer_Test \<Rightarrow>
          if \<not> killthreads s then Some (set_thread i Waiting (s\<lparr>qlock := None\<rparr>))
          else Some (set_thread i Exited (s\<lparr>qlock := None, num_threads_running := num_threads_running s - 1\<rparr>))
      | Woken \<Rightarrow>
          if qlock s = None then Some (set_thread i Inner_Test (s\<lparr>qlock := Some (Worker i)\<rparr>)) else None
      | Inner_Test \<Rightarrow>
          (case work_queue s of
             t # ts \<Rightarrow>
               if \<not> killthreads s
               then Some (set_thread i (Running t) (s\<lparr>qlock := None, work_queue := ts, started := started s @ [t]\<rparr>))
               else Some (set_thread i Outer_Test s)
           | [] \<Rightarrow> Some (set_thread i Outer_Test s))
      | Running t \<Rightarrow> Some (set_thread i Task_Done (s\<lparr>finished := finished s @ [t]\<rparr>))
      | Task_Done \<Rightarrow>
          if qlock s = None then Some (set_thread i Inner_Test (s\<lparr>qlock := Some (Worker i)\<rparr>)) else None
      | _ \<Rightarrow> None)"

section \<open>The owner\<close>

text \<open>Waking one blocked thread, and all of them.\<close>

inductive cond_signal :: "'task thread_pc list \<Rightarrow> 'task thread_pc list \<Rightarrow> bool" where
  nobody: "Waiting \<notin> set ts \<Longrightarrow> cond_signal ts ts"
| somebody: "j < length ts \<Longrightarrow> ts ! j = Waiting \<Longrightarrow> cond_signal ts (ts[j := Woken])"

definition wake :: "'task thread_pc \<Rightarrow> 'task thread_pc" where
  "wake pc = (if pc = Waiting then Woken else pc)"

definition cond_broadcast :: "'task thread_pc list \<Rightarrow> 'task thread_pc list" where
  "cond_broadcast ts = map wake ts"

text \<open>
  The steps of the owner inside the constructor and the destructor, and its wait for the lock
  in \<open>Dispatch\<close>.  A joined thread has returned from \<open>ThreadLoop\<close>.
\<close>

definition owner_step :: "'task pool \<Rightarrow> 'task pool option" where
  "owner_step s =
     (case owner s of
        Creating i \<Rightarrow>
          if i < unat (num_threads s) then Some (set_thread i Born (s\<lparr>owner := Creating (Suc i)\<rparr>))
          else Some (s\<lparr>owner := Spin_Test\<rparr>)
      | Spin_Test \<Rightarrow>
          if num_threads_running s \<noteq> num_threads s then Some (s\<lparr>owner := Spin_Unlocked, qlock := None\<rparr>)
          else Some (s\<lparr>owner := Ready, qlock := None\<rparr>)
      | Spin_Unlocked \<Rightarrow>
          if qlock s = None then Some (s\<lparr>owner := Spin_Test, qlock := Some Owner\<rparr>) else None
      | Dispatching t \<Rightarrow>
          if qlock s = None then Some (s\<lparr>owner := Pushing t, qlock := Some Owner\<rparr>) else None
      | Destroying \<Rightarrow>
          if qlock s = None
          then Some (s\<lparr>owner := Join_Test 0 (num_threads_running s), qlock := Some Owner, killthreads := True\<rparr>)
          else None
      | Join_Test i n \<Rightarrow>
          if i < unat n then Some (s\<lparr>threads := cond_broadcast (threads s), qlock := None, owner := Joining i n\<rparr>)
          else if num_threads_running s \<noteq> 0 then Some (s\<lparr>owner := Check_Failed\<rparr>)
          else Some (s\<lparr>owner := Draining, qlock := None\<rparr>)
      | Joining i n \<Rightarrow>
          if threads s ! i = Exited then Some (s\<lparr>owner := Rejoin i n\<rparr>) else None
      | Rejoin i n \<Rightarrow>
          if qlock s = None then Some (s\<lparr>owner := Join_Test (Suc i) n, qlock := Some Owner\<rparr>) else None
      | Draining \<Rightarrow>
          (case work_queue s of
             t # ts \<Rightarrow> Some (s\<lparr>work_queue := ts, started := started s @ [t], finished := finished s @ [t]\<rparr>)
           | [] \<Rightarrow> Some (s\<lparr>owner := Owner_Done\<rparr>))
      | _ \<Rightarrow> None)"

section \<open>All interleavings\<close>

text \<open>
  The owner may at any time between calls dispatch any task or destroy the pool.  The body of
  \<open>Dispatch\<close> under the lock is one step.
\<close>

inductive pool_step :: "'task pool \<Rightarrow> 'task pool \<Rightarrow> bool" where
  thread: "i < length (threads s) \<Longrightarrow> ThreadLoop_step i s = Some s' \<Longrightarrow> pool_step s s'"
| spurious: "i < length (threads s) \<Longrightarrow> threads s ! i = Waiting \<Longrightarrow> pool_step s (set_thread i Woken s)"
| own: "owner_step s = Some s' \<Longrightarrow> pool_step s s'"
| call_dispatch: "owner s = Ready \<Longrightarrow> pool_step s (s\<lparr>owner := Dispatching t\<rparr>)"
| call_destroy: "owner s = Ready \<Longrightarrow> pool_step s (s\<lparr>owner := Destroying\<rparr>)"
| push: "owner s = Pushing t \<Longrightarrow> \<not> killthreads s \<Longrightarrow> cond_signal (threads s) ts \<Longrightarrow>
    pool_step s (s\<lparr>work_queue := work_queue s @ [t], dispatched := dispatched s @ [t], threads := ts,
      qlock := None, owner := Ready\<rparr>)"
| push_killed: "owner s = Pushing t \<Longrightarrow> killthreads s \<Longrightarrow> pool_step s (s\<lparr>owner := Check_Failed\<rparr>)"

text \<open>The states that can be reached from a new pool of \<open>n\<close> threads.\<close>

inductive reachable :: "32 word \<Rightarrow> 'task pool \<Rightarrow> bool" for n where
  new: "reachable n (new_pool n)"
| step: "reachable n s \<Longrightarrow> pool_step s s' \<Longrightarrow> reachable n s'"

end
