(* ===== verification/ThreadPoolSpec.thy ===== *)
theory ThreadPoolSpec
  imports ThreadPool "HOL-Library.Multiset"
begin

text \<open>
  What holds in every state a thread pool can reach, and what follows: the lock is held by at most
  one thread, no check fails, tasks are taken in the order they were dispatched and each is
  run once, no wakeup is lost, and destroying the pool ends with every task run.
\<close>

section \<open>The invariant\<close>

fun alive :: "'task thread_pc \<Rightarrow> bool" where
  "alive Unborn = False" | "alive Born = False" | "alive Exited = False" | "alive _ = True"

fun holds :: "'task thread_pc \<Rightarrow> bool" where
  "holds Outer_Test = True" | "holds Inner_Test = True" | "holds _ = False"

fun awake :: "'task thread_pc \<Rightarrow> bool" where
  "awake Woken = True" | "awake Inner_Test = True" | "awake (Running _) = True" | "awake Task_Done = True" | "awake _ = False"

fun task_of :: "'task thread_pc \<Rightarrow> 'task list" where
  "task_of (Running t) = [t]" | "task_of _ = []"

fun owner_holds :: "'task owner_pc \<Rightarrow> bool" where
  "owner_holds (Creating _) = True" | "owner_holds Spin_Test = True" | "owner_holds (Pushing _) = True"
| "owner_holds (Join_Test _ _) = True" | "owner_holds _ = False"

fun building :: "'task owner_pc \<Rightarrow> bool" where
  "building (Creating _) = True" | "building Spin_Test = True" | "building Spin_Unlocked = True" | "building _ = False"

fun killing :: "'task owner_pc \<Rightarrow> bool" where
  "killing (Join_Test _ _) = True" | "killing (Joining _ _) = True" | "killing (Rejoin _ _) = True"
| "killing Draining = True" | "killing Owner_Done = True" | "killing _ = False"

definition running_tasks :: "'task thread_pc list \<Rightarrow> 'task multiset" where
  "running_tasks ts = mset (concat (map task_of ts))"

definition lock_inv :: "'task pool \<Rightarrow> bool" where
  "lock_inv s \<longleftrightarrow> (\<forall>i < length (threads s). holds (threads s ! i) \<longleftrightarrow> qlock s = Some (Worker i)) \<and>
     (\<forall>i. qlock s = Some (Worker i) \<longrightarrow> i < length (threads s)) \<and>
     (owner_holds (owner s) \<longleftrightarrow> qlock s = Some Owner)"

definition count_inv :: "32 word \<Rightarrow> 'task pool \<Rightarrow> bool" where
  "count_inv n s \<longleftrightarrow> num_threads s = n \<and> length (threads s) = unat n \<and>
     unat (num_threads_running s) = length (filter alive (threads s))"

text \<open>Which program counters the threads can have in each phase of the owner.\<close>

definition phase_inv :: "'task pool \<Rightarrow> bool" where
  "phase_inv s \<longleftrightarrow> owner s \<noteq> Check_Failed \<and> (killthreads s \<longleftrightarrow> killing (owner s)) \<and>
     (\<forall>j < length (threads s).
        (threads s ! j = Unborn \<longleftrightarrow> (\<exists>k. owner s = Creating k \<and> k \<le> j)) \<and>
        (threads s ! j = Born \<longrightarrow> building (owner s)) \<and>
        (threads s ! j = Exited \<longrightarrow> killing (owner s)))"

definition queue_inv :: "'task pool \<Rightarrow> bool" where
  "queue_inv s \<longleftrightarrow> dispatched s = started s @ work_queue s \<and>
     mset (started s) = mset (finished s) + running_tasks (threads s) \<and>
     (building (owner s) \<longrightarrow> work_queue s = [])"

text \<open>While the pool is in use, a task in the queue has a thread that will look there.\<close>

definition wake_inv :: "'task pool \<Rightarrow> bool" where
  "wake_inv s \<longleftrightarrow> \<not> killthreads s \<longrightarrow> work_queue s \<noteq> [] \<longrightarrow>
     (\<forall>j < length (threads s). threads s ! j \<noteq> Outer_Test) \<and>
     (threads s \<noteq> [] \<longrightarrow> (\<exists>j < length (threads s). awake (threads s ! j)))"

text \<open>How far the destructor has come.\<close>

definition joined :: "nat \<Rightarrow> 'task pool \<Rightarrow> bool" where
  "joined k s \<longleftrightarrow> k \<le> length (threads s) \<and> (\<forall>j < k. threads s ! j = Exited)"

definition no_waiting :: "'task pool \<Rightarrow> bool" where
  "no_waiting s \<longleftrightarrow> (\<forall>j < length (threads s). threads s ! j \<noteq> Waiting)"

definition join_inv :: "32 word \<Rightarrow> 'task pool \<Rightarrow> bool" where
  "join_inv n s \<longleftrightarrow>
     (case owner s of
        Join_Test i m \<Rightarrow> m = n \<and> joined i s \<and> (0 < i \<longrightarrow> no_waiting s)
      | Joining i m \<Rightarrow> m = n \<and> joined i s \<and> i < length (threads s) \<and> no_waiting s
      | Rejoin i m \<Rightarrow> m = n \<and> joined (Suc i) s \<and> no_waiting s
      | Draining \<Rightarrow> joined (length (threads s)) s
      | Owner_Done \<Rightarrow> joined (length (threads s)) s \<and> work_queue s = []
      | _ \<Rightarrow> True)"

definition pool_inv :: "32 word \<Rightarrow> 'task pool \<Rightarrow> bool" where
  "pool_inv n s \<longleftrightarrow> lock_inv s \<and> count_inv n s \<and> phase_inv s \<and> queue_inv s \<and> wake_inv s \<and> join_inv n s"

section \<open>Updates of one thread\<close>

lemma set_thread_simps [simp]:
  "threads (set_thread i pc s) = (threads s)[i := pc]" "qlock (set_thread i pc s) = qlock s"
  "work_queue (set_thread i pc s) = work_queue s" "killthreads (set_thread i pc s) = killthreads s"
  "num_threads_running (set_thread i pc s) = num_threads_running s" "num_threads (set_thread i pc s) = num_threads s"
  "owner (set_thread i pc s) = owner s" "dispatched (set_thread i pc s) = dispatched s"
  "started (set_thread i pc s) = started s" "finished (set_thread i pc s) = finished s"
  by (simp_all add: set_thread_def)

lemma count_update:
  "i < length ts \<Longrightarrow> length (filter P (ts[i := pc])) + (if P (ts ! i) then 1 else 0) =
     length (filter P ts) + (if P pc then 1 else 0)"
proof (induction ts arbitrary: i)
  case (Cons t ts)
  then show ?case by (cases i) auto
qed simp

lemma count_same: "i < length ts \<Longrightarrow> P (ts ! i) \<Longrightarrow> P pc \<Longrightarrow> length (filter P (ts[i := pc])) = length (filter P ts)"
  using count_update [of i ts P pc] by simp

lemma count_none: "i < length ts \<Longrightarrow> \<not> P (ts ! i) \<Longrightarrow> \<not> P pc \<Longrightarrow> length (filter P (ts[i := pc])) = length (filter P ts)"
  using count_update [of i ts P pc] by simp

lemma running_tasks_Cons: "running_tasks (pc # ts) = mset (task_of pc) + running_tasks ts"
  by (simp add: running_tasks_def)

lemma tasks_update:
  "i < length ts \<Longrightarrow> running_tasks (ts[i := pc]) + mset (task_of (ts ! i)) = running_tasks ts + mset (task_of pc)"
proof (induction ts arbitrary: i)
  case (Cons t ts)
  show ?case
  proof (cases i)
    case 0
    then show ?thesis by (simp add: running_tasks_Cons)
  next
    case (Suc k)
    then show ?thesis using Cons.IH [of k] Cons.prems by (simp add: running_tasks_Cons)
  qed
qed simp

lemma not_alive_room: "i < length ts \<Longrightarrow> \<not> P (ts ! i) \<Longrightarrow> length (filter P ts) < length ts"
  by (metis length_filter_less nth_mem)

lemma alive_some: "i < length ts \<Longrightarrow> P (ts ! i) \<Longrightarrow> 0 < length (filter P ts)"
  by (metis filter_empty_conv length_greater_0_conv nth_mem)

lemma wake_facts [simp]:
  "alive (wake pc) = alive pc" "holds (wake pc) = holds pc" "task_of (wake pc) = task_of pc"
  "wake pc = Unborn \<longleftrightarrow> pc = Unborn" "wake pc = Born \<longleftrightarrow> pc = Born" "wake pc = Exited \<longleftrightarrow> pc = Exited" "wake pc \<noteq> Waiting"
  by (cases pc; simp add: wake_def)+

lemma broadcast_facts:
  "length (filter alive (cond_broadcast ts)) = length (filter alive ts)" "running_tasks (cond_broadcast ts) = running_tasks ts"
  "length (cond_broadcast ts) = length ts"
  by (simp_all add: cond_broadcast_def running_tasks_def comp_def filter_map)

lemma new_pool_inv: "pool_inv n (new_pool n)"
  by (auto simp: pool_inv_def new_pool_def lock_inv_def count_inv_def phase_inv_def queue_inv_def wake_inv_def join_inv_def
      running_tasks_def)

section \<open>Steps of a worker\<close>

lemma ThreadLoop_cases:
  assumes "ThreadLoop_step i s = Some s'"
  obtains
    (begin_thread) "threads s ! i = Born" "qlock s = None"
      "s' = set_thread i Outer_Test (s\<lparr>qlock := Some (Worker i), num_threads_running := num_threads_running s + 1\<rparr>)"
  | (block) "threads s ! i = Outer_Test" "\<not> killthreads s" "s' = set_thread i Waiting (s\<lparr>qlock := None\<rparr>)"
  | (end_thread) "threads s ! i = Outer_Test" "killthreads s"
      "s' = set_thread i Exited (s\<lparr>qlock := None, num_threads_running := num_threads_running s - 1\<rparr>)"
  | (relock) "threads s ! i = Woken \<or> threads s ! i = Task_Done" "qlock s = None"
      "s' = set_thread i Inner_Test (s\<lparr>qlock := Some (Worker i)\<rparr>)"
  | (take) t ts where "threads s ! i = Inner_Test" "work_queue s = t # ts" "\<not> killthreads s"
      "s' = set_thread i (Running t) (s\<lparr>qlock := None, work_queue := ts, started := started s @ [t]\<rparr>)"
  | (leave) "threads s ! i = Inner_Test" "work_queue s = [] \<or> killthreads s" "s' = set_thread i Outer_Test s"
  | (run) t where "threads s ! i = Running t" "s' = set_thread i Task_Done (s\<lparr>finished := finished s @ [t]\<rparr>)"
proof (cases "threads s ! i")
  case Born
  with assms that(1) show thesis by (simp add: ThreadLoop_step_def split: if_splits)
next
  case Outer_Test
  with assms that(2,3) show thesis by (simp add: ThreadLoop_step_def split: if_splits)
next
  case Woken
  with assms that(4) show thesis by (simp add: ThreadLoop_step_def split: if_splits)
next
  case Task_Done
  with assms that(4) show thesis by (simp add: ThreadLoop_step_def split: if_splits)
next
  case Inner_Test
  with assms that(5,6) show thesis by (simp add: ThreadLoop_step_def split: if_splits list.splits)
next
  case (Running t)
  with assms that(7) show thesis by (simp add: ThreadLoop_step_def)
qed (use assms in \<open>simp_all add: ThreadLoop_step_def\<close>)

lemma thread_moves:
  assumes "ThreadLoop_step i s = Some s'"
  obtains pc where "threads s' = (threads s)[i := pc]" "owner s' = owner s" "killthreads s' = killthreads s"
    "threads s ! i \<noteq> Exited" "threads s ! i \<noteq> Unborn" "pc \<noteq> Unborn" "pc \<noteq> Born"
    "pc = Waiting \<Longrightarrow> \<not> killthreads s" "pc = Exited \<Longrightarrow> killthreads s" "num_threads s' = num_threads s"
    "killthreads s \<Longrightarrow> work_queue s' = work_queue s"
  using assms by (cases rule: ThreadLoop_cases) (auto intro: that)

lemma thread_lock_inv:
  assumes "lock_inv s" "i < length (threads s)" "ThreadLoop_step i s = Some s'"
  shows "lock_inv s'"
  using assms(3)
proof (cases rule: ThreadLoop_cases)
  case (relock)
  then show ?thesis using assms(1,2) by (auto simp: lock_inv_def nth_list_update)
qed (use assms(1,2) in \<open>auto simp: lock_inv_def nth_list_update\<close>)

lemma thread_count_inv:
  assumes "count_inv n s" "i < length (threads s)" "ThreadLoop_step i s = Some s'"
  shows "count_inv n s'"
proof -
  let ?a = "length (filter alive (threads s))"
  have c: "unat (num_threads_running s) = ?a" "length (threads s) = unat n" "num_threads s = n"
    using assms(1) by (simp_all add: count_inv_def)
  have n: "unat n < 2 ^ 32" using unsigned_less [of n] by simp
  show ?thesis using assms(3)
  proof (cases rule: ThreadLoop_cases)
    case begin_thread
    have "Suc ?a < 2 ^ 32" using not_alive_room [OF assms(2), of alive] begin_thread(1) n c(2) by simp
    then have "unat (num_threads_running s + 1) = Suc ?a" using c(1) by (simp add: unat32_Suc)
    then show ?thesis using begin_thread c count_update [OF assms(2), of alive Outer_Test] by (simp add: count_inv_def)
  next
    case end_thread
    have "0 < ?a" using alive_some [OF assms(2), of alive] end_thread(1) by simp
    then have "unat (num_threads_running s - 1) = ?a - 1" using c(1) by (simp add: unat32_pred)
    then show ?thesis using end_thread c count_update [OF assms(2), of alive Exited] by (simp add: count_inv_def)
  next
    case relock
    then show ?thesis using c count_same [of i "threads s" alive Inner_Test] assms(2) by (auto simp: count_inv_def)
  qed (use c assms(2) in \<open>auto simp: count_inv_def count_same\<close>)
qed

lemma thread_phase_inv:
  assumes "phase_inv s" "i < length (threads s)" "ThreadLoop_step i s = Some s'"
  shows "phase_inv s'"
  using assms(3)
proof (rule thread_moves)
  fix pc
  assume "threads s' = (threads s)[i := pc]" "owner s' = owner s" "killthreads s' = killthreads s"
    "threads s ! i \<noteq> Exited" "threads s ! i \<noteq> Unborn" "pc \<noteq> Unborn" "pc \<noteq> Born" "pc = Exited \<Longrightarrow> killthreads s"
  then show ?thesis using assms(1,2) unfolding phase_inv_def by (auto simp: nth_list_update)
qed

lemma thread_queue_inv:
  assumes "queue_inv s" "i < length (threads s)" "ThreadLoop_step i s = Some s'"
  shows "queue_inv s'"
  using assms(3)
proof (cases rule: ThreadLoop_cases)
  case relock
  then show ?thesis using assms(1) tasks_update [OF assms(2), of Inner_Test] by (auto simp: queue_inv_def)
next
  case (take t ts)
  then show ?thesis using assms(1) tasks_update [OF assms(2), of "Running t"] by (auto simp: queue_inv_def)
next
  case (run t)
  then show ?thesis using assms(1) tasks_update [OF assms(2), of Task_Done] by (auto simp: queue_inv_def)
qed (use assms(1) tasks_update [OF assms(2)] in \<open>auto simp: queue_inv_def\<close>)

lemma thread_wake_inv:
  assumes "wake_inv s" "phase_inv s" "queue_inv s" and i: "i < length (threads s)" and step: "ThreadLoop_step i s = Some s'"
  shows "wake_inv s'"
  using step
proof (cases rule: ThreadLoop_cases)
  case leave
  then show ?thesis by (auto simp: wake_inv_def)
next
  case block
  then show ?thesis using assms(1) i by (auto simp: wake_inv_def)
next
  case end_thread
  then show ?thesis by (auto simp: wake_inv_def)
next
  case begin_thread
  then have "work_queue s = []" using assms(2,3) i by (simp add: phase_inv_def queue_inv_def)
  then show ?thesis using begin_thread by (simp add: wake_inv_def)
next
  case relock
  then show ?thesis using assms(1) i unfolding wake_inv_def by (auto simp: nth_list_update)
next
  case (take t ts)
  then show ?thesis using assms(1) i unfolding wake_inv_def by (auto simp: nth_list_update)
next
  case (run t)
  then show ?thesis using assms(1) i unfolding wake_inv_def by (auto simp: nth_list_update)
qed

lemma thread_join_inv:
  assumes "join_inv n s" "phase_inv s" "i < length (threads s)" "ThreadLoop_step i s = Some s'"
  shows "join_inv n s'"
  using assms(4)
proof (rule thread_moves)
  fix pc
  assume t: "threads s' = (threads s)[i := pc]" "owner s' = owner s" "threads s ! i \<noteq> Exited"
    and k: "killthreads s' = killthreads s" "pc = Waiting \<Longrightarrow> \<not> killthreads s" "killthreads s \<Longrightarrow> work_queue s' = work_queue s"
  have j: "joined k s \<Longrightarrow> joined k s'" for k
    using t assms(3) by (auto simp: joined_def nth_list_update)
  have w: "killthreads s \<Longrightarrow> no_waiting s \<Longrightarrow> no_waiting s'"
    using t k assms(3) by (auto simp: no_waiting_def nth_list_update)
  have "killthreads s \<longleftrightarrow> killing (owner s)" using assms(2) by (simp add: phase_inv_def)
  then show ?thesis using assms(1) t j w k(3) unfolding join_inv_def by (auto split: owner_pc.splits)
qed

lemma thread_inv:
  assumes "pool_inv n s" "i < length (threads s)" "ThreadLoop_step i s = Some s'"
  shows "pool_inv n s'"
  using assms thread_lock_inv [OF _ assms(2,3)] thread_count_inv [OF _ assms(2,3)] thread_phase_inv [OF _ assms(2,3)]
    thread_queue_inv [OF _ assms(2,3)] thread_wake_inv [OF _ _ _ assms(2,3)] thread_join_inv [OF _ _ assms(2,3)]
  by (simp add: pool_inv_def)

lemma spurious_inv:
  assumes inv: "pool_inv n s" and i: "i < length (threads s)" and w: "threads s ! i = Waiting"
  shows "pool_inv n (set_thread i Woken s)"
  unfolding pool_inv_def
proof (intro conjI)
  show "lock_inv (set_thread i Woken s)" using inv i w by (auto simp: pool_inv_def lock_inv_def nth_list_update)
  show "count_inv n (set_thread i Woken s)"
    using inv w count_update [OF i, of alive Woken] by (simp add: pool_inv_def count_inv_def)
  show "phase_inv (set_thread i Woken s)"
    using inv i w unfolding pool_inv_def phase_inv_def by (auto simp: nth_list_update)
  show "queue_inv (set_thread i Woken s)"
    using inv w tasks_update [OF i, of Woken] by (simp add: pool_inv_def queue_inv_def)
  show "wake_inv (set_thread i Woken s)"
    using inv i unfolding pool_inv_def wake_inv_def by (auto simp: nth_list_update)
  have "joined k s \<Longrightarrow> joined k (set_thread i Woken s)" for k
    using i w by (auto simp: joined_def nth_list_update)
  moreover have "no_waiting s \<Longrightarrow> no_waiting (set_thread i Woken s)"
    using i w by (auto simp: no_waiting_def)
  ultimately show "join_inv n (set_thread i Woken s)"
    using inv unfolding pool_inv_def join_inv_def by (auto split: owner_pc.splits)
qed

section \<open>Steps of the owner\<close>

lemma all_joined:
  assumes inv: "pool_inv n s" and j: "owner s = Join_Test i m" "\<not> i < unat m"
  shows "num_threads_running s = 0" "joined (length (threads s)) s"
proof -
  have "unat m = length (threads s)" "joined i s" using inv j(1) by (auto simp: pool_inv_def join_inv_def count_inv_def)
  then show j: "joined (length (threads s)) s" using j(2) by (simp add: joined_def)
  have "filter alive (threads s) = []" using j by (auto simp: joined_def filter_empty_conv in_set_conv_nth)
  then show "num_threads_running s = 0" using inv by (simp add: pool_inv_def count_inv_def word32_eq_0_iff)
qed

lemma owner_lock_inv:
  assumes inv: "pool_inv n s" and step: "owner_step s = Some s'"
  shows "lock_inv s'"
proof (cases "owner s")
  case (Creating i)
  then show ?thesis using inv step unfolding owner_step_def pool_inv_def lock_inv_def count_inv_def phase_inv_def
    by (auto simp: nth_list_update split: if_splits)
next
  case (Join_Test i m)
  then show ?thesis using inv step all_joined(1) [OF inv Join_Test] unfolding owner_step_def pool_inv_def lock_inv_def
    by (auto simp: cond_broadcast_def split: if_splits)
qed (use inv step in \<open>auto simp: owner_step_def pool_inv_def lock_inv_def split: if_splits list.splits\<close>)

lemma owner_count_inv:
  assumes inv: "pool_inv n s" and step: "owner_step s = Some s'"
  shows "count_inv n s'"
proof (cases "owner s")
  case (Creating i)
  then have "i < unat n \<Longrightarrow> threads s ! i = Unborn" using inv by (simp add: pool_inv_def phase_inv_def count_inv_def)
  then show ?thesis using Creating inv step unfolding owner_step_def pool_inv_def count_inv_def
    by (auto simp: count_none split: if_splits)
qed (use inv step in \<open>auto simp: owner_step_def pool_inv_def count_inv_def broadcast_facts split: if_splits list.splits\<close>)

lemma owner_phase_inv:
  assumes inv: "pool_inv n s" and step: "owner_step s = Some s'"
  shows "phase_inv s'"
proof (cases "owner s")
  case (Creating i)
  then show ?thesis using inv step unfolding owner_step_def pool_inv_def phase_inv_def count_inv_def
    by (auto simp: nth_list_update split: if_splits)
next
  case Spin_Test
  have a: "alive (threads s ! j)" if "num_threads_running s = num_threads s" "j < length (threads s)" for j
  proof (rule ccontr)
    assume "\<not> alive (threads s ! j)"
    then have "length (filter alive (threads s)) < length (threads s)" by (rule not_alive_room [OF that(2)])
    then show False using that(1) inv by (auto simp: pool_inv_def count_inv_def)
  qed
  then have "threads s ! j \<noteq> Born" if "num_threads_running s = num_threads s" "j < length (threads s)" for j
    using that by fastforce
  then show ?thesis using Spin_Test inv step unfolding owner_step_def pool_inv_def phase_inv_def
    by (auto split: if_splits)
next
  case (Join_Test i m)
  then show ?thesis using inv step all_joined(1) [OF inv Join_Test] unfolding owner_step_def pool_inv_def phase_inv_def
    by (auto simp: cond_broadcast_def split: if_splits)
qed (use inv step in \<open>auto simp: owner_step_def pool_inv_def phase_inv_def split: if_splits list.splits\<close>)

lemma owner_queue_inv:
  assumes inv: "pool_inv n s" and step: "owner_step s = Some s'"
  shows "queue_inv s'"
proof (cases "owner s")
  case (Creating i)
  then have "i < unat n \<Longrightarrow> threads s ! i = Unborn" using inv by (simp add: pool_inv_def phase_inv_def count_inv_def)
  then show ?thesis using Creating inv step tasks_update [of i "threads s" Born]
    unfolding owner_step_def pool_inv_def queue_inv_def count_inv_def by (auto split: if_splits)
qed (use inv step in \<open>auto simp: owner_step_def pool_inv_def queue_inv_def broadcast_facts split: if_splits list.splits\<close>)

lemma owner_wake_inv:
  assumes inv: "pool_inv n s" and step: "owner_step s = Some s'"
  shows "wake_inv s'"
proof (cases "building (owner s)")
  case True
  then have "work_queue s = []" using inv by (simp add: pool_inv_def queue_inv_def)
  then have "work_queue s' = []" using True step by (cases "owner s") (auto simp: owner_step_def split: if_splits)
  then show ?thesis by (simp add: wake_inv_def)
next
  case False
  show ?thesis
  proof (cases "killthreads s")
    case True
    then have "killthreads s'" using step by (cases "owner s") (auto simp: owner_step_def split: if_splits list.splits)
    then show ?thesis by (simp add: wake_inv_def)
  next
    case False': False
    then show ?thesis using False inv step
      by (cases "owner s") (auto simp: owner_step_def pool_inv_def phase_inv_def wake_inv_def split: if_splits)
  qed
qed

lemma all_alive:
  assumes inv: "pool_inv n s" and o: "\<not> building (owner s)" "\<not> killing (owner s)"
  shows "num_threads_running s = n" "j < length (threads s) \<Longrightarrow> alive (threads s ! j)"
proof -
  show a: "alive (threads s ! j)" if "j < length (threads s)" for j
    using inv o that by (cases "threads s ! j"; cases "owner s") (auto simp: pool_inv_def phase_inv_def)
  have "filter alive (threads s) = threads s" using a by (auto simp: filter_id_conv in_set_conv_nth)
  then show "num_threads_running s = n" using inv by (simp add: pool_inv_def count_inv_def word_unat_eq_iff)
qed

lemma owner_join_inv:
  assumes inv: "pool_inv n s" and step: "owner_step s = Some s'"
  shows "join_inv n s'"
proof -
  have j: "join_inv n s" "length (threads s) = unat n" using inv by (simp_all add: pool_inv_def count_inv_def)
  show ?thesis
  proof (cases "owner s")
    case Destroying
    then show ?thesis using step all_alive(1) [OF inv] by (auto simp: owner_step_def join_inv_def joined_def split: if_splits)
  next
    case (Join_Test i m)
    show ?thesis
    proof (cases "i < unat m")
      case True
      then show ?thesis using Join_Test step j
        by (auto simp: owner_step_def join_inv_def joined_def no_waiting_def cond_broadcast_def)
    next
      case False
      then show ?thesis using Join_Test step all_joined [OF inv Join_Test False]
        by (auto simp: owner_step_def join_inv_def joined_def)
    qed
  next
    case (Joining i m)
    then show ?thesis using step j
      by (auto simp: owner_step_def join_inv_def joined_def no_waiting_def less_Suc_eq split: if_splits)
  next
    case (Rejoin i m)
    then show ?thesis using step j by (auto simp: owner_step_def join_inv_def joined_def no_waiting_def split: if_splits)
  next
    case Draining
    then show ?thesis using step j by (auto simp: owner_step_def join_inv_def joined_def split: list.splits)
  qed (use step in \<open>auto simp: owner_step_def join_inv_def split: if_splits\<close>)
qed

lemma owner_inv:
  assumes "pool_inv n s" "owner_step s = Some s'"
  shows "pool_inv n s'"
  using owner_lock_inv [OF assms] owner_count_inv [OF assms] owner_phase_inv [OF assms] owner_queue_inv [OF assms]
    owner_wake_inv [OF assms] owner_join_inv [OF assms]
  by (simp add: pool_inv_def [of n s'])

section \<open>Calls of the client\<close>

lemma call_inv:
  assumes inv: "pool_inv n s" and o: "owner s = Ready"
  shows "pool_inv n (s\<lparr>owner := Dispatching t\<rparr>)" "pool_inv n (s\<lparr>owner := Destroying\<rparr>)"
  using inv o by (auto simp: pool_inv_def lock_inv_def count_inv_def phase_inv_def queue_inv_def wake_inv_def join_inv_def)

lemma signal_facts:
  assumes "cond_signal ts ts'"
  shows "length ts' = length ts" "length (filter alive ts') = length (filter alive ts)" "running_tasks ts' = running_tasks ts"
    "\<forall>j < length ts. ts' ! j = ts ! j \<or> ts ! j = Waiting \<and> ts' ! j = Woken"
proof -
  have "length ts' = length ts \<and> length (filter alive ts') = length (filter alive ts) \<and> running_tasks ts' = running_tasks ts \<and>
      (\<forall>j < length ts. ts' ! j = ts ! j \<or> ts ! j = Waiting \<and> ts' ! j = Woken)"
    using assms
  proof cases
    case (somebody i)
    then show ?thesis using count_same [of i ts alive Woken] tasks_update [of i ts Woken] by (auto simp: nth_list_update)
  qed simp
  then show "length ts' = length ts" "length (filter alive ts') = length (filter alive ts)" "running_tasks ts' = running_tasks ts"
    "\<forall>j < length ts. ts' ! j = ts ! j \<or> ts ! j = Waiting \<and> ts' ! j = Woken" by blast+
qed

lemma signal_wakes:
  assumes "cond_signal ts ts'" "ts \<noteq> []" "\<forall>j < length ts. alive (ts ! j) \<and> ts ! j \<noteq> Outer_Test"
  shows "\<exists>j < length ts'. awake (ts' ! j)"
  using assms(1)
proof cases
  case nobody
  then have "ts ! 0 \<noteq> Waiting" "alive (ts ! 0)" "ts ! 0 \<noteq> Outer_Test" using assms(2,3) by (auto simp: in_set_conv_nth)
  then have "awake (ts ! 0)" by (cases "ts ! 0") auto
  then show ?thesis using nobody assms(2) by auto
next
  case (somebody i)
  then show ?thesis by (intro exI [of _ i]) simp
qed

lemma push_inv:
  assumes inv: "pool_inv n s" and o: "owner s = Pushing t" and sig: "cond_signal (threads s) ts"
  shows "pool_inv n (s\<lparr>work_queue := work_queue s @ [t], dispatched := dispatched s @ [t], threads := ts,
      qlock := None, owner := Ready\<rparr>)" (is "pool_inv n ?s")
proof -
  note f = signal_facts [OF sig]
  have l: "\<forall>j < length (threads s). \<not> holds (threads s ! j)" using inv o by (auto simp: pool_inv_def lock_inv_def)
  have a: "\<forall>j < length (threads s). alive (threads s ! j) \<and> threads s ! j \<noteq> Outer_Test"
  proof (intro allI impI conjI)
    fix j assume j: "j < length (threads s)"
    show "alive (threads s ! j)" by (rule all_alive(2) [OF inv _ _ j]) (simp_all add: o)
    show "threads s ! j \<noteq> Outer_Test" using l j by auto
  qed
  have h: "\<forall>j < length ts. \<not> holds (ts ! j) \<and> ts ! j \<noteq> Outer_Test \<and> alive (ts ! j)" using l a f(1,4) by force
  have "lock_inv ?s" using h by (simp add: lock_inv_def)
  moreover have "count_inv n ?s" using inv f(1,2) by (simp add: pool_inv_def count_inv_def)
  moreover have "phase_inv ?s" using inv o h unfolding pool_inv_def phase_inv_def by fastforce
  moreover have "queue_inv ?s" using inv f(3) by (simp add: pool_inv_def queue_inv_def)
  moreover have "wake_inv ?s"
  proof -
    have "threads s \<noteq> []" if "ts \<noteq> []" using that f(1) by auto
    then show ?thesis using h signal_wakes [OF sig _ a] by (auto simp: wake_inv_def)
  qed
  ultimately show ?thesis by (simp add: pool_inv_def join_inv_def)
qed

lemma step_inv: "pool_step s s' \<Longrightarrow> pool_inv n s \<Longrightarrow> pool_inv n s'"
proof (induction rule: pool_step.induct)
  case (push_killed s t)
  then show ?case by (simp add: pool_inv_def phase_inv_def)
qed (auto intro: thread_inv spurious_inv owner_inv call_inv push_inv)

lemma reachable_inv: "reachable n s \<Longrightarrow> pool_inv n s"
  by (induction rule: reachable.induct) (auto intro: new_pool_inv step_inv)

section \<open>No step is possible for ever\<close>

text \<open>
  The steps that remain when the client makes no more calls and no thread wakes up for no
  reason, once the constructor has returned.
\<close>

inductive quiet_step :: "'task pool \<Rightarrow> 'task pool \<Rightarrow> bool" where
  quiet_thread: "\<not> building (owner s) \<Longrightarrow> i < length (threads s) \<Longrightarrow> ThreadLoop_step i s = Some s' \<Longrightarrow> quiet_step s s'"
| quiet_own: "\<not> building (owner s) \<Longrightarrow> owner_step s = Some s' \<Longrightarrow> quiet_step s s'"
| quiet_push: "owner s = Pushing t \<Longrightarrow> \<not> killthreads s \<Longrightarrow> cond_signal (threads s) ts \<Longrightarrow>
    quiet_step s (s\<lparr>work_queue := work_queue s @ [t], dispatched := dispatched s @ [t], threads := ts,
      qlock := None, owner := Ready\<rparr>)"

fun thread_work :: "'task thread_pc \<Rightarrow> nat" where
  "thread_work Outer_Test = 1" | "thread_work Inner_Test = 2" | "thread_work Woken = 3" | "thread_work Task_Done = 3"
| "thread_work (Running _) = 4" | "thread_work _ = 0"

fun owner_work :: "nat \<Rightarrow> 'task owner_pc \<Rightarrow> nat" where
  "owner_work k (Pushing _) = 7"
| "owner_work k (Dispatching _) = 8"
| "owner_work k Destroying = k * (3 * k + 3) + 3"
| "owner_work k (Join_Test i m) = (unat m - i) * (3 * k + 3) + 2"
| "owner_work k (Joining i m) = (unat m - Suc i) * (3 * k + 3) + 4"
| "owner_work k (Rejoin i m) = (unat m - Suc i) * (3 * k + 3) + 3"
| "owner_work k Draining = 1"
| "owner_work k _ = 0"

definition work_left :: "'task pool \<Rightarrow> nat" where
  "work_left s = 3 * length (work_queue s) + sum_list (map thread_work (threads s)) + owner_work (length (threads s)) (owner s)"

lemma work_update:
  "i < length ts \<Longrightarrow> sum_list (map thread_work (ts[i := pc])) + thread_work (ts ! i) =
     sum_list (map thread_work ts) + thread_work pc"
proof (induction ts arbitrary: i)
  case (Cons t ts)
  show ?case
  proof (cases i)
    case (Suc k)
    then show ?thesis using Cons.IH [of k] Cons.prems by simp
  qed simp
qed simp

lemma work_broadcast: "sum_list (map thread_work (cond_broadcast ts)) \<le> sum_list (map thread_work ts) + 3 * length ts"
  by (induction ts) (auto simp: cond_broadcast_def wake_def)

lemma work_signal:
  assumes "cond_signal ts ts'"
  shows "sum_list (map thread_work ts') \<le> sum_list (map thread_work ts) + 3"
  using assms
proof cases
  case (somebody i)
  then show ?thesis using work_update [of i ts Woken] by simp
qed simp

lemma thread_works:
  assumes i: "i < length (threads s)" and step: "ThreadLoop_step i s = Some s'" and b: "threads s ! i \<noteq> Born"
  shows "work_left s' < work_left s"
  using step
proof (cases rule: ThreadLoop_cases)
  case relock
  then show ?thesis using work_update [OF i, of Inner_Test] by (auto simp: work_left_def)
next
  case block
  then show ?thesis using work_update [OF i, of Waiting] by (simp add: work_left_def)
next
  case end_thread
  then show ?thesis using work_update [OF i, of Exited] by (simp add: work_left_def)
next
  case (take t ts)
  then show ?thesis using work_update [OF i, of "Running t"] by (simp add: work_left_def)
next
  case leave
  then show ?thesis using work_update [OF i, of Outer_Test] by (simp add: work_left_def)
next
  case (run t)
  then show ?thesis using work_update [OF i, of Task_Done] by (simp add: work_left_def)
qed (use b in simp)

lemma owner_works:
  assumes inv: "pool_inv n s" and b: "\<not> building (owner s)" and step: "owner_step s = Some s'"
  shows "work_left s' < work_left s"
proof (cases "owner s")
  case Destroying
  have "length (threads s) = unat (num_threads_running s)"
    using all_alive(1) [OF inv] inv Destroying by (simp add: pool_inv_def count_inv_def)
  then show ?thesis using Destroying step by (auto simp: owner_step_def work_left_def split: if_splits)
next
  case (Join_Test i m)
  show ?thesis
  proof (cases "i < unat m")
    case True
    then have "unat m - i = Suc (unat m - Suc i)" by simp
    then show ?thesis using Join_Test True step work_broadcast [of "threads s"]
      by (auto simp: owner_step_def work_left_def broadcast_facts)
  next
    case False
    then show ?thesis using Join_Test step all_joined(1) [OF inv Join_Test] by (auto simp: owner_step_def work_left_def)
  qed
qed (use b step in \<open>auto simp: owner_step_def work_left_def split: if_splits list.splits\<close>)

lemma quiet_works:
  assumes "quiet_step s s'" "pool_inv n s"
  shows "work_left s' < work_left s"
  using assms(1)
proof cases
  case (quiet_thread i)
  then have "threads s ! i \<noteq> Born" using assms(2) by (auto simp: pool_inv_def phase_inv_def)
  then show ?thesis using quiet_thread thread_works by blast
next
  case quiet_own
  then show ?thesis using owner_works [OF assms(2)] by blast
next
  case (quiet_push t ts)
  then show ?thesis using work_signal [OF quiet_push(4)] by (simp add: work_left_def)
qed

lemma quiet_is_step: "quiet_step s s' \<Longrightarrow> pool_step s s'"
  by (induction rule: quiet_step.induct) (auto intro: pool_step.intros)

lemma signal_total: "\<exists>ts'. cond_signal ts ts'"
proof (cases "Waiting \<in> set ts")
  case True
  then show ?thesis by (auto simp: in_set_conv_nth intro: cond_signal.somebody)
qed (auto intro: cond_signal.nobody)

lemma stuck_threads:
  assumes inv: "pool_inv n s" and b: "\<not> building (owner s)" and st: "\<nexists>s'. quiet_step s s'"
  shows "qlock s = None" "\<forall>j < length (threads s). threads s ! j = Waiting \<or> threads s ! j = Exited"
proof -
  have none: "ThreadLoop_step j s = None" if "j < length (threads s)" for j
    using st quiet_thread [OF b that] by (cases "ThreadLoop_step j s") auto
  have own: "owner_step s = None" using st quiet_own [OF b] by (cases "owner_step s") auto
  have w: "\<not> holds (threads s ! j)" if "j < length (threads s)" for j
    using none [OF that] by (cases "threads s ! j") (auto simp: ThreadLoop_step_def split: if_splits list.splits)
  have "\<not> owner_holds (owner s)"
  proof
    assume "owner_holds (owner s)"
    then obtain t where "owner s = Pushing t"
      using own b by (cases "owner s") (auto simp: owner_step_def split: if_splits)
    moreover have "\<not> killthreads s" using inv calculation by (simp add: pool_inv_def phase_inv_def)
    ultimately show False using st signal_total [of "threads s"] quiet_push by metis
  qed
  then show l: "qlock s = None" using inv w by (auto simp: pool_inv_def lock_inv_def) (metis thread.exhaust not_None_eq)
  show "\<forall>j < length (threads s). threads s ! j = Waiting \<or> threads s ! j = Exited"
  proof (intro allI impI)
    fix j assume j: "j < length (threads s)"
    have "threads s ! j \<noteq> Unborn" "threads s ! j \<noteq> Born" using inv b j by (auto simp: pool_inv_def phase_inv_def)
    then show "threads s ! j = Waiting \<or> threads s ! j = Exited"
      using none [OF j] l by (cases "threads s ! j") (auto simp: ThreadLoop_step_def split: if_splits list.splits)
  qed
qed

lemma stuck_states:
  assumes inv: "pool_inv n s" and n: "n \<noteq> 0" and b: "\<not> building (owner s)" and st: "\<nexists>s'. quiet_step s s'"
  shows "(owner s = Ready \<or> owner s = Owner_Done) \<and> work_queue s = [] \<and> mset (finished s) = mset (dispatched s)"
proof -
  note l = stuck_threads(1) [OF inv b st] and t = stuck_threads(2) [OF inv b st]
  have own: "owner_step s = None" using st quiet_own [OF b] by (cases "owner_step s") auto
  have ph: "phase_inv s" and jn: "join_inv n s" using inv by (simp_all add: pool_inv_def)
  have o: "owner s = Ready \<or> owner s = Owner_Done"
  proof (cases "owner s")
    case (Pushing x)
    then have "qlock s = Some Owner" using inv by (simp add: pool_inv_def lock_inv_def)
    then show ?thesis using l by simp
  next
    case (Joining i m)
    then have "i < length (threads s)" "no_waiting s" using jn by (simp_all add: join_inv_def)
    then have "threads s ! i = Exited" using t by (auto simp: no_waiting_def)
    then show ?thesis using own Joining by (simp add: owner_step_def)
  qed (use own b l ph in \<open>auto simp: owner_step_def phase_inv_def split: if_splits list.splits\<close>)
  have q: "work_queue s = []"
  proof (rule ccontr)
    assume q: "work_queue s \<noteq> []"
    show False
    proof (cases "owner s = Ready")
      case True
      have "threads s \<noteq> []" using inv n by (auto simp: pool_inv_def count_inv_def unat_eq_0)
      moreover have "\<not> killthreads s" using ph True by (simp add: phase_inv_def)
      ultimately obtain j where "j < length (threads s)" "awake (threads s ! j)"
        using inv q by (auto simp: pool_inv_def wake_inv_def)
      then show False using t by fastforce
    next
      case False
      then show False using o jn q by (simp add: join_inv_def)
    qed
  qed
  have "\<forall>pc \<in> set (threads s). task_of pc = []" using t by (force simp: in_set_conv_nth)
  then have "running_tasks (threads s) = {#}" by (simp add: running_tasks_def)
  then show ?thesis using inv q o by (simp add: pool_inv_def queue_inv_def)
qed

section \<open>A run\<close>

text \<open>Runs given by the list of their moves, for concrete examples.\<close>

datatype 'task move = Thread nat | Own | Dispatch 'task | Push "nat option" | Destroy

fun play :: "'task move list \<Rightarrow> 'task pool \<Rightarrow> 'task pool option" where
  "play [] s = Some s"
| "play (Thread i # ms) s =
     (if i < length (threads s) then (case ThreadLoop_step i s of Some s' \<Rightarrow> play ms s' | None \<Rightarrow> None) else None)"
| "play (Own # ms) s = (case owner_step s of Some s' \<Rightarrow> play ms s' | None \<Rightarrow> None)"
| "play (Dispatch t # ms) s = (case owner s of Ready \<Rightarrow> play ms (s\<lparr>owner := Dispatching t\<rparr>) | _ \<Rightarrow> None)"
| "play (Destroy # ms) s = (case owner s of Ready \<Rightarrow> play ms (s\<lparr>owner := Destroying\<rparr>) | _ \<Rightarrow> None)"
| "play (Push w # ms) s =
     (case owner s of
        Pushing t \<Rightarrow>
          if killthreads s then None
          else
            (case w of
               None \<Rightarrow>
                 if list_all (\<lambda>pc. case pc of Waiting \<Rightarrow> False | _ \<Rightarrow> True) (threads s)
                 then play ms (s\<lparr>work_queue := work_queue s @ [t], dispatched := dispatched s @ [t], threads := threads s,
                        qlock := None, owner := Ready\<rparr>)
                 else None
             | Some j \<Rightarrow>
                 if j < length (threads s) \<and> (case threads s ! j of Waiting \<Rightarrow> True | _ \<Rightarrow> False)
                 then play ms (s\<lparr>work_queue := work_queue s @ [t], dispatched := dispatched s @ [t],
                        threads := (threads s)[j := Woken], qlock := None, owner := Ready\<rparr>)
                 else None)
      | _ \<Rightarrow> None)"

lemma play_reachable: "play ms s = Some s' \<Longrightarrow> reachable n s \<Longrightarrow> reachable n s'"
proof (induction ms s rule: play.induct)
  case (2 i ms s)
  then show ?case by (auto split: if_splits option.splits intro: reachable.step pool_step.thread)
next
  case (3 ms s)
  then show ?case by (auto split: option.splits intro: reachable.step pool_step.own)
next
  case (4 t ms s)
  then show ?case by (auto split: owner_pc.splits intro: reachable.step pool_step.call_dispatch)
next
  case (5 ms s)
  then show ?case by (auto split: owner_pc.splits intro: reachable.step pool_step.call_destroy)
next
  case (6 w ms s)
  then obtain t where o: "owner s = Pushing t" "\<not> killthreads s" by (auto split: owner_pc.splits if_splits)
  show ?case
  proof (cases w)
    case None
    then have "cond_signal (threads s) (threads s)"
      using 6(3) o by (intro cond_signal.nobody) (auto simp: list_all_iff split: if_splits thread_pc.splits)
    from pool_step.push [OF o this] have "pool_step s (s\<lparr>work_queue := work_queue s @ [t],
        dispatched := dispatched s @ [t], qlock := None, owner := Ready\<rparr>)" by simp
    then show ?thesis using 6 o None by (auto split: if_splits intro: reachable.step)
  next
    case (Some j)
    then have "cond_signal (threads s) ((threads s)[j := Woken])"
      using 6(3) o by (intro cond_signal.somebody) (auto split: if_splits thread_pc.splits)
    from reachable.step [OF 6(4) pool_step.push [OF o this]] show ?thesis using 6 o Some by (auto split: if_splits)
  qed
qed simp

definition two_threads :: "nat move list" where
  "two_threads = [Own, Own, Own, Own, Thread 0, Thread 0, Own, Own, Thread 1, Thread 1, Own, Own,
     Dispatch 7, Own, Push (Some 1), Dispatch 8, Own, Push (Some 0),
     Thread 1, Thread 1, Thread 0, Thread 0, Thread 1, Thread 0, Thread 0, Thread 0, Thread 0, Thread 1, Thread 1, Thread 1]"

definition destroyed :: "nat move list" where
  "destroyed = [Dispatch 9, Own, Push (Some 0), Destroy, Own, Own, Thread 0, Thread 0, Thread 0, Own,
     Thread 1, Thread 1, Thread 1, Own, Own, Own, Own, Own, Own, Own]"

lemma two_threads_play:
  "\<exists>s. play two_threads (new_pool 2) = Some s \<and> owner s = Ready \<and> threads s = [Waiting, Waiting] \<and> finished s = [7, 8]"
proof -
  have "map_option (\<lambda>s. (owner s, threads s, finished s)) (play two_threads (new_pool 2)) = Some (Ready, [Waiting, Waiting], [7, 8])"
    by code_simp
  then show ?thesis by auto
qed

lemma destroyed_play:
  "\<exists>s. play (two_threads @ destroyed) (new_pool 2) = Some s \<and> owner s = Owner_Done \<and> finished s = [7, 8, 9]"
proof -
  have "map_option (\<lambda>s. (owner s, finished s)) (play (two_threads @ destroyed) (new_pool 2)) = Some (Owner_Done, [7, 8, 9])"
    by code_simp
  then show ?thesis by auto
qed

lemma Waiting_stuck:
  assumes "owner s = Ready" "\<forall>i < length (threads s). threads s ! i = Waiting"
  shows "\<nexists>s'. quiet_step s s'"
proof
  assume "\<exists>s'. quiet_step s s'"
  then obtain s' where "quiet_step s s'" by blast
  then show False using assms by cases (auto simp: ThreadLoop_step_def owner_step_def)
qed

lemma pool_finishes:
  assumes r: "reachable n s" and o: "owner s = Owner_Done"
  shows "mset (finished s) = mset (dispatched s)"
proof -
  have inv: "pool_inv n s" by (rule reachable_inv [OF r])
  have j: "joined (length (threads s)) s" "work_queue s = []" using inv o by (simp_all add: pool_inv_def join_inv_def)
  have "\<forall>pc \<in> set (threads s). task_of pc = []" using j(1) by (force simp: joined_def in_set_conv_nth)
  then have "running_tasks (threads s) = {#}" by (simp add: running_tasks_def)
  then show ?thesis using inv j(2) by (simp add: pool_inv_def queue_inv_def)
qed

section \<open>Properties\<close>

text \<open>
  Property C5: in every state a pool can reach, however its threads and its owner are interleaved
  and whatever threads wake up for no reason: whoever is in a section that needs the lock holds it,
  so there is never more than one; no check of the pool fails; tasks leave the queue in the
  order they were dispatched in, and those that have left it are exactly the finished ones and
  the ones being run, each once.  When the destructor is done, every task that was ever
  dispatched has been run exactly once.
\<close>

theorem pool_runs_each_task_once:
  assumes "reachable n s"
  shows "(\<forall>i < length (threads s). holds (threads s ! i) \<longrightarrow> qlock s = Some (Worker i)) \<and>
     (owner_holds (owner s) \<longrightarrow> qlock s = Some Owner) \<and> owner s \<noteq> Check_Failed \<and>
     dispatched s = started s @ work_queue s \<and> mset (started s) = mset (finished s) + running_tasks (threads s) \<and>
     (owner s = Owner_Done \<longrightarrow> mset (finished s) = mset (dispatched s))"
proof -
  have inv: "pool_inv n s" by (rule reachable_inv [OF assms])
  then show ?thesis using pool_finishes [OF assms] by (auto simp: pool_inv_def lock_inv_def phase_inv_def queue_inv_def)
qed

lemma pool_runs_each_task_once_witness:
  "\<exists>s. play (two_threads @ destroyed) (new_pool 2) = Some s \<and> owner s = Owner_Done \<and>
     finished s = [7, 8, 9] \<and> mset (dispatched s) = {#7, 8, 9#}"
proof -
  obtain s where s: "play (two_threads @ destroyed) (new_pool 2) = Some s" "owner s = Owner_Done" "finished s = [7, 8, 9]"
    using destroyed_play by blast
  have "reachable 2 s" by (rule play_reachable [OF s(1) reachable.new])
  from pool_runs_each_task_once [OF this] s(2,3) have "mset (dispatched s) = mset [7, 8, 9]" by simp
  then show ?thesis using s by simp
qed

text \<open>
  Property C6: no wakeup is lost and no task waits for ever: once the constructor has returned and
  as long as the client makes no further call and no thread wakes up for no reason, a pool
  with at least one thread takes only finitely many steps, in whatever order its threads are scheduled;
  and when it can take no more, either all its threads wait for work or it is
  destroyed, the queue is empty and every dispatched task has been run.
\<close>

theorem every_task_gets_run:
  assumes "n \<noteq> 0"
  shows "wf {(s', s). reachable n s \<and> quiet_step s s'} \<and>
     (\<forall>s. reachable n s \<and> \<not> building (owner s) \<and> (\<nexists>s'. quiet_step s s') \<longrightarrow>
        (owner s = Ready \<or> owner s = Owner_Done) \<and> work_queue s = [] \<and> mset (finished s) = mset (dispatched s))"
proof
  show "wf {(s', s). reachable n s \<and> quiet_step s s'}"
    by (rule wf_subset [OF wf_measure [of work_left]]) (auto dest: quiet_works [OF _ reachable_inv])
  show "\<forall>s. reachable n s \<and> \<not> building (owner s) \<and> (\<nexists>s'. quiet_step s s') \<longrightarrow>
      (owner s = Ready \<or> owner s = Owner_Done) \<and> work_queue s = [] \<and> mset (finished s) = mset (dispatched s)"
    using stuck_states [OF reachable_inv assms] by blast
qed

lemma every_task_gets_run_witness:
  "\<exists>s. play two_threads (new_pool 2) = Some s \<and> (\<nexists>s'. quiet_step s s') \<and>
     work_queue s = [] \<and> finished s = [7, 8] \<and> mset (dispatched s) = {#7, 8#}"
proof -
  obtain s where s: "play two_threads (new_pool 2) = Some s" "owner s = Ready" "threads s = [Waiting, Waiting]" "finished s = [7, 8]"
    using two_threads_play by blast
  have r: "reachable 2 s" by (rule play_reachable [OF s(1) reachable.new])
  have st: "\<nexists>s'. quiet_step s s'" using s(2,3) by (intro Waiting_stuck) (auto simp: nth_Cons split: nat.splits)
  have "(2 :: 32 word) \<noteq> 0" by simp
  from every_task_gets_run [OF this] r st s(2) have "work_queue s = []" "mset (finished s) = mset (dispatched s)" by auto
  then show ?thesis using s st by auto
qed

end
