(* ===== verification/HttpUtils.thy ===== *)
theory HttpUtils
  imports FileParser FileSearch
begin

text \<open>
  The helpers of src/hw4/HttpUtils.cc: path safety, HTML escaping, URI decoding and parsing, and
  reading from and writing to a file descriptor.

  The string algorithms of Boost are not part of the repository: they are the functions of the
  record \<open>boost\<close>, a parameter of every definition that calls them, and \<open>boost_ok\<close> states what their
  documentation promises for the calls the program makes.  \<open>realpath\<close> is a parameter too.  The
  rest is the C and C++ standard library in the C locale.
\<close>

section \<open>Boost\<close>

text \<open>
  \<open>replace_all\<close> takes the input, what to search for and its replacement; \<open>split\<close> the input, the
  separators (\<open>is_any_of\<close>) and whether adjacent separators are merged.
\<close>

record boost =
  boost_replace_all :: "string \<Rightarrow> string \<Rightarrow> string \<Rightarrow> string"
  boost_split :: "string \<Rightarrow> string \<Rightarrow> bool \<Rightarrow> string list"
  boost_trim :: "string \<Rightarrow> string"
  boost_trim_right :: "string \<Rightarrow> string"
  boost_to_lower :: "string \<Rightarrow> string"

text \<open>The tokens between separators; merging drops the empty ones that are neither first nor last.\<close>

fun tokens_of :: "char set \<Rightarrow> string \<Rightarrow> string list" where
  "tokens_of seps [] = [[]]"
| "tokens_of seps (c # cs) =
     (if c \<in> seps then [] # tokens_of seps cs
      else case tokens_of seps cs of [] \<Rightarrow> [[c]] | w # ws \<Rightarrow> (c # w) # ws)"

definition merge_empty :: "string list \<Rightarrow> string list" where
  "merge_empty ts =
     (case ts of [] \<Rightarrow> [] | [t] \<Rightarrow> [t] | t # ts \<Rightarrow> t # filter (\<lambda>w. w \<noteq> []) (butlast ts) @ [last ts])"

definition boost_ok :: "boost \<Rightarrow> bool" where
  "boost_ok b \<longleftrightarrow>
     (\<forall>s c r. boost_replace_all b s [c] r = concat (map (\<lambda>x. if x = c then r else [x]) s)) \<and>
     (\<forall>s seps. boost_split b s seps False = tokens_of (set seps) s) \<and>
     (\<forall>s seps. boost_split b s seps True = merge_empty (tokens_of (set seps) s)) \<and>
     (\<forall>s. boost_trim_right b s = rev (dropWhile isspace (rev s))) \<and>
     (\<forall>s. boost_trim b s = dropWhile isspace (rev (dropWhile isspace (rev s)))) \<and>
     (\<forall>s. boost_to_lower b s = map tolower s)"

section \<open>Paths and HTML\<close>

text \<open>What a C function sees of a C++ string.\<close>

definition c_str :: "string \<Rightarrow> string" where
  "c_str s = takeWhile (\<lambda>c. c \<noteq> NUL) s"

definition IsPathSafe :: "(string \<Rightarrow> string option) \<Rightarrow> string \<Rightarrow> string \<Rightarrow> bool" where
  "IsPathSafe realpath rootdir testfile =
     (case realpath (c_str rootdir) of
        None \<Rightarrow> False
      | Some rootpathbuffer \<Rightarrow>
          (case realpath (c_str testfile) of
             None \<Rightarrow> False
           | Some testfilebuffer \<Rightarrow>
               if length testfilebuffer \<le> length rootpathbuffer then False
               else if take (length rootpathbuffer) testfilebuffer \<noteq> rootpathbuffer then False
               else True))"

definition EscapeHTML :: "boost \<Rightarrow> string \<Rightarrow> string" where
  "EscapeHTML b from =
     (let ret = boost_replace_all b from ''&'' ''&amp;'';
          ret = boost_replace_all b ret [CHR 0x22] ''&quot;'';
          ret = boost_replace_all b ret [CHR 0x27] ''&apos;'';
          ret = boost_replace_all b ret ''<'' ''&lt;'';
          ret = boost_replace_all b ret ''>'' ''&gt;''
      in ret)"

section \<open>URIs\<close>

definition toupper :: "char \<Rightarrow> char" where
  "toupper c = (if 97 \<le> (of_char c :: nat) \<and> (of_char c :: nat) \<le> 122
                then char_of (of_char c - 32 :: nat) else c)"

text \<open>The two tests and the two conversions of a digit; \<open>c\<close> is in upper case.\<close>

definition hex_char :: "char \<Rightarrow> bool" where
  "hex_char c \<longleftrightarrow> (48 \<le> (of_char c :: nat) \<and> (of_char c :: nat) \<le> 57) \<or>
                  (65 \<le> (of_char c :: nat) \<and> (of_char c :: nat) \<le> 70)"

definition hex_digit :: "char \<Rightarrow> 8 word" where
  "hex_digit c = (if 65 \<le> (of_char c :: nat) then 10 + of_nat (of_char c - 65) else of_nat (of_char c - 48))"

text \<open>
  The code keeps its position in an \<open>unsigned int\<close>; the model is that of strings below 4 GiB, in which
  it does not wrap.
\<close>

function URIDecode :: "string \<Rightarrow> string" where
  "URIDecode [] = []"
| "URIDecode (c1 # cs) =
     (let c2 = (if 0 < length cs then toupper (cs ! 0) else CHR '' '');
          c3 = (if 1 < length cs then toupper (cs ! 1) else CHR '' '')
      in if c1 = CHR ''+'' then CHR '' '' # URIDecode cs
      else if c1 \<noteq> CHR ''%'' then c1 # URIDecode cs
      else if \<not> hex_char c2 then c1 # URIDecode cs
      else if \<not> hex_char c3 then c1 # URIDecode cs
      else
        let code = 16 * hex_digit c2 + hex_digit c3
        in if \<not> (32 \<le> code \<and> code \<le> 127) then c1 # URIDecode cs
           else char_of (unat code) # URIDecode (drop 2 cs))"
  by pat_completeness auto
termination by (relation "measure length") auto

record url_parser =
  up_url :: string
  up_path :: string
  up_args :: "string \<Rightarrow> string option"

definition URLParser :: url_parser where
  "URLParser = \<lparr>up_url = [], up_path = [], up_args = Map.empty\<rparr>"

text \<open>The loop over the chunks \<open>field=value\<close>.\<close>

fun parse_args :: "boost \<Rightarrow> string list \<Rightarrow> (string \<Rightarrow> string option) \<Rightarrow> string \<Rightarrow> string option" where
  "parse_args b [] args = args"
| "parse_args b (val # vals) args =
     (case boost_split b val ''='' False of
        [f, v] \<Rightarrow> parse_args b vals (args(URIDecode f \<mapsto> URIDecode v))
      | _ \<Rightarrow> parse_args b vals args)"

definition Parse :: "boost \<Rightarrow> url_parser \<Rightarrow> string \<Rightarrow> url_parser" where
  "Parse b p url =
     (let p = p\<lparr>up_url := url\<rparr> in
      case boost_split b url ''?'' False of
        [] \<Rightarrow> p
      | [path] \<Rightarrow> p\<lparr>up_path := URIDecode path\<rparr>
      | path # args # _ \<Rightarrow>
          p\<lparr>up_path := URIDecode path, up_args := parse_args b (boost_split b args ''&'' False) (up_args p)\<rparr>)"

definition get_path :: "url_parser \<Rightarrow> string" where
  "get_path p = up_path p"

definition get_args :: "url_parser \<Rightarrow> string \<Rightarrow> string option" where
  "get_args p = up_args p"

section \<open>Ports and sockets\<close>

text \<open>\<open>pid\<close> and \<open>r\<close> are the results of \<open>getpid\<close> and \<open>rand\<close>.\<close>

definition GetRandPort :: "int \<Rightarrow> int \<Rightarrow> 16 word" where
  "GetRandPort pid r =
     (let portnum = 10000;
          portnum = portnum + (word_of_int pid mod 25000);
          portnum = portnum + (word_of_int r mod 5000)
      in portnum)"

text \<open>
  The outcomes of the next calls of \<open>read\<close> and \<open>write\<close> on a descriptor.  Past the end of the list
  \<open>read\<close> reports the end of the input and \<open>write\<close> writes everything.  The result of
  \<open>WrappedRead\<close> is \<open>None\<close> for -1.
\<close>

fun WrappedRead :: "read_outcome list \<Rightarrow> nat \<Rightarrow> (string option \<times> read_outcome list) res" where
  "WrappedRead [] readlen = Inr (Some [], [])"
| "WrappedRead (ReadAgain # outs) readlen = WrappedRead outs readlen"
| "WrappedRead (ReadError # outs) readlen = Inr (None, outs)"
| "WrappedRead (ReadBytes bs # outs) readlen =
     (if readlen < length bs then Inl Undefined_Behaviour else Inr (Some bs, outs))"

datatype write_outcome = Wrote nat | WriteAgain | WriteError

text \<open>
  \<open>buf\<close> is what is left to write; the result is how many bytes have been written, and the
  bytes.  A call never reports more bytes than it was given.
\<close>

fun WrappedWrite :: "write_outcome list \<Rightarrow> string \<Rightarrow> string \<times> write_outcome list" where
  "WrappedWrite outs [] = ([], outs)"
| "WrappedWrite [] (c # buf) = (c # buf, [])"
| "WrappedWrite (WriteAgain # outs) (c # buf) = WrappedWrite outs (c # buf)"
| "WrappedWrite (WriteError # outs) (c # buf) = ([], outs)"
| "WrappedWrite (Wrote n # outs) (c # buf) =
     (if n = 0 then ([], outs)
      else let (sent, outs) = WrappedWrite outs (drop n (c # buf)) in (take n (c # buf) @ sent, outs))"

text \<open>
  \<open>results\<close> is what \<open>getaddrinfo\<close> found, if it succeeded: for each address the descriptor that
  \<open>socket\<close> returns, if any, and whether \<open>connect\<close> succeeds.
\<close>

fun connect_loop :: "(int option \<times> bool) list \<Rightarrow> int option" where
  "connect_loop [] = None"
| "connect_loop ((None, _) # rs) = connect_loop rs"
| "connect_loop ((Some clientsock, connected) # rs) = (if \<not> connected then connect_loop rs else Some clientsock)"

definition ConnectToServer :: "(int option \<times> bool) list option \<Rightarrow> int option" where
  "ConnectToServer results = (case results of None \<Rightarrow> None | Some rs \<Rightarrow> connect_loop rs)"

end
