(* ===== verification/HttpUtilsSpec.thy ===== *)
theory HttpUtilsSpec
  imports HttpUtils "HOL-Library.Sublist"
begin

text \<open>
  Properties of the HTTP helpers: what escaping and decoding do to a string, which paths are
  taken for safe, and that writing to a descriptor writes a prefix.
\<close>

section \<open>A Boost that does what its documentation says\<close>

definition boost_ref :: boost where
  "boost_ref =
     \<lparr>boost_replace_all = (\<lambda>s pat r. case pat of [c] \<Rightarrow> concat (map (\<lambda>x. if x = c then r else [x]) s) | _ \<Rightarrow> s),
      boost_split = (\<lambda>s seps merge. if merge then merge_empty (tokens_of (set seps) s) else tokens_of (set seps) s),
      boost_trim = (\<lambda>s. dropWhile isspace (rev (dropWhile isspace (rev s)))),
      boost_trim_right = (\<lambda>s. rev (dropWhile isspace (rev s))),
      boost_to_lower = map tolower\<rparr>"

lemma boost_ref_ok: "boost_ok boost_ref"
  by (simp add: boost_ok_def boost_ref_def)

lemma boost_simps:
  assumes "boost_ok b"
  shows "boost_replace_all b s [c] r = concat (map (\<lambda>x. if x = c then r else [x]) s)"
    "boost_split b s seps merge = (if merge then merge_empty (tokens_of (set seps) s) else tokens_of (set seps) s)"
    "boost_trim_right b s = rev (dropWhile isspace (rev s))"
    "boost_to_lower b s = map tolower s"
  using assms by (simp_all add: boost_ok_def)

section \<open>Tokens\<close>

lemma tokens_nonempty: "tokens_of seps s \<noteq> []"
  by (induction s) (auto split: list.splits)

lemma tokens_none: "set s \<inter> seps = {} \<Longrightarrow> tokens_of seps s = [s]"
  by (induction s) auto

lemma tokens_append:
  "set s \<inter> seps = {} \<Longrightarrow> c \<in> seps \<Longrightarrow> tokens_of seps (s @ c # t) = s # tokens_of seps t"
  by (induction s) auto

section \<open>Escaping\<close>

definition escape_char :: "char \<Rightarrow> string" where
  "escape_char c =
     (if c = CHR ''&'' then ''&amp;'' else if c = CHR 0x22 then ''&quot;'' else if c = CHR 0x27 then ''&apos;''
      else if c = CHR ''<'' then ''&lt;'' else if c = CHR ''>'' then ''&gt;'' else [c])"

lemma EscapeHTML_chars:
  assumes "boost_ok b"
  shows "EscapeHTML b s = concat (map escape_char s)"
proof (induction s)
  case (Cons c s)
  have "EscapeHTML b (c # s) = EscapeHTML b [c] @ EscapeHTML b s"
    by (simp add: EscapeHTML_def boost_simps [OF assms] Let_def)
  moreover have "EscapeHTML b [c] = escape_char c"
    by (simp add: EscapeHTML_def boost_simps [OF assms] Let_def escape_char_def)
  ultimately show ?case using Cons.IH by simp
qed (simp add: EscapeHTML_def boost_simps [OF assms] Let_def)

text \<open>The text a browser shows: the five entities stand for their characters.\<close>

fun html_entity :: "string \<Rightarrow> (char \<times> nat) option" where
  "html_entity s =
     (if prefix ''&amp;'' s then Some (CHR ''&'', 5) else if prefix ''&quot;'' s then Some (CHR 0x22, 6)
      else if prefix ''&apos;'' s then Some (CHR 0x27, 6) else if prefix ''&lt;'' s then Some (CHR ''<'', 4)
      else if prefix ''&gt;'' s then Some (CHR ''>'', 4) else None)"

function html_text :: "string \<Rightarrow> string" where
  "html_text [] = []"
| "html_text (c # s) =
     (case html_entity (c # s) of
        None \<Rightarrow> c # html_text s
      | Some (d, n) \<Rightarrow> d # html_text (drop (n - 1) s))"
  by pat_completeness auto
termination by (relation "measure length") auto

lemma html_text_char: "html_text (escape_char c @ s) = c # html_text s"
  by (auto simp: escape_char_def)

section \<open>Decoding\<close>

text \<open>Percent-encoding of every character.\<close>

definition hex :: "nat \<Rightarrow> char" where
  "hex n = char_of (if n < 10 then 48 + n else 55 + n)"

definition percent :: "char \<Rightarrow> string" where
  "percent c = [CHR ''%'', hex (of_char c div 16), hex (of_char c mod 16)]"

definition printable :: "char \<Rightarrow> bool" where
  "printable c \<longleftrightarrow> 32 \<le> (of_char c :: nat) \<and> (of_char c :: nat) \<le> 127"

lemma hex_ok:
  "n < 16 \<Longrightarrow> hex_char (toupper (hex n)) \<and> hex_digit (toupper (hex n)) = of_nat n"
proof (cases "n < 10")
  case True
  then have "of_char (hex n) = 48 + n" by (simp add: hex_def of_char_of take_bit_nat_eq_self)
  then show "n < 16 \<Longrightarrow> ?thesis" using True by (simp add: toupper_def hex_char_def hex_digit_def)
next
  case False
  assume "n < 16"
  then have "of_char (hex n) = 55 + n" using False by (simp add: hex_def of_char_of take_bit_nat_eq_self)
  moreover have "(10 + of_nat (n - 10) :: 8 word) = of_nat n" using False by (simp add: of_nat_diff)
  ultimately show ?thesis using False \<open>n < 16\<close> by (simp add: toupper_def hex_char_def hex_digit_def)
qed

lemma URIDecode_percent:
  assumes "printable c"
  shows "URIDecode (percent c @ s) = c # URIDecode s"
proof -
  let ?n = "of_char c :: nat"
  have n: "32 \<le> ?n" "?n \<le> 127" using assms by (simp_all add: printable_def)
  have d: "?n div 16 < 16" "?n mod 16 < 16" using n by auto
  have "(of_nat ?n :: 8 word) = of_nat (16 * (?n div 16) + ?n mod 16)" by simp
  then have code: "16 * of_nat (?n div 16) + of_nat (?n mod 16) = (of_nat ?n :: 8 word)"
    by (simp only: of_nat_add of_nat_mult of_nat_numeral)
  have u: "unat (of_nat ?n :: 8 word) = ?n" using n by (simp add: unsigned_of_nat take_bit_nat_eq_self)
  have "32 \<le> (of_nat ?n :: 8 word)" "(of_nat ?n :: 8 word) \<le> 127" using n u by (simp_all add: word_le_nat_alt)
  then show ?thesis using hex_ok [OF d(1)] hex_ok [OF d(2)] code u by (simp add: percent_def Let_def)
qed

text \<open>An encoder: \<open>P\<close> says which characters are written as a percent sign and two digits.\<close>

definition uri_encode :: "(char \<Rightarrow> bool) \<Rightarrow> string \<Rightarrow> string" where
  "uri_encode P s = concat (map (\<lambda>c. if P c then percent c else [c]) s)"

definition encodes :: "(char \<Rightarrow> bool) \<Rightarrow> string \<Rightarrow> bool" where
  "encodes P s \<longleftrightarrow> (\<forall>c \<in> set s. P c \<longrightarrow> printable c)"

lemma URIDecode_encode:
  assumes "P CHR ''%''" "P CHR ''+''" "encodes P s"
  shows "URIDecode (uri_encode P s) = s"
  using assms(3)
proof (induction s)
  case (Cons c s)
  show ?case
  proof (cases "P c")
    case True
    then show ?thesis using Cons URIDecode_percent [of c] by (simp add: uri_encode_def encodes_def)
  next
    case False
    then have "c \<noteq> CHR ''%''" "c \<noteq> CHR ''+''" using assms(1,2) by auto
    then show ?thesis using False Cons by (simp add: uri_encode_def encodes_def Let_def)
  qed
qed (simp add: uri_encode_def)

lemma hex_alnum: "n < 16 \<Longrightarrow> hex n \<notin> {CHR ''?'', CHR ''&'', CHR ''='', CHR ''+'', CHR ''%''}"
proof -
  assume "n < 16"
  then have h: "hex_char (toupper (hex n))" using hex_ok by blast
  have "\<not> hex_char (toupper c)" if "c \<in> {CHR ''?'', CHR ''&'', CHR ''='', CHR ''+'', CHR ''%''}" for c
    using that by (auto simp: toupper_def hex_char_def)
  then show "hex n \<notin> {CHR ''?'', CHR ''&'', CHR ''='', CHR ''+'', CHR ''%''}" using h by blast
qed

lemma encode_free:
  assumes "P c" "c \<in> {CHR ''?'', CHR ''&'', CHR ''=''}"
  shows "c \<notin> set (uri_encode P s)"
proof -
  have "c \<notin> set (percent d)" for d :: char
  proof -
    have "(of_char d :: nat) div 16 < 16" using nat_of_char_less_256 [of d] by (simp add: div_less_iff_less_mult)
    then show ?thesis using assms(2) hex_alnum [of "of_char d div 16"] hex_alnum [of "of_char d mod 16"]
      by (auto simp: percent_def)
  qed
  then show ?thesis using assms(1) by (auto simp: uri_encode_def split: if_splits)
qed

fun join_with :: "char \<Rightarrow> string list \<Rightarrow> string" where
  "join_with c [] = []"
| "join_with c [w] = w"
| "join_with c (w # ws) = w @ c # join_with c ws"

lemma tokens_of_join: "ws \<noteq> [] \<Longrightarrow> \<forall>w \<in> set ws. c \<notin> set w \<Longrightarrow> tokens_of {c} (join_with c ws) = ws"
  by (induction c ws rule: join_with.induct) (auto simp: tokens_none tokens_append)

definition build_args :: "(char \<Rightarrow> bool) \<Rightarrow> (string \<times> string) list \<Rightarrow> string list" where
  "build_args P kvs = map (\<lambda>(k, v). uri_encode P k @ CHR ''='' # uri_encode P v) kvs"

definition build_url :: "(char \<Rightarrow> bool) \<Rightarrow> string \<Rightarrow> (string \<times> string) list \<Rightarrow> string" where
  "build_url P path kvs = uri_encode P path @ CHR ''?'' # join_with CHR ''&'' (build_args P kvs)"

definition url_encoder :: "(char \<Rightarrow> bool) \<Rightarrow> bool" where
  "url_encoder P \<longleftrightarrow> (\<forall>c \<in> {CHR ''%'', CHR ''+'', CHR ''?'', CHR ''&'', CHR ''=''}. P c)"

lemma parse_build_args:
  assumes b: "boost_ok b" and P: "url_encoder P" and kvs: "\<forall>(k, v) \<in> set kvs. encodes P k \<and> encodes P v"
  shows "parse_args b (build_args P kvs) args = args ++ map_of (rev kvs)"
  using kvs
proof (induction kvs arbitrary: args)
  case (Cons kv kvs)
  obtain k v where kv: "kv = (k, v)" by (cases kv)
  have e: "CHR ''='' \<notin> set (uri_encode P s)" for s using P by (intro encode_free) (auto simp: url_encoder_def)
  have "boost_split b (uri_encode P k @ CHR ''='' # uri_encode P v) ''='' False = [uri_encode P k, uri_encode P v]"
    using e by (simp add: boost_simps [OF b] tokens_append tokens_none)
  moreover have "URIDecode (uri_encode P k) = k" "URIDecode (uri_encode P v) = v"
    using P Cons.prems kv by (auto simp: url_encoder_def intro!: URIDecode_encode)
  ultimately show ?case using Cons kv by (simp add: build_args_def map_add_def fun_eq_iff split: option.splits)
qed (simp add: build_args_def)

lemma Parse_build:
  assumes b: "boost_ok b" and P: "url_encoder P" and path: "encodes P path" and kvs: "\<forall>(k, v) \<in> set kvs. encodes P k \<and> encodes P v"
  shows "get_path (Parse b URLParser (build_url P path kvs)) = path \<and>
     get_args (Parse b URLParser (build_url P path kvs)) = map_of (rev kvs)"
proof -
  have q: "CHR ''?'' \<notin> set (uri_encode P s)" for s using P by (intro encode_free) (auto simp: url_encoder_def)
  have a: "CHR ''&'' \<notin> set (uri_encode P s)" for s using P by (intro encode_free) (auto simp: url_encoder_def)
  have set_join: "set (join_with c ws) \<subseteq> insert c (\<Union>w \<in> set ws. set w)" for c :: char and ws
    by (induction c ws rule: join_with.induct) auto
  have "CHR ''?'' \<notin> set (join_with CHR ''&'' (build_args P kvs))"
    using set_join [of "CHR ''&''" "build_args P kvs"] q by (auto simp: build_args_def)
  then have s1: "boost_split b (build_url P path kvs) ''?'' False = [uri_encode P path, join_with CHR ''&'' (build_args P kvs)]"
    using q by (simp add: boost_simps [OF b] build_url_def tokens_append tokens_none)
  have p: "URIDecode (uri_encode P path) = path" using P path by (auto simp: url_encoder_def intro!: URIDecode_encode)
  have "parse_args b (boost_split b (join_with CHR ''&'' (build_args P kvs)) ''&'' False) Map.empty = map_of (rev kvs)"
  proof (cases "kvs = []")
    case True
    then show ?thesis by (simp add: build_args_def boost_simps [OF b])
  next
    case False
    have "\<forall>w \<in> set (build_args P kvs). CHR ''&'' \<notin> set w" using a by (auto simp: build_args_def)
    then have "boost_split b (join_with CHR ''&'' (build_args P kvs)) ''&'' False = build_args P kvs"
      using False by (simp add: boost_simps [OF b] tokens_of_join build_args_def)
    then show ?thesis using parse_build_args [OF b P kvs, of Map.empty] by simp
  qed
  then show ?thesis using s1 p by (simp add: Parse_def URLParser_def get_path_def get_args_def)
qed

section \<open>Paths, ports and writes\<close>

lemma IsPathSafe_prefix:
  "IsPathSafe realpath rootdir testfile \<longleftrightarrow>
     (\<exists>r t. realpath (c_str rootdir) = Some r \<and> realpath (c_str testfile) = Some t \<and> strict_prefix r t)"
proof -
  have "strict_prefix r t \<longleftrightarrow> length r < length t \<and> take (length r) t = r" for r t :: string
    by (metis prefix_length_less prefix_order.less_le strict_prefixI take_is_prefix append_eq_conv_conj prefix_def less_irrefl)
  then show ?thesis by (auto simp: IsPathSafe_def split: option.splits)
qed

text \<open>Containment as the header describes it, for canonical paths.\<close>

definition below :: "string \<Rightarrow> string \<Rightarrow> bool" where
  "below r t \<longleftrightarrow> (if r = ''/'' then strict_prefix r t else strict_prefix (r @ ''/'') t)"

lemma WrappedWrite_prefix: "prefix (fst (WrappedWrite outs buf)) buf"
proof (induction outs buf rule: WrappedWrite.induct)
  case (5 n outs c buf)
  show ?case
  proof (cases "n = 0")
    case False
    then have "prefix (fst (WrappedWrite outs (drop n (c # buf)))) (drop n (c # buf))" using 5 by simp
    then show ?thesis using False by (auto simp: split_beta prefix_def) (metis append_assoc append_take_drop_id)
  qed simp
qed simp_all

lemma GetRandPort_bounds: "10000 \<le> unat (GetRandPort pid r) \<and> unat (GetRandPort pid r) < 40000"
proof -
  have a: "unat ((word_of_int pid :: 16 word) mod 25000) < 25000" "unat ((word_of_int r :: 16 word) mod 5000) < 5000"
    by (simp_all add: unat_mod)
  then have "unat (GetRandPort pid r) = 10000 + unat ((word_of_int pid :: 16 word) mod 25000) + unat ((word_of_int r :: 16 word) mod 5000)"
    by (simp add: GetRandPort_def Let_def unat_word_ariths)
  then show ?thesis using a by simp
qed

section \<open>Properties\<close>

text \<open>
  Property C17: escaping: the result has no quotes and no angle brackets, so it can neither open a
  tag nor leave an attribute, and what a browser shows for it is the original string.
\<close>

theorem EscapeHTML_is_safe:
  assumes "boost_ok b"
  shows "set (EscapeHTML b s) \<inter> {CHR ''<'', CHR ''>'', CHR 0x22, CHR 0x27} = {} \<and> html_text (EscapeHTML b s) = s"
proof
  show "set (EscapeHTML b s) \<inter> {CHR ''<'', CHR ''>'', CHR 0x22, CHR 0x27} = {}"
    by (auto simp: EscapeHTML_chars [OF assms] escape_char_def split: if_splits)
  show "html_text (EscapeHTML b s) = s"
    unfolding EscapeHTML_chars [OF assms] by (induction s) (simp_all add: html_text_char)
qed

lemma EscapeHTML_is_safe_witness:
  "EscapeHTML boost_ref ''<a&b>'' = ''&lt;a&amp;b&gt;'' \<and> html_text (EscapeHTML boost_ref ''<a&b>'') = ''<a&b>''"
  using EscapeHTML_is_safe [OF boost_ref_ok, of "''<a&b>''"] by (simp add: EscapeHTML_def boost_ref_def Let_def)

text \<open>
  Property C16: parsing a URL: of one that was put together from a path and arguments,
  percent-encoding whatever characters one likes as long as the five with a meaning are among them and all
  of them are printable, the parser gives back the path and the arguments, the last
  one for a name that occurs twice.
\<close>

theorem url_round_trip:
  assumes "boost_ok b" "url_encoder P" "encodes P path" "\<forall>(k, v) \<in> set kvs. encodes P k \<and> encodes P v"
  shows "get_path (Parse b URLParser (build_url P path kvs)) = path \<and>
     get_args (Parse b URLParser (build_url P path kvs)) = map_of (rev kvs)"
  using Parse_build [OF assms] .

lemma url_round_trip_witness:
  "build_url (\<lambda>c. c \<in> {CHR ''%'', CHR ''+'', CHR ''?'', CHR ''&'', CHR ''='', CHR '' ''}) ''/q'' [(''terms'', ''a+b c'')] =
     ''/q?terms=a%2Bb%20c'' \<and>
   get_path (Parse boost_ref URLParser ''/q?terms=a%2Bb%20c'') = ''/q'' \<and>
   get_args (Parse boost_ref URLParser ''/q?terms=a%2Bb%20c'') = [''terms'' \<mapsto> ''a+b c'']"
proof -
  let ?P = "\<lambda>c. c \<in> {CHR ''%'', CHR ''+'', CHR ''?'', CHR ''&'', CHR ''='', CHR '' ''}"
  have u: "build_url ?P ''/q'' [(''terms'', ''a+b c'')] = ''/q?terms=a%2Bb%20c''"
    by code_simp
  have "url_encoder ?P" by (simp add: url_encoder_def)
  moreover have "encodes ?P ''/q''" "encodes ?P ''terms''" "encodes ?P ''a+b c''" by (auto simp: encodes_def printable_def)
  ultimately show ?thesis
    using url_round_trip [OF boost_ref_ok, of ?P "''/q''" "[(''terms'', ''a+b c'')]"] u by (simp add: fun_eq_iff)
qed

text \<open>
  Property C22: path safety is not containment: a file outside the root directory is taken for safe
  when its path continues the root's with other characters than a slash, as a sibling directory does whose
  name begins with the root's.
\<close>

theorem sibling_path_is_safe:
  assumes "realpath (c_str rootdir) = Some r" "realpath (c_str testfile) = Some (r @ c # rest)" "c \<noteq> CHR ''/''" "r \<noteq> ''/''"
  shows "IsPathSafe realpath rootdir testfile \<and> \<not> below r (r @ c # rest)"
  using assms by (auto simp: IsPathSafe_prefix below_def strict_prefix_def prefix_def)

lemma sibling_path_is_safe_witness:
  "IsPathSafe [''www'' \<mapsto> ''/srv/www'', ''www/../www-private/key'' \<mapsto> ''/srv/www-private/key''] ''www'' ''www/../www-private/key'' \<and>
   \<not> below ''/srv/www'' ''/srv/www-private/key''"
  using sibling_path_is_safe [of "[''www'' \<mapsto> ''/srv/www'', ''www/../www-private/key'' \<mapsto> ''/srv/www-private/key'']"
      "''www''" "''/srv/www''" "''www/../www-private/key''" "CHR ''-''" "''private/key''"]
  by (simp add: c_str_def NUL_def)

end
