(* ===== verification/HttpConnection.thy ===== *)
theory HttpConnection
  imports HttpUtils
begin

text \<open>
  A connection to one client: src/hw4/HttpConnection.cc, HttpRequest.h and HttpResponse.h.

  The descriptor is the outcomes of its next reads and writes and what has been sent.  A
  \<open>std::map\<close> that is only looked up is a partial function; the headers of a response, which are
  printed in the order of their keys, are a list that is kept sorted.
\<close>

section \<open>Requests\<close>

record http_request =
  URI :: string
  headers :: "string \<Rightarrow> string option"

definition HttpRequest :: http_request where
  "HttpRequest = \<lparr>URI = [], headers = Map.empty\<rparr>"

record http_connection =
  in_buffer :: string
  fd_reads :: "read_outcome list"
  fd_writes :: "write_outcome list"
  fd_sent :: string

definition HttpConnection :: "read_outcome list \<Rightarrow> write_outcome list \<Rightarrow> http_connection" where
  "HttpConnection reads writes = \<lparr>in_buffer = [], fd_reads = reads, fd_writes = writes, fd_sent = []\<rparr>"

definition CRLF :: string where
  "CRLF = [CHR 0x0D, CHR 0x0A]"

text \<open>\<open>std::string::find\<close>, with \<open>None\<close> for \<open>npos\<close>.\<close>

fun string_find :: "string \<Rightarrow> string \<Rightarrow> nat option" where
  "string_find pat [] = (if pat = [] then Some 0 else None)"
| "string_find pat (c # cs) =
     (if take (length pat) (c # cs) = pat then Some 0 else map_option Suc (string_find pat cs))"

text \<open>The loop over the lines of headers.\<close>

fun parse_headers :: "boost \<Rightarrow> string list \<Rightarrow> (string \<Rightarrow> string option) \<Rightarrow> (string \<Rightarrow> string option) res" where
  "parse_headers b [] hs = Inr hs"
| "parse_headers b (line # lines) hs =
     (let cur_line_elements = boost_split b line '': '' True in
      bindE (index_res cur_line_elements 0) (\<lambda>header.
      bindE (index_res cur_line_elements 1) (\<lambda>v.
      parse_headers b lines (hs(boost_to_lower b header \<mapsto> v)))))"

definition ParseRequest :: "boost \<Rightarrow> http_connection \<Rightarrow> nat \<Rightarrow> http_request res" where
  "ParseRequest b hc end_of_headers =
     (let str = take end_of_headers (in_buffer hc);
          lines = map (boost_trim_right b) (boost_split b str CRLF True)
      in bindE (index_res lines 0) (\<lambda>cur_line.
         let cur_line_elements = boost_split b cur_line '' '' True in
         if length cur_line_elements \<le> 1 then Inl Uncaught_Exception
         else
           bindE (parse_headers b (butlast (tl lines)) Map.empty) (\<lambda>hs.
           Inr \<lparr>URI = cur_line_elements ! 1, headers = hs\<rparr>)))"

text \<open>
  The loop that reads until the end of a header is in the buffer; the result is its position,
  \<open>None\<close> if the connection ends or fails before.
\<close>

lemma WrappedRead_shorter:
  "WrappedRead outs n = Inr (Some bs, outs') \<Longrightarrow> bs \<noteq> [] \<Longrightarrow> length outs' < length outs"
  by (induction outs n rule: WrappedRead.induct) (auto split: if_splits)

function read_header_loop :: "read_outcome list \<Rightarrow> string \<Rightarrow> (nat option \<times> string \<times> read_outcome list) res" where
  "read_header_loop outs buffer =
     (case WrappedRead outs 256 of
        Inl e \<Rightarrow> Inl e
      | Inr (None, outs) \<Rightarrow> Inr (None, buffer, outs)
      | Inr (Some ret_buf, outs') \<Rightarrow>
          if ret_buf = [] then
            (case string_find (CRLF @ CRLF) buffer of
               None \<Rightarrow> Inr (None, buffer, outs')
             | Some pos \<Rightarrow> Inr (Some pos, buffer, outs'))
          else
            (case string_find (CRLF @ CRLF) (buffer @ ret_buf) of
               Some pos \<Rightarrow> Inr (Some pos, buffer @ ret_buf, outs')
             | None \<Rightarrow> read_header_loop outs' (buffer @ ret_buf)))"
  by pat_completeness auto
termination by (relation "measure (\<lambda>(outs, buffer). length outs)") (auto dest: WrappedRead_shorter)

declare read_header_loop.simps [simp del]

definition GetNextRequest :: "boost \<Rightarrow> http_connection \<Rightarrow> (http_request option \<times> http_connection) res" where
  "GetNextRequest b hc =
     bindE (case string_find (CRLF @ CRLF) (in_buffer hc) of
              Some pos \<Rightarrow> Inr (Some pos, in_buffer hc, fd_reads hc)
            | None \<Rightarrow> read_header_loop (fd_reads hc) (in_buffer hc)) (\<lambda>(pos, buffer, outs).
     let hc = hc\<lparr>in_buffer := buffer, fd_reads := outs\<rparr> in
     case pos of
       None \<Rightarrow> Inr (None, hc)
     | Some pos \<Rightarrow>
         bindE (ParseRequest b hc (pos + 4)) (\<lambda>request.
         Inr (Some request, hc\<lparr>in_buffer := drop (pos + 4) buffer\<rparr>)))"

section \<open>Responses\<close>

record http_response =
  protocol :: string
  response_code :: "16 word"
  response_message :: string
  response_headers :: "(string \<times> string) list"
  body :: string

text \<open>Assignment to a key of a \<open>std::map\<close>; \<open>std::less\<close> compares the strings byte by byte.\<close>

fun string_less :: "string \<Rightarrow> string \<Rightarrow> bool" where
  "string_less [] [] = False"
| "string_less [] (c # cs) = True"
| "string_less (c # cs) [] = False"
| "string_less (c # cs) (d # ds) =
     ((of_char c :: nat) < of_char d \<or> c = d \<and> string_less cs ds)"

fun map_put :: "string \<Rightarrow> string \<Rightarrow> (string \<times> string) list \<Rightarrow> (string \<times> string) list" where
  "map_put k v [] = [(k, v)]"
| "map_put k v ((k', v') # kvs) =
     (if k = k' then (k, v) # kvs
      else if string_less k k' then (k, v) # (k', v') # kvs
      else (k', v') # map_put k v kvs)"

text \<open>A number in decimal.\<close>

fun decimal :: "nat \<Rightarrow> string" where
  "decimal n = (if n < 10 then [char_of (48 + n)] else decimal (n div 10) @ [char_of (48 + n mod 10)])"

declare decimal.simps [simp del]

definition GenerateResponseString :: "http_response \<Rightarrow> string" where
  "GenerateResponseString r =
     protocol r @ '' '' @ decimal (unat (response_code r)) @ '' '' @ response_message r @ CRLF @
     concat (map (\<lambda>(k, v). k @ '': '' @ v @ CRLF) (response_headers r)) @
     ''Content-length: '' @ decimal (length (body r)) @ CRLF @ CRLF @ body r"

text \<open>
  The length of a response is converted to an \<open>int\<close>: one of \<open>2 ^ 31\<close> bytes or more becomes
  another number, and nothing is written when it is negative.
\<close>

definition int_of_size :: "nat \<Rightarrow> int" where
  "int_of_size n = sint (word_of_nat n :: 32 word)"

definition WriteResponse :: "http_connection \<Rightarrow> http_response \<Rightarrow> bool \<times> http_connection" where
  "WriteResponse hc response =
     (let str = GenerateResponseString response; writelen = int_of_size (length str);
          (sent, outs) = WrappedWrite (fd_writes hc) (take (nat writelen) str)
      in (int (length sent) = writelen, hc\<lparr>fd_writes := outs, fd_sent := fd_sent hc @ sent\<rparr>))"

end
