(* ===== verification/HttpServer.thy ===== *)
theory HttpServer
  imports HttpConnection
begin

text \<open>
  The web server of src/hw4/HttpServer.cc, with src/hw4/FileReader.cc: answering a request with a
  file or with the results of a query, and serving a connection.

  \<open>world\<close> collects what the server finds around it: Boost, \<open>realpath\<close>, the operating system
  for static files, the index files by name and the sorting function of the query processor.
\<close>

record world =
  w_boost :: boost
  w_realpath :: "string \<Rightarrow> string option"
  w_os :: os
  w_files :: "string \<Rightarrow> byte list option"
  w_sort :: "query_result list \<Rightarrow> query_result list"

section \<open>Files\<close>

text \<open>\<open>FileReader::ReadFile\<close>: the buffer of the C function becomes a string of its length.\<close>

definition FileReader_ReadFile ::
  "allocator \<Rightarrow> os \<Rightarrow> string \<Rightarrow> string \<Rightarrow> (string option \<times> allocator) res" where
  "FileReader_ReadFile m sys basedir fname =
     (let fullfile = basedir @ ''/'' @ fname in
      bindE (ReadFile m sys (c_str fullfile)) (\<lambda>(r, m).
      case r of
        None \<Rightarrow> Inr (None, m)
      | Some (buf, file_size) \<Rightarrow> Inr (Some (take (unat file_size) buf), m)))"

definition content_type :: "string \<Rightarrow> string" where
  "content_type suffix =
     (if suffix = ''html'' \<or> suffix = ''htm'' then ''text/html''
      else if suffix = ''jpeg'' \<or> suffix = ''jpg'' then ''image/jpeg''
      else if suffix = ''png'' then ''image/png''
      else if suffix = ''doc'' then ''text.doc''
      else if suffix = ''odt'' then ''text.odt''
      else if suffix = ''pdf'' then ''text.pdf''
      else if suffix = ''txt'' then ''text.txt''
      else if suffix = ''wks'' then ''text.wks''
      else ''others'')"

definition quoted :: "string \<Rightarrow> string" where
  "quoted s = [CHR 0x22] @ s @ [CHR 0x22]"

text \<open>\<open>substr(8)\<close> throws when the path is shorter; \<open>vals[1]\<close> is not checked.\<close>

definition ProcessFileRequest ::
  "world \<Rightarrow> allocator \<Rightarrow> string \<Rightarrow> string \<Rightarrow> (http_response \<times> allocator) res" where
  "ProcessFileRequest w m uri basedir =
     (let path = get_path (Parse (w_boost w) URLParser uri) in
      if length path < 8 then Inl Uncaught_Exception
      else
        let fname = drop 8 path; fullname = basedir @ ''/'' @ fname in
        bindE (if IsPathSafe (w_realpath w) basedir fullname
               then FileReader_ReadFile m (w_os w) basedir fname else Inr (None, m)) (\<lambda>(content, m).
        case content of
          Some content \<Rightarrow>
            bindE (index_res (boost_split (w_boost w) fname ''.'' False) 1) (\<lambda>suffix.
            Inr (\<lparr>protocol = ''HTTP/1.1'', response_code = 200, response_message = ''OK'',
                  response_headers = map_put ''Content-type'' (content_type suffix) [], body = content\<rparr>, m))
        | None \<Rightarrow>
            Inr (\<lparr>protocol = ''HTTP/1.1'', response_code = 404, response_message = ''Not Found'',
                  response_headers = [],
                  body = ''<html><body>Couldn'' @ [CHR 0x27] @ ''t find file '' @ [CHR 0x22] @
                    EscapeHTML (w_boost w) fname @ [CHR 0x22] @ ''</body></html>''\<rparr>, m)))"

section \<open>Queries\<close>

text \<open>The page up to the end of the search form, and the end of the page as the code has it.\<close>

definition page_head :: string where
  "page_head =
     ''<html><head><title>333gle</title></head>'' @ CRLF @ ''<body>'' @ CRLF @
     ''<center style='' @ quoted ''font-size:500%;'' @ ''>'' @ CRLF @
     ''<span style='' @ quoted ''position:relative;bottom:-0.33em;color:orange;'' @ ''>3</span><span style='' @
     quoted ''color:red;'' @ ''>3</span><span style='' @ quoted ''color:gold;'' @ ''>3</span>'' @
     ''<span style='' @ quoted ''color:blue;'' @ ''>g</span>'' @
     ''<span style='' @ quoted ''color:green;'' @ ''>l</span>'' @
     ''<span style='' @ quoted ''color:red;'' @ ''>e</span>'' @ CRLF @ ''</center>'' @ CRLF @ ''<p>'' @ CRLF @
     ''<div style='' @ quoted ''height:20px;'' @ ''></div>'' @ CRLF @ ''<center>'' @ CRLF @
     ''<form action='' @ quoted ''/query'' @ '' method='' @ quoted ''get'' @ ''>'' @ CRLF @
     ''<input type='' @ quoted ''text'' @ '' size=30 name='' @ quoted ''terms'' @ '' />'' @ CRLF @
     ''<input type='' @ quoted ''submit'' @ '' value='' @ quoted ''Search'' @ '' />'' @ CRLF @
     ''</form>'' @ CRLF @ ''</center><p>'' @ CRLF"

definition page_end :: string where
  "page_end = ''</body>'' @ CRLF @ ''</html'' @ CRLF"

definition result_item :: "query_result \<Rightarrow> string" where
  "result_item cur_qr =
     '' <li> <a href='' @ [CHR 0x22] @
     (if take 4 (document_name cur_qr) \<noteq> ''http'' then ''/static/'' else []) @ document_name cur_qr @
     [CHR 0x22] @ ''>'' @ document_name cur_qr @ ''</a> ['' @ decimal (unat (rank cur_qr)) @ '']<br>'' @ CRLF"

definition results_part :: "boost \<Rightarrow> string \<Rightarrow> query_result list \<Rightarrow> string" where
  "results_part b queries_str ret_qr =
     ''<p><br>'' @ CRLF @
     (if ret_qr \<noteq> [] then
        decimal (length ret_qr) @ '' results found for <b>'' @ EscapeHTML b queries_str @ ''</b>'' @ CRLF @
        ''<p>'' @ CRLF @ CRLF @ ''<ul>'' @ CRLF @ concat (map result_item ret_qr) @ ''</ul>'' @ CRLF
      else
        ''No results found for <b>'' @ EscapeHTML b queries_str @ ''</b>'' @ CRLF @ ''<p>'' @ CRLF @ CRLF)"

text \<open>
  The words of a query, and what they look like put together.  \<open>args.at\<close> throws when there is
  no argument of that name.
\<close>

definition query_words :: "boost \<Rightarrow> string \<Rightarrow> string list" where
  "query_words b search_terms = map (boost_to_lower b) (boost_split b search_terms ''+'' True)"

definition ProcessQueryRequest :: "world \<Rightarrow> string \<Rightarrow> string list \<Rightarrow> http_response res" where
  "ProcessQueryRequest w uri indices =
     bindE (if string_find ''query?terms'' uri \<noteq> None then
              (case get_args (Parse (w_boost w) URLParser uri) ''terms'' of
                 None \<Rightarrow> Inl Uncaught_Exception
               | Some search_terms \<Rightarrow>
                   let queries = query_words (w_boost w) search_terms;
                       queries_str = (if queries \<noteq> [] then boost_trim (w_boost w) (concat queries) else [])
                   in bindE (QueryProcessor (w_files w) indices True) (\<lambda>qp.
                      bindE (if queries \<noteq> [] then ProcessQuery (w_sort w) qp queries else Inr []) (\<lambda>ret_qr.
                      Inr (results_part (w_boost w) queries_str ret_qr))))
            else Inr []) (\<lambda>part.
     Inr \<lparr>protocol = ''HTTP/1.1'', response_code = 200, response_message = ''OK'', response_headers = [],
          body = page_head @ part @ page_end\<rparr>)"

definition ProcessRequest ::
  "world \<Rightarrow> allocator \<Rightarrow> http_request \<Rightarrow> string \<Rightarrow> string list \<Rightarrow> (http_response \<times> allocator) res" where
  "ProcessRequest w m req basedir indices =
     (if take 8 (URI req) = ''/static/'' then ProcessFileRequest w m (URI req) basedir
      else bindE (ProcessQueryRequest w (URI req) indices) (\<lambda>r. Inr (r, m)))"

section \<open>Serving a connection\<close>

text \<open>\<open>hp.headers["connection"]\<close>: a key that is not there is added with the empty value.\<close>

definition header_of :: "(string \<times> string) list \<Rightarrow> string \<Rightarrow> string" where
  "header_of hs k = (case map_of hs k of None \<Rightarrow> [] | Some v \<Rightarrow> v)"

text \<open>What is left of the input; every request takes something away, so the loop ends.\<close>

definition reads_left :: "read_outcome list \<Rightarrow> nat" where
  "reads_left outs = sum_list (map (\<lambda>r. case r of ReadBytes bs \<Rightarrow> length bs | _ \<Rightarrow> 0) outs)"

definition stream_left :: "http_connection \<Rightarrow> nat" where
  "stream_left hc = length (in_buffer hc) + reads_left (fd_reads hc)"

lemma string_find_bound: "string_find pat s = Some p \<Longrightarrow> p + length pat \<le> length s"
proof (induction s arbitrary: p)
  case (Cons c cs)
  show ?case
  proof (cases "take (length pat) (c # cs) = pat")
    case True
    then have "length pat \<le> length (c # cs)" by (metis length_take min.cobounded1)
    then show ?thesis using Cons.prems True by simp
  next
    case False
    then obtain q where "string_find pat cs = Some q" "p = Suc q" using Cons.prems by auto
    then show ?thesis using Cons.IH [of q] by simp
  qed
qed (auto split: if_splits)

lemma WrappedRead_left: "WrappedRead outs n = Inr (Some bs, outs') \<Longrightarrow> length bs + reads_left outs' = reads_left outs"
  by (induction outs n rule: WrappedRead.induct) (auto simp: reads_left_def split: if_splits)

lemma read_header_left:
  "read_header_loop outs buffer = Inr (Some pos, buffer', outs') \<Longrightarrow>
   pos + 4 \<le> length buffer' \<and> length buffer' + reads_left outs' = length buffer + reads_left outs"
proof (induction outs buffer rule: read_header_loop.induct)
  case (1 outs buffer)
  obtain ret_buf outs1 where r: "WrappedRead outs 256 = Inr (Some ret_buf, outs1)"
    using 1(2) unfolding read_header_loop.simps [of outs buffer] by (cases "WrappedRead outs 256") (auto split: option.splits)
  note left = WrappedRead_left [OF r]
  note e = 1(2) [unfolded read_header_loop.simps [of outs buffer] r]
  show ?case
  proof (cases "ret_buf = []")
    case True
    then show ?thesis using e left string_find_bound by (fastforce simp: CRLF_def split: option.splits)
  next
    case False
    show ?thesis
    proof (cases "string_find (CRLF @ CRLF) (buffer @ ret_buf)")
      case None
      then show ?thesis using 1(1) [OF r _ _ False None] e False left by auto
    next
      case (Some p)
      then show ?thesis using e False left string_find_bound [OF Some] by (auto simp: CRLF_def)
    qed
  qed
qed

lemma GetNextRequest_shorter:
  assumes "GetNextRequest b hc = Inr (Some req, hc')"
  shows "stream_left hc' < stream_left hc"
proof -
  let ?r = "case string_find (CRLF @ CRLF) (in_buffer hc) of
              Some pos \<Rightarrow> Inr (Some pos, in_buffer hc, fd_reads hc)
            | None \<Rightarrow> read_header_loop (fd_reads hc) (in_buffer hc)"
  obtain pos buffer outs where r: "?r = Inr (pos, buffer, outs)" 
    using assms unfolding GetNextRequest_def bindE_eq_Inr by auto
  then obtain p where p: "pos = Some p" "hc' = hc\<lparr>in_buffer := drop (p + 4) buffer, fd_reads := outs\<rparr>"
    using assms unfolding GetNextRequest_def r by (auto simp: bindE_eq_Inr Let_def split: option.splits)
  have "p + 4 \<le> length buffer \<and> length buffer + reads_left outs = stream_left hc"
  proof (cases "string_find (CRLF @ CRLF) (in_buffer hc)")
    case None
    then show ?thesis using r p(1) read_header_left [of "fd_reads hc" "in_buffer hc"] by (simp add: stream_left_def)
  next
    case (Some q)
    then show ?thesis using r p(1) string_find_bound [OF Some] by (auto simp: stream_left_def CRLF_def)
  qed
  then have "length buffer - (p + 4) + reads_left outs < stream_left hc" by arith
  moreover have "stream_left hc' = length buffer - (p + 4) + reads_left outs" by (simp add: stream_left_def p(2))
  ultimately show ?thesis by simp
qed

lemma WriteResponse_stream [simp]: "stream_left (snd (WriteResponse hc r)) = stream_left hc"
  by (simp add: WriteResponse_def stream_left_def Let_def split: prod.split)

text \<open>
  \<open>req\<close> keeps the last request: when there is no next one the loop body still answers it once
  more before the loop ends.
\<close>

function server_loop ::
  "world \<Rightarrow> string \<Rightarrow> string list \<Rightarrow> allocator \<Rightarrow> http_request \<Rightarrow> http_connection \<Rightarrow> (http_connection \<times> allocator) res" where
  "server_loop w basedir indices m req hc =
     (case GetNextRequest (w_boost w) hc of
        Inl e \<Rightarrow> Inl e
      | Inr (None, hc) \<Rightarrow>
          bindE (ProcessRequest w m req basedir indices) (\<lambda>(hp, m). Inr (snd (WriteResponse hc hp), m))
      | Inr (Some req, hc) \<Rightarrow>
          (case ProcessRequest w m req basedir indices of
             Inl e \<Rightarrow> Inl e
           | Inr (hp, m) \<Rightarrow>
               if \<not> fst (WriteResponse hc hp) \<or> header_of (response_headers hp) ''connection'' = ''close''
               then Inr (snd (WriteResponse hc hp), m)
               else server_loop w basedir indices m req (snd (WriteResponse hc hp))))"
  by pat_completeness auto
termination
  by (relation "measure (\<lambda>(w, basedir, indices, m, req, hc). stream_left hc)") (auto dest: GetNextRequest_shorter)

declare server_loop.simps [simp del]

definition HttpServer_ThrFn ::
  "world \<Rightarrow> string \<Rightarrow> string list \<Rightarrow> allocator \<Rightarrow> read_outcome list \<Rightarrow> write_outcome list \<Rightarrow>
   (http_connection \<times> allocator) res" where
  "HttpServer_ThrFn w basedir indices m reads writes =
     server_loop w basedir indices m HttpRequest (HttpConnection reads writes)"

end
