(* ===== verification/HttpConnectionSpec.thy ===== *)
theory HttpConnectionSpec
  imports HttpServer HttpUtilsSpec
begin

text \<open>
  What a connection reads: however the bytes of the client are cut into pieces, the requests that come out
  are those of the stream, and nothing behind a request is lost.
\<close>

section \<open>Searching a string\<close>

abbreviation CRLF2 :: string where
  "CRLF2 \<equiv> CRLF @ CRLF"

lemma string_find_append: "string_find pat s = Some p \<Longrightarrow> string_find pat (s @ t) = Some p"
proof (induction s arbitrary: p)
  case Nil
  then show ?case by (cases t) (auto split: if_splits)
next
  case (Cons c s)
  show ?case
  proof (cases "take (length pat) (c # s) = pat")
    case True
    then have "length pat \<le> length (c # s)" by (metis length_take min.cobounded1)
    then have "take (length pat) (c # s @ t) = pat" using True by (cases pat) auto
    then show ?thesis using True Cons.prems by simp
  next
    case False
    then obtain q where q: "string_find pat s = Some q" "p = Suc q" using Cons.prems by auto
    have "p + length pat \<le> length (c # s)" by (rule string_find_bound [OF Cons.prems])
    then have "take (length pat) (c # s @ t) \<noteq> pat" using False by (cases pat) auto
    then show ?thesis using q Cons.IH by simp
  qed
qed

lemma string_find_skip: "CHR 0x0D \<notin> set l \<Longrightarrow> string_find CRLF2 (l @ s) = map_option (\<lambda>p. length l + p) (string_find CRLF2 s)"
proof (induction l)
  case (Cons c l)
  then show ?case by (cases "string_find CRLF2 s") (auto simp: CRLF_def)
qed (cases "string_find CRLF2 s", auto)

lemma string_find_line:
  "c \<noteq> CHR 0x0D \<Longrightarrow> string_find CRLF2 (CRLF @ c # s) = map_option (\<lambda>p. 2 + p) (string_find CRLF2 (c # s))"
  by (cases "string_find CRLF2 (c # s)") (auto simp: CRLF_def)

definition wf_line :: "string \<Rightarrow> bool" where
  "wf_line l \<longleftrightarrow> l \<noteq> [] \<and> CHR 0x0D \<notin> set l \<and> CHR 0x0A \<notin> set l \<and> \<not> isspace (last l)"

definition header_text :: "string list \<Rightarrow> string" where
  "header_text ls = concat (map (\<lambda>l. l @ CRLF) ls)"

lemma string_find_header:
  "ls \<noteq> [] \<Longrightarrow> \<forall>l \<in> set ls. wf_line l \<Longrightarrow>
   string_find CRLF2 (header_text ls @ CRLF @ rest) = Some (length (header_text ls) - 2)"
proof (induction ls)
  case (Cons l ls)
  have l: "CHR 0x0D \<notin> set l" using Cons.prems by (simp add: wf_line_def)
  show ?case
  proof (cases ls)
    case Nil
    have "string_find CRLF2 (CRLF @ CRLF @ rest) = Some 0" by (simp add: CRLF_def)
    then show ?thesis using Nil string_find_skip [OF l, of "CRLF @ CRLF @ rest"] by (simp add: header_text_def CRLF_def)
  next
    case (Cons l' ls')
    then obtain c cs where c: "l' = c # cs" "c \<noteq> CHR 0x0D" using Cons.prems by (cases l') (auto simp: wf_line_def)
    have ih: "string_find CRLF2 (header_text ls @ CRLF @ rest) = Some (length (header_text ls) - 2)"
      using Cons.IH Cons.prems Cons by simp
    obtain u where u: "header_text ls = c # u" using Cons c by (simp add: header_text_def)
    have "2 \<le> length (header_text ls)" using Cons by (simp add: header_text_def CRLF_def)
    moreover have "string_find CRLF2 (CRLF @ header_text ls @ CRLF @ rest) = Some (2 + (length (header_text ls) - 2))"
      using string_find_line [OF c(2), of "u @ CRLF @ rest"] ih u by simp
    ultimately show ?thesis using string_find_skip [OF l, of "CRLF @ header_text ls @ CRLF @ rest"]
      by (simp add: header_text_def CRLF_def)
  qed
qed simp

section \<open>Reading a stream\<close>

definition reads_ok :: "read_outcome list \<Rightarrow> bool" where
  "reads_ok outs \<longleftrightarrow>
     (\<forall>r \<in> set outs. case r of ReadBytes bs \<Rightarrow> bs \<noteq> [] \<and> length bs \<le> 256 | ReadAgain \<Rightarrow> True | ReadError \<Rightarrow> False)"

definition stream_of :: "read_outcome list \<Rightarrow> string" where
  "stream_of outs = concat (map (\<lambda>r. case r of ReadBytes bs \<Rightarrow> bs | _ \<Rightarrow> []) outs)"

definition stream :: "http_connection \<Rightarrow> string" where
  "stream hc = in_buffer hc @ stream_of (fd_reads hc)"

lemma WrappedRead_ok:
  "reads_ok outs \<Longrightarrow> \<exists>bs outs'. WrappedRead outs 256 = Inr (Some bs, outs') \<and> stream_of outs = bs @ stream_of outs' \<and>
     reads_ok outs' \<and> (bs = [] \<longrightarrow> outs' = [])"
proof (induction outs)
  case (Cons r outs)
  then show ?case by (cases r) (auto simp: reads_ok_def stream_of_def)
qed (simp add: stream_of_def reads_ok_def)

lemma read_header_ok:
  "reads_ok outs \<Longrightarrow> string_find CRLF2 buffer = None \<Longrightarrow>
   \<exists>buffer' outs'. read_header_loop outs buffer = Inr (string_find CRLF2 (buffer @ stream_of outs), buffer', outs') \<and>
     buffer' @ stream_of outs' = buffer @ stream_of outs \<and> reads_ok outs' \<and>
     (string_find CRLF2 (buffer @ stream_of outs) \<noteq> None \<longrightarrow>
        string_find CRLF2 buffer' = string_find CRLF2 (buffer @ stream_of outs))"
proof (induction outs buffer rule: read_header_loop.induct)
  case (1 outs buffer)
  obtain bs outs1 where r: "WrappedRead outs 256 = Inr (Some bs, outs1)" "stream_of outs = bs @ stream_of outs1"
    "reads_ok outs1" "bs = [] \<longrightarrow> outs1 = []" using WrappedRead_ok [OF 1(2)] by blast
  note e = read_header_loop.simps [of outs buffer]
  show ?case
  proof (cases "bs = []")
    case True
    then have "outs1 = []" using r(4) by simp
    moreover have "stream_of [] = []" by (simp add: stream_of_def)
    ultimately show ?thesis using e r(1,2,3) 1(3) True by simp
  next
    case False
    show ?thesis
    proof (cases "string_find CRLF2 (buffer @ bs)")
      case None
      have "read_header_loop outs buffer = read_header_loop outs1 (buffer @ bs)" using e r(1) False None by simp
      then show ?thesis using 1(1) [OF r(1) _ _ False None] r(2,3) None by simp
    next
      case (Some p)
      then show ?thesis using e r False string_find_append [OF Some, of "stream_of outs1"] by simp
    qed
  qed
qed

text \<open>A request is the text up to the first empty line.\<close>

definition parse_text :: "boost \<Rightarrow> string \<Rightarrow> http_request res" where
  "parse_text b text = ParseRequest b \<lparr>in_buffer = text, fd_reads = [], fd_writes = [], fd_sent = []\<rparr> (length text)"

lemma ParseRequest_text: "take n (in_buffer hc) = text \<Longrightarrow> ParseRequest b hc n = parse_text b text"
  by (simp add: parse_text_def ParseRequest_def)

lemma GetNextRequest_stream:
  assumes "reads_ok (fd_reads hc)" "string_find CRLF2 (stream hc) = Some p"
  shows "\<exists>hc'. GetNextRequest b hc = bindE (parse_text b (take (p + 4) (stream hc))) (\<lambda>req. Inr (Some req, hc')) \<and>
     stream hc' = drop (p + 4) (stream hc) \<and> reads_ok (fd_reads hc') \<and> fd_writes hc' = fd_writes hc \<and> fd_sent hc' = fd_sent hc"
proof -
  obtain buffer outs where r: "(case string_find CRLF2 (in_buffer hc) of
              Some pos \<Rightarrow> Inr (Some pos, in_buffer hc, fd_reads hc)
            | None \<Rightarrow> read_header_loop (fd_reads hc) (in_buffer hc)) = Inr (Some p, buffer, outs)"
    "buffer @ stream_of outs = stream hc" "reads_ok outs" "string_find CRLF2 buffer = Some p"
  proof (cases "string_find CRLF2 (in_buffer hc)")
    case None
    then show ?thesis using that read_header_ok [OF assms(1) None] assms(2) by (auto simp: stream_def)
  next
    case (Some q)
    then have "q = p" using string_find_append [OF Some, of "stream_of (fd_reads hc)"] assms(2) by (simp add: stream_def)
    then show ?thesis using that Some assms(1) by (simp add: stream_def)
  qed
  have n: "p + 4 \<le> length buffer" using string_find_bound [OF r(4)] by (simp add: CRLF_def)
  let ?hc = "hc\<lparr>in_buffer := buffer, fd_reads := outs, in_buffer := drop (p + 4) buffer\<rparr>"
  have t: "take (p + 4) (stream hc) = take (p + 4) buffer" "drop (p + 4) (stream hc) = drop (p + 4) buffer @ stream_of outs"
    using n unfolding r(2) [symmetric] by simp_all
  have "ParseRequest b (hc\<lparr>in_buffer := buffer, fd_reads := outs\<rparr>) (p + 4) = parse_text b (take (p + 4) (stream hc))"
    by (rule ParseRequest_text) (simp add: t(1))
  then have "GetNextRequest b hc = bindE (parse_text b (take (p + 4) (stream hc))) (\<lambda>req. Inr (Some req, ?hc))"
    unfolding GetNextRequest_def r(1) by simp
  moreover have "stream ?hc = drop (p + 4) (stream hc) \<and> reads_ok (fd_reads ?hc) \<and> fd_writes ?hc = fd_writes hc \<and> fd_sent ?hc = fd_sent hc"
    using r(3) t(2) by (simp add: stream_def)
  ultimately show ?thesis by blast
qed

lemma GetNextRequest_end:
  assumes "reads_ok (fd_reads hc)" "string_find CRLF2 (stream hc) = None"
  shows "\<exists>hc'. GetNextRequest b hc = Inr (None, hc') \<and> fd_writes hc' = fd_writes hc \<and> fd_sent hc' = fd_sent hc"
proof -
  have n: "string_find CRLF2 (in_buffer hc) = None"
    using assms(2) string_find_append [of CRLF2 "in_buffer hc" _ "stream_of (fd_reads hc)"]
    by (cases "string_find CRLF2 (in_buffer hc)") (auto simp: stream_def)
  then show ?thesis using read_header_ok [OF assms(1) n] assms(2) by (auto simp: GetNextRequest_def stream_def)
qed

section \<open>The text of a request\<close>

text \<open>Words of a request: no white space, and none of the given separators.\<close>

definition word_of :: "char set \<Rightarrow> string \<Rightarrow> bool" where
  "word_of seps w \<longleftrightarrow> w \<noteq> [] \<and> (\<forall>c \<in> set w. \<not> isspace c \<and> c \<notin> seps)"

text \<open>
  A header has a name and any text as its value that begins with neither a blank nor a colon and does not end with
  white space.
\<close>

definition wf_header :: "string \<times> string \<Rightarrow> bool" where
  "wf_header kv \<longleftrightarrow> word_of {CHR '':''} (fst kv) \<and> wf_line (snd kv) \<and> hd (snd kv) \<notin> {CHR '':'', CHR '' ''}"

record request_text =
  rq_method :: string
  rq_target :: string
  rq_version :: string
  rq_headers :: "(string \<times> string) list"

definition wf_request :: "request_text \<Rightarrow> bool" where
  "wf_request r \<longleftrightarrow> word_of {} (rq_method r) \<and> word_of {} (rq_target r) \<and> word_of {} (rq_version r) \<and>
     (\<forall>kv \<in> set (rq_headers r). wf_header kv)"

definition request_line :: "request_text \<Rightarrow> string" where
  "request_line r = rq_method r @ CHR '' '' # rq_target r @ CHR '' '' # rq_version r"

definition header_line :: "string \<times> string \<Rightarrow> string" where
  "header_line kv = fst kv @ CHR '':'' # CHR '' '' # snd kv"

definition text_of :: "request_text \<Rightarrow> string" where
  "text_of r = header_text (request_line r # map header_line (rq_headers r)) @ CRLF"

text \<open>What the server takes a request for: of a header's value it keeps what is before a blank or a colon.\<close>

definition kept :: "string \<Rightarrow> string" where
  "kept v = takeWhile (\<lambda>c. c \<notin> {CHR '':'', CHR '' ''}) v"

definition parsed :: "request_text \<Rightarrow> http_request" where
  "parsed r = \<lparr>URI = rq_target r,
     headers = map_of (rev (map (\<lambda>(k, v). (map tolower k, kept v)) (rq_headers r)))\<rparr>"

lemma word_not_space: "word_of seps w \<Longrightarrow> CHR '' '' \<notin> set w \<and> CHR 0x0D \<notin> set w \<and> CHR 0x0A \<notin> set w"
proof -
  assume w: "word_of seps w"
  have "isspace CHR '' ''" "isspace CHR 0x0D" "isspace CHR 0x0A" by (simp_all add: isspace_def)
  then show ?thesis using w unfolding word_of_def by blast
qed

lemma word_line: "word_of seps w \<Longrightarrow> wf_line w"
  by (frule word_not_space) (simp add: wf_line_def word_of_def)

lemma wf_line_append: "CHR 0x0D \<notin> set u \<Longrightarrow> CHR 0x0A \<notin> set u \<Longrightarrow> wf_line l \<Longrightarrow> wf_line (u @ l)"
  by (simp add: wf_line_def)

lemma request_lines_wf:
  assumes "wf_request r"
  shows "\<forall>l \<in> set (request_line r # map header_line (rq_headers r)). wf_line l"
proof -
  have w: "word_of {} (rq_method r)" "word_of {} (rq_target r)" "word_of {} (rq_version r)"
    using assms by (simp_all add: wf_request_def)
  have "wf_line (request_line r)"
    using wf_line_append [of "rq_method r @ CHR '' '' # rq_target r @ '' ''"] w [THEN word_not_space] word_line [OF w(3)]
    by (simp add: request_line_def)
  moreover have "wf_line (header_line kv)" if "kv \<in> set (rq_headers r)" for kv
  proof -
    have "word_of {CHR '':''} (fst kv)" "wf_line (snd kv)" using assms that by (auto simp: wf_request_def wf_header_def)
    then show ?thesis using word_not_space [of "{CHR '':''}" "fst kv"] wf_line_append [of "fst kv @ '': ''" "snd kv"]
      by (simp add: header_line_def)
  qed
  ultimately show ?thesis by auto
qed

section \<open>Parsing the lines\<close>

lemma merge_empty_Cons: "ts \<noteq> [] \<Longrightarrow> merge_empty (t # ts) = t # filter (\<lambda>w. w \<noteq> []) (butlast ts) @ [last ts]"
  by (cases ts) (simp_all add: merge_empty_def)

lemma trim_line: "wf_line l \<Longrightarrow> rev (dropWhile isspace (rev l)) = l"
  by (cases l rule: rev_cases) (auto simp: wf_line_def)

lemma tokens_lines:
  "\<forall>l \<in> set ls. wf_line l \<Longrightarrow>
   tokens_of {CHR 0x0D, CHR 0x0A} (header_text ls @ t) = concat (map (\<lambda>l. [l, []]) ls) @ tokens_of {CHR 0x0D, CHR 0x0A} t"
proof (induction ls)
  case (Cons l ls)
  have "set l \<inter> {CHR 0x0D, CHR 0x0A} = {}" using Cons.prems by (auto simp: wf_line_def)
  then have "tokens_of {CHR 0x0D, CHR 0x0A} (l @ CHR 0x0D # CHR 0x0A # header_text ls @ t) =
      l # [] # tokens_of {CHR 0x0D, CHR 0x0A} (header_text ls @ t)"
    by (simp add: tokens_append)
  then show ?case using Cons by (simp add: header_text_def CRLF_def)
qed (simp add: header_text_def)

lemma request_lines:
  assumes b: "boost_ok b" and ls: "\<forall>l \<in> set (l # ls). wf_line l"
  shows "map (boost_trim_right b) (boost_split b (header_text (l # ls) @ CRLF) CRLF True) = (l # ls) @ [[]]"
proof -
  let ?ts = "[] # concat (map (\<lambda>l. [l, []]) ls) @ [[], [], []]"
  have "tokens_of {CHR 0x0D, CHR 0x0A} (header_text (l # ls) @ CRLF) = l # ?ts"
    using tokens_lines [OF ls, of CRLF] by (simp add: CRLF_def)
  moreover have "filter (\<lambda>w. w \<noteq> []) (concat (map (\<lambda>l. [l, []]) ls)) = ls"
    using ls by (induction ls) (auto simp: wf_line_def)
  then have "filter (\<lambda>w. w \<noteq> []) (butlast ?ts) = ls" by (simp add: butlast_append)
  ultimately have "boost_split b (header_text (l # ls) @ CRLF) CRLF True = l # ls @ [[]]"
    by (simp add: boost_simps [OF b] merge_empty_Cons CRLF_def)
  moreover have "map (boost_trim_right b) (l # ls) = l # ls"
    by (rule map_idI) (use ls in \<open>auto simp: boost_simps [OF b] intro!: trim_line\<close>)
  ultimately show ?thesis by (simp add: boost_simps [OF b])
qed

lemma request_line_elements:
  assumes b: "boost_ok b" and r: "wf_request r"
  shows "boost_split b (request_line r) '' '' True = [rq_method r, rq_target r, rq_version r]"
proof -
  have w: "set w \<inter> {CHR '' ''} = {}" "w \<noteq> []" if "w \<in> {rq_method r, rq_target r, rq_version r}" for w
    using r that word_not_space [of "{}" w] by (auto simp: wf_request_def word_of_def)
  have "tokens_of {CHR '' ''} (request_line r) = [rq_method r, rq_target r, rq_version r]"
    using w by (simp add: request_line_def tokens_append tokens_none)
  then show ?thesis using w by (simp add: boost_simps [OF b] merge_empty_Cons)
qed

lemma tokens_first:
  "tokens_of seps s = takeWhile (\<lambda>c. c \<notin> seps) s # tl (tokens_of seps s)"
proof (induction s)
  case (Cons c s)
  then show ?case by (cases "tokens_of seps s") (auto simp: tokens_nonempty)
qed simp

lemma header_elements:
  assumes b: "boost_ok b" and kv: "wf_header kv"
  shows "\<exists>vs. boost_split b (header_line kv) '': '' True = fst kv # kept (snd kv) # vs"
proof -
  let ?seps = "{CHR '':'', CHR '' ''}"
  obtain k v where [simp]: "kv = (k, v)" by (cases kv)
  have k: "set k \<inter> ?seps = {}" using kv word_not_space [of "{CHR '':''}" k] by (auto simp: wf_header_def word_of_def)
  define vs where "vs = tl (tokens_of ?seps v)"
  have v: "tokens_of ?seps v = kept v # vs" using tokens_first [of ?seps v] by (simp add: kept_def vs_def)
  have "kept v \<noteq> []" using kv by (cases v) (auto simp: wf_header_def wf_line_def kept_def)
  moreover have "tokens_of ?seps (header_line kv) = k # [] # kept v # vs"
    using k v by (simp add: header_line_def tokens_append)
  ultimately show ?thesis by (cases "vs = []") (auto simp: boost_simps [OF b] merge_empty_Cons)
qed

lemma parse_headers_ok:
  assumes b: "boost_ok b"
  shows "\<forall>kv \<in> set kvs. wf_header kv \<Longrightarrow>
    parse_headers b (map header_line kvs) hs = Inr (hs ++ map_of (rev (map (\<lambda>(k, v). (map tolower k, kept v)) kvs)))"
proof (induction kvs arbitrary: hs)
  case (Cons kv kvs)
  obtain vs where vs: "boost_split b (header_line kv) '': '' True = fst kv # kept (snd kv) # vs"
    using header_elements [OF b] Cons.prems by (meson list.set_intros(1))
  show ?case using Cons vs
    by (simp add: index_res_def boost_simps(4) [OF b] map_add_def fun_eq_iff split_beta split: option.splits)
qed simp

lemma parse_text_ok:
  assumes b: "boost_ok b" and r: "wf_request r"
  shows "parse_text b (text_of r) = Inr (parsed r)"
proof -
  have l: "map (boost_trim_right b) (boost_split b (text_of r) CRLF True) = (request_line r # map header_line (rq_headers r)) @ [[]]"
    using request_lines [OF b request_lines_wf [OF r]] by (simp only: text_of_def)
  have "parse_headers b (map header_line (rq_headers r)) Map.empty =
      Inr (map_of (rev (map (\<lambda>(k, v). (map tolower k, kept v)) (rq_headers r))))"
    using parse_headers_ok [OF b, of "rq_headers r" Map.empty] r by (simp add: wf_request_def)
  then show ?thesis unfolding parse_text_def ParseRequest_def
    by (simp add: Let_def l request_line_elements [OF b r] parsed_def butlast_append del: map_map)
qed

lemma text_of_found:
  assumes "wf_request r"
  shows "string_find CRLF2 (text_of r @ rest) = Some (length (text_of r) - 4)" "4 \<le> length (text_of r)"
proof -
  have "2 \<le> length (header_text (request_line r # map header_line (rq_headers r)))" by (simp add: header_text_def CRLF_def)
  then show "4 \<le> length (text_of r)" by (simp add: text_of_def CRLF_def)
  show "string_find CRLF2 (text_of r @ rest) = Some (length (text_of r) - 4)"
    using string_find_header [OF _ request_lines_wf [OF assms], of rest] by (simp add: text_of_def CRLF_def)
qed

lemma GetNextRequest_ok:
  assumes "boost_ok b" "wf_request r" "reads_ok (fd_reads hc)" "stream hc = text_of r @ rest"
  shows "\<exists>hc'. GetNextRequest b hc = Inr (Some (parsed r), hc') \<and> stream hc' = rest \<and> reads_ok (fd_reads hc') \<and>
     fd_writes hc' = fd_writes hc \<and> fd_sent hc' = fd_sent hc"
proof -
  have f: "string_find CRLF2 (stream hc) = Some (length (text_of r) - 4)" "length (text_of r) - 4 + 4 = length (text_of r)"
    using text_of_found [OF assms(2)] assms(4) by simp_all
  have t: "take (length (text_of r)) (stream hc) = text_of r" "drop (length (text_of r)) (stream hc) = rest"
    using assms(4) by simp_all
  show ?thesis using GetNextRequest_stream [OF assms(3) f(1), of b]
    unfolding f(2) t parse_text_ok [OF assms(1,2)] by simp
qed

section \<open>Properties\<close>

text \<open>
  Property C14: requests survive the network: in whatever pieces the bytes of a well-formed request arrive, and
  whatever comes with them, the request is parsed to its target and its headers (of which only the first word is
  kept), and exactly the bytes behind it are left for the next one.
\<close>

theorem requests_survive_the_network:
  assumes "boost_ok b" "wf_request r" "reads_ok (fd_reads hc)" "stream hc = text_of r @ rest"
  shows "\<exists>hc'. GetNextRequest b hc = Inr (Some (parsed r), hc') \<and> stream hc' = rest \<and> reads_ok (fd_reads hc') \<and>
     fd_writes hc' = fd_writes hc \<and> fd_sent hc' = fd_sent hc"
  using GetNextRequest_ok [OF assms] .

definition demo_request :: request_text where
  "demo_request = \<lparr>rq_method = ''GET'', rq_target = ''/a'', rq_version = ''HTTP/1.1'', rq_headers = [(''Host'', ''h:80'')]\<rparr>"

lemma requests_survive_the_network_witness:
  "\<exists>req hc'. GetNextRequest boost_ref
     (HttpConnection (map ReadBytes [''GET /a HTTP/1.1'' @ CRLF, ''Host: h:80'' @ CRLF @ [CHR 0x0D], [CHR 0x0A] @ ''GET''])  []) =
       Inr (Some req, hc') \<and> URI req = ''/a'' \<and> headers req ''host'' = Some ''h'' \<and> stream hc' = ''GET''"
proof -
  let ?hc = "HttpConnection (map ReadBytes [''GET /a HTTP/1.1'' @ CRLF, ''Host: h:80'' @ CRLF @ [CHR 0x0D], [CHR 0x0A] @ ''GET''])  []"
  have "wf_request demo_request"
    by (simp add: wf_request_def demo_request_def word_of_def wf_header_def wf_line_def isspace_def)
  moreover have "stream ?hc = text_of demo_request @ ''GET''"
    by (simp add: stream_def stream_of_def HttpConnection_def text_of_def demo_request_def header_text_def request_line_def
        header_line_def CRLF_def)
  moreover have "reads_ok (fd_reads ?hc)" by (simp add: reads_ok_def HttpConnection_def CRLF_def)
  moreover have "map tolower ''Host'' = ''host''" by code_simp
  ultimately show ?thesis using requests_survive_the_network [OF boost_ref_ok, of demo_request ?hc "''GET''"]
    by (fastforce simp: parsed_def demo_request_def kept_def)
qed

end
