(* ===== verification/HttpServerSpec.thy ===== *)
theory HttpServerSpec
  imports HttpConnectionSpec BuildFileIndexSpec
begin

text \<open>
  Properties of the web server: the answers it sends for a stream of requests, static files, queries, and the
  requests that end it.
\<close>

section \<open>Serving a stream of requests\<close>

text \<open>The texts of the answers to requests, and the allocator that is left.\<close>

fun answer_texts ::
  "world \<Rightarrow> string \<Rightarrow> string list \<Rightarrow> allocator \<Rightarrow> http_request list \<Rightarrow> (string list \<times> allocator) res" where
  "answer_texts w basedir indices m [] = Inr ([], m)"
| "answer_texts w basedir indices m (req # reqs) =
     bindE (ProcessRequest w m req basedir indices) (\<lambda>(hp, m).
     bindE (answer_texts w basedir indices m reqs) (\<lambda>(out, m). Inr (GenerateResponseString hp # out, m)))"

definition writes_ok :: "write_outcome list \<Rightarrow> bool" where
  "writes_ok outs \<longleftrightarrow> (\<forall>r \<in> set outs. r \<noteq> WriteError \<and> r \<noteq> Wrote 0)"

lemma WrappedWrite_ok:
  "writes_ok outs \<Longrightarrow> \<exists>outs'. WrappedWrite outs buf = (buf, outs') \<and> writes_ok outs'"
proof (induction outs buf rule: WrappedWrite.induct)
  case (5 n outs c buf)
  then obtain outs' where "WrappedWrite outs (drop n (c # buf)) = (drop n (c # buf), outs')" "writes_ok outs'"
    by (auto simp: writes_ok_def)
  then show ?case using 5(2) append_take_drop_id [of n "c # buf"] by (auto simp: writes_ok_def)
qed (auto simp: writes_ok_def)

lemma WriteResponse_ok:
  assumes "writes_ok (fd_writes hc)" "length (GenerateResponseString hp) < 2 ^ 31"
  shows "\<exists>outs. writes_ok outs \<and>
     WriteResponse hc hp = (True, hc\<lparr>fd_writes := outs, fd_sent := fd_sent hc @ GenerateResponseString hp\<rparr>)"
proof -
  let ?str = "GenerateResponseString hp"
  have n: "int_of_size (length ?str) = int (length ?str)"
    using assms(2) by (simp add: int_of_size_def signed_of_nat signed_take_bit_int_eq_self)
  obtain outs where "WrappedWrite (fd_writes hc) ?str = (?str, outs)" "writes_ok outs"
    using WrappedWrite_ok [OF assms(1)] by blast
  then show ?thesis by (auto simp: WriteResponse_def Let_def n)
qed

text \<open>No response tells the client that the connection is closed.\<close>

lemma ProcessFileRequest_headers:
  assumes "ProcessFileRequest w m uri basedir = Inr (hp, m')"
  shows "response_headers hp = [] \<or> (\<exists>t. response_headers hp = [(''Content-type'', t)])"
proof (cases "length (get_path (Parse (w_boost w) URLParser uri)) < 8")
  case False
  then show ?thesis using assms unfolding ProcessFileRequest_def Let_def
    by (force simp: bindE_eq_Inr split: option.splits)
qed (use assms in \<open>simp add: ProcessFileRequest_def\<close>)

lemma ProcessQueryRequest_headers:
  "ProcessQueryRequest w uri indices = Inr hp \<Longrightarrow> response_headers hp = []"
  unfolding ProcessQueryRequest_def bindE_eq_Inr by force

lemma response_connection:
  assumes "ProcessRequest w m req basedir indices = Inr (hp, m')"
  shows "header_of (response_headers hp) ''connection'' = []"
proof (cases "take 8 (URI req) = ''/static/''")
  case True
  then have "ProcessFileRequest w m (URI req) basedir = Inr (hp, m')" using assms by (simp add: ProcessRequest_def)
  from ProcessFileRequest_headers [OF this] show ?thesis by (auto simp: header_of_def)
next
  case False
  then have "ProcessQueryRequest w (URI req) indices = Inr hp" using assms by (auto simp: ProcessRequest_def bindE_eq_Inr)
  from ProcessQueryRequest_headers [OF this] show ?thesis by (simp add: header_of_def)
qed

lemma server_loop_ok:
  assumes b: "boost_ok (w_boost w)" and tail: "string_find CRLF2 tail = None"
  shows "\<forall>r \<in> set rs. wf_request r \<Longrightarrow> reads_ok (fd_reads hc) \<Longrightarrow> writes_ok (fd_writes hc) \<Longrightarrow>
    stream hc = concat (map text_of rs) @ tail \<Longrightarrow>
    answer_texts w basedir indices m (map parsed rs @ [last (req # map parsed rs)]) = Inr (out, m') \<Longrightarrow>
    \<forall>t \<in> set out. length t < 2 ^ 31 \<Longrightarrow>
    \<exists>hc'. server_loop w basedir indices m req hc = Inr (hc', m') \<and> fd_sent hc' = fd_sent hc @ concat out"
proof (induction rs arbitrary: m req hc out)
  case Nil
  obtain hp m1 where hp: "ProcessRequest w m req basedir indices = Inr (hp, m1)" "out = [GenerateResponseString hp]" "m' = m1"
    using Nil.prems(5) by (auto simp: bindE_eq_Inr)
  obtain hc1 where n: "GetNextRequest (w_boost w) hc = Inr (None, hc1)" "fd_writes hc1 = fd_writes hc" "fd_sent hc1 = fd_sent hc"
    using GetNextRequest_end [OF Nil.prems(2)] Nil.prems(4) tail by auto
  have wo: "writes_ok (fd_writes hc1)" using n(2) Nil.prems(3) by simp
  obtain outs where "WriteResponse hc1 hp = (True, hc1\<lparr>fd_writes := outs, fd_sent := fd_sent hc1 @ GenerateResponseString hp\<rparr>)"
    using WriteResponse_ok [OF wo] hp(2) Nil.prems(6) by fastforce
  then show ?case using hp n by (simp add: server_loop.simps [of w basedir indices m req hc])
next
  case (Cons r rs)
  let ?req = "parsed r"
  obtain hp m1 out1 where hp: "ProcessRequest w m ?req basedir indices = Inr (hp, m1)"
    "answer_texts w basedir indices m1 (map parsed rs @ [last (?req # map parsed rs)]) = Inr (out1, m')"
    "out = GenerateResponseString hp # out1"
    using Cons.prems(5) by (auto simp: bindE_eq_Inr)
  have s: "stream hc = text_of r @ concat (map text_of rs) @ tail" using Cons.prems(4) by simp
  obtain hc1 where n: "GetNextRequest (w_boost w) hc = Inr (Some ?req, hc1)" "stream hc1 = concat (map text_of rs) @ tail"
    "reads_ok (fd_reads hc1)" "fd_writes hc1 = fd_writes hc" "fd_sent hc1 = fd_sent hc"
    using GetNextRequest_ok [OF b _ Cons.prems(2) s] Cons.prems(1) by auto
  have wo: "writes_ok (fd_writes hc1)" using n(4) Cons.prems(3) by simp
  obtain outs where wr: "writes_ok outs"
    "WriteResponse hc1 hp = (True, hc1\<lparr>fd_writes := outs, fd_sent := fd_sent hc1 @ GenerateResponseString hp\<rparr>)"
    using WriteResponse_ok [OF wo] hp(3) Cons.prems(6) by fastforce
  let ?hc = "hc1\<lparr>fd_writes := outs, fd_sent := fd_sent hc1 @ GenerateResponseString hp\<rparr>"
  have "\<exists>hc'. server_loop w basedir indices m1 ?req ?hc = Inr (hc', m') \<and> fd_sent hc' = fd_sent ?hc @ concat out1"
    by (rule Cons.IH [OF _ _ _ _ hp(2)]) (use Cons.prems(1,6) n wr hp(3) in \<open>auto simp: stream_def\<close>)
  moreover have "server_loop w basedir indices m req hc = server_loop w basedir indices m1 ?req ?hc"
    using response_connection [OF hp(1)] by (simp add: server_loop.simps [of w basedir indices m req hc] n(1) hp(1) wr(2))
  ultimately show ?case using n(5) hp(3) by auto
qed

section \<open>Static files\<close>

text \<open>The file that a target \<open>/static/f\<close> names.\<close>

definition requested :: "string \<Rightarrow> string" where
  "requested f = URIDecode (takeWhile (\<lambda>c. c \<noteq> CHR ''?'') f)"

lemma Parse_path:
  assumes b: "boost_ok b"
  shows "get_path (Parse b p url) = URIDecode (takeWhile (\<lambda>c. c \<noteq> CHR ''?'') url)"
proof -
  have "tokens_of {CHR ''?''} url = takeWhile (\<lambda>c. c \<notin> {CHR ''?''}) url # tl (tokens_of {CHR ''?''} url)" by (rule tokens_first)
  then have "boost_split b url ''?'' False = takeWhile (\<lambda>c. c \<noteq> CHR ''?'') url # tl (tokens_of {CHR ''?''} url)"
    by (simp add: boost_simps [OF b])
  then show ?thesis by (cases "tl (tokens_of {CHR ''?''} url)") (simp_all add: Parse_def get_path_def)
qed

lemma static_path:
  assumes "boost_ok b"
  shows "get_path (Parse b URLParser (''/static/'' @ f)) = ''/static/'' @ requested f"
  by (simp add: Parse_path [OF assms] requested_def Let_def)

definition not_found :: "boost \<Rightarrow> string \<Rightarrow> http_response" where
  "not_found b fname =
     \<lparr>protocol = ''HTTP/1.1'', response_code = 404, response_message = ''Not Found'', response_headers = [],
      body = ''<html><body>Couldn'' @ [CHR 0x27] @ ''t find file '' @ [CHR 0x22] @
             EscapeHTML b fname @ [CHR 0x22] @ ''</body></html>''\<rparr>"

text \<open>What is between the first dot of a name and the second, or the end.\<close>

definition second_part :: "string \<Rightarrow> string" where
  "second_part s = takeWhile (\<lambda>c. c \<noteq> CHR ''.'') (tl (dropWhile (\<lambda>c. c \<noteq> CHR ''.'') s))"

definition found :: "string \<Rightarrow> string \<Rightarrow> http_response" where
  "found fname s =
     \<lparr>protocol = ''HTTP/1.1'', response_code = 200, response_message = ''OK'',
      response_headers = [(''Content-type'', content_type (second_part fname))], body = s\<rparr>"

lemma split_dots:
  assumes b: "boost_ok b"
  shows "index_res (boost_split b fname ''.'' False) 1 =
    (if CHR ''.'' \<in> set fname then Inr (second_part fname) else Inl Undefined_Behaviour)"
proof (cases "CHR ''.'' \<in> set fname")
  case True
  then obtain u v where uv: "fname = u @ CHR ''.'' # v" "CHR ''.'' \<notin> set u" by (meson split_list_first)
  then have "tokens_of {CHR ''.''} fname = u # tokens_of {CHR ''.''} v" by (simp add: tokens_append)
  moreover have "tokens_of {CHR ''.''} v = takeWhile (\<lambda>c. c \<noteq> CHR ''.'') v # tl (tokens_of {CHR ''.''} v)"
    using tokens_first [of "{CHR ''.''}" v] by simp
  moreover have "\<forall>c \<in> set u. c \<noteq> CHR ''.''" using uv(2) by auto
  then have "dropWhile (\<lambda>c. c \<noteq> CHR ''.'') fname = CHR ''.'' # v" using uv(1) by (simp add: dropWhile_append2)
  ultimately have "index_res (tokens_of {CHR ''.''} fname) 1 = Inr (second_part fname)"
    by (simp add: index_res_def second_part_def) (metis length_Cons length_greater_0_conv list.distinct(1) nth_Cons_0)
  then show ?thesis using True by (simp add: boost_simps [OF b])
next
  case False
  then show ?thesis by (simp add: boost_simps [OF b] tokens_none index_res_def)
qed

lemma file_request:
  assumes b: "boost_ok (w_boost w)"
  shows "ProcessRequest w m \<lparr>URI = ''/static/'' @ f, headers = hs\<rparr> basedir indices =
    (let fname = requested f in
     bindE (if IsPathSafe (w_realpath w) basedir (basedir @ ''/'' @ fname)
            then FileReader_ReadFile m (w_os w) basedir fname else Inr (None, m)) (\<lambda>(content, m).
     case content of
       Some content \<Rightarrow> if CHR ''.'' \<in> set fname then Inr (found fname content, m) else Inl Undefined_Behaviour
     | None \<Rightarrow> Inr (not_found (w_boost w) fname, m)))"
proof -
  have "ProcessRequest w m \<lparr>URI = ''/static/'' @ f, headers = hs\<rparr> basedir indices = ProcessFileRequest w m (''/static/'' @ f) basedir"
    by (simp add: ProcessRequest_def)
  moreover have "length (''/static/'' @ requested f) \<ge> 8" "drop 8 (''/static/'' @ requested f) = requested f" by simp_all
  ultimately show ?thesis unfolding ProcessFileRequest_def static_path [OF b]
    by (auto simp: split_dots [OF b, unfolded One_nat_def] Let_def not_found_def found_def intro!: bindE_cong split: option.splits)
qed

lemma FileReader_ReadFile_ok:
  assumes "never_fails m" "file_is (w_os w) (c_str (basedir @ ''/'' @ fname)) s" "length s < 2 ^ 32"
  shows "\<exists>m'. FileReader_ReadFile m (w_os w) basedir fname = Inr (Some s, m') \<and> never_fails m'"
proof -
  obtain m' where m: "ReadFile m (w_os w) (c_str (basedir @ ''/'' @ fname)) = Inr (Some (s @ [NUL], of_nat (length s)), m')"
    "never_fails m'" using ReadFile_ok [OF assms(2,3,1)] by blast
  then show ?thesis using assms(3) by (simp add: FileReader_ReadFile_def unat_of_nat32)
qed

section \<open>Queries\<close>

text \<open>A search as a browser sends it: the words with a plus sign between them.\<close>

definition plain_word :: "string \<Rightarrow> bool" where
  "plain_word v \<longleftrightarrow> word_of {CHR ''?'', CHR ''&'', CHR ''='', CHR ''%'', CHR ''+''} v"

definition search_uri :: "string list \<Rightarrow> string" where
  "search_uri ws = ''/query?terms='' @ join_with CHR ''+'' ws"

definition search_text :: "string list \<Rightarrow> string" where
  "search_text ws = map tolower (join_with CHR '' '' ws)"

lemma plain_word_free: "plain_word v \<Longrightarrow> set v \<inter> {CHR ''?'', CHR ''&'', CHR ''='', CHR ''%'', CHR ''+''} = {}"
  by (auto simp: plain_word_def word_of_def)

lemma URIDecode_word: "set v \<inter> {CHR ''%'', CHR ''+''} = {} \<Longrightarrow> URIDecode (v @ s) = v @ URIDecode s"
  by (induction v) (auto simp: Let_def)

lemma URIDecode_words: "\<forall>v \<in> set ws. plain_word v \<Longrightarrow> URIDecode (join_with CHR ''+'' ws) = join_with CHR '' '' ws"
proof (induction ws)
  case (Cons v ws)
  note v = plain_word_free [of v] URIDecode_word [of v]
  show ?case
  proof (cases ws)
    case Nil
    then show ?thesis using Cons.prems v(1) v(2) [of "[]"] by simp
  next
    case ws: (Cons v' ws')
    have "URIDecode (v @ CHR ''+'' # join_with CHR ''+'' ws) = v @ URIDecode (CHR ''+'' # join_with CHR ''+'' ws)"
      by (rule v(2)) (use Cons.prems v(1) in auto)
    moreover have "URIDecode (CHR ''+'' # join_with CHR ''+'' ws) = CHR '' '' # URIDecode (join_with CHR ''+'' ws)" by simp
    ultimately show ?thesis using Cons.IH Cons.prems ws by simp
  qed
qed simp

lemma join_free: "\<forall>v \<in> set ws. d \<notin> set v \<Longrightarrow> d \<noteq> c \<Longrightarrow> d \<notin> set (join_with c ws)"
  by (induction c ws rule: join_with.induct) auto

lemma isspace_tolower: "isspace (tolower c) = isspace c"
proof (cases "65 \<le> (of_char c :: nat) \<and> (of_char c :: nat) \<le> 90")
  case True
  then have "of_char (tolower c) = (of_char c :: nat) + 32" by (simp add: tolower_def of_char_of take_bit_nat_eq_self)
  moreover have "(of_char CHR '' '' :: nat) = 32" by simp
  ultimately have "tolower c \<noteq> CHR '' ''" "c \<noteq> CHR '' ''" using True by auto
  then show ?thesis using True \<open>of_char (tolower c) = _\<close> by (simp add: isspace_def)
next
  case False
  then show ?thesis by (auto simp: tolower_def)
qed

lemma join_ends:
  "ws \<noteq> [] \<Longrightarrow> \<forall>v \<in> set ws. plain_word v \<Longrightarrow>
   join_with c ws \<noteq> [] \<and> \<not> isspace (hd (join_with c ws)) \<and> \<not> isspace (last (join_with c ws))"
proof (induction c ws rule: join_with.induct)
  case (2 c v)
  then show ?case by (auto simp: plain_word_def word_of_def)
next
  case (3 c v v' ws)
  then show ?case by (auto simp: plain_word_def word_of_def hd_append)
qed simp

lemma trim_text:
  assumes b: "boost_ok b" and ws: "ws \<noteq> []" "\<forall>v \<in> set ws. plain_word v"
  shows "boost_trim b (search_text ws) = search_text ws"
proof -
  let ?s = "search_text ws"
  have s: "?s \<noteq> []" "\<not> isspace (hd ?s)" "\<not> isspace (last ?s)"
    using join_ends [OF ws, of "CHR '' ''"] by (simp_all add: search_text_def isspace_tolower hd_map last_map)
  have "dropWhile isspace (rev ?s) = rev ?s" using s(1,3) by (cases "rev ?s") (auto simp: last_rev [symmetric] hd_rev)
  moreover have "dropWhile isspace ?s = ?s" using s(1,2) by (cases ?s) auto
  ultimately show ?thesis using b by (simp add: boost_ok_def)
qed

lemma search_args:
  assumes b: "boost_ok b" and ws: "\<forall>v \<in> set ws. plain_word v"
  shows "get_args (Parse b URLParser (search_uri ws)) ''terms'' = Some (join_with CHR '' '' ws)"
proof -
  let ?J = "join_with CHR ''+'' ws"
  have free: "d \<notin> set ?J" if "d \<in> {CHR ''?'', CHR ''&'', CHR ''=''}" for d
    using join_free [of ws d "CHR ''+''"] ws plain_word_free that by blast
  have 1: "boost_split b (search_uri ws) ''?'' False = [''/query'', ''terms='' @ ?J]"
    using free by (simp add: boost_simps [OF b] search_uri_def tokens_none)
  have 2: "boost_split b (''terms='' @ ?J) ''&'' False = [''terms='' @ ?J]"
    using free by (simp add: boost_simps [OF b] tokens_none)
  have 3: "boost_split b (''terms='' @ ?J) ''='' False = [''terms'', ?J]"
    using free by (simp add: boost_simps [OF b] tokens_none)
  have 4: "URIDecode ''terms'' = ''terms''" by simp
  show ?thesis unfolding Parse_def Let_def 1 list.case 2 parse_args.simps 3 4
    by (simp add: get_args_def URIDecode_words [OF ws])
qed

lemma search_words:
  assumes b: "boost_ok b" and ws: "\<forall>v \<in> set ws. plain_word v"
  shows "query_words b (join_with CHR '' '' ws) = [search_text ws]"
proof -
  have "CHR ''+'' \<notin> set (join_with CHR '' '' ws)"
    using join_free [of ws "CHR ''+''" "CHR '' ''"] ws plain_word_free by blast
  then show ?thesis by (simp add: query_words_def boost_simps [OF b] tokens_none merge_empty_def search_text_def)
qed

text \<open>The page with results.\<close>

definition result_page :: "boost \<Rightarrow> string \<Rightarrow> query_result list \<Rightarrow> http_response" where
  "result_page b text rs =
     \<lparr>protocol = ''HTTP/1.1'', response_code = 200, response_message = ''OK'', response_headers = [],
      body = page_head @ results_part b text rs @ page_end\<rparr>"

lemma search_request:
  assumes b: "boost_ok (w_boost w)" and ws: "ws \<noteq> []" "\<forall>v \<in> set ws. plain_word v"
    and files: "list_all2 (\<lambda>name docs. \<exists>B. w_files w name = Some B \<and> crawl_file B docs) names dss" "names \<noteq> []"
    and srt: "sorts (w_sort w)" and nc: "\<forall>docs \<in> set dss. no_collision docs (search_text ws)"
  shows "\<exists>rs. ProcessRequest w m \<lparr>URI = search_uri ws, headers = hs\<rparr> basedir names =
       Inr (result_page (w_boost w) (search_text ws) rs, m) \<and>
     right_results dss [search_text ws] rs \<and> sorted_wrt (\<lambda>x y. rank y \<le> rank x) rs"
proof -
  obtain ois where ois: "open_indices (w_files w) True names = Inr ois" "list_all2 reads_crawl ois dss"
    using open_indices_ok [OF files(1)] by blast
  obtain rs where rs: "ProcessQuery (w_sort w) ois [search_text ws] = Inr rs" "right_results dss [search_text ws] rs"
    "sorted_wrt (\<lambda>x y. rank y \<le> rank x) rs"
    using ProcessQuery_ok [OF ois(2) _ _ srt, of "[search_text ws]"] nc by auto
  have f: "string_find ''query?terms'' (search_uri ws) \<noteq> None" by (simp add: search_uri_def)
  have qp: "QueryProcessor (w_files w) names True = Inr ois" using ois(1) files(2) by (simp add: QueryProcessor_def)
  have "ProcessQueryRequest w (search_uri ws) names = Inr (result_page (w_boost w) (search_text ws) rs)"
    unfolding ProcessQueryRequest_def search_args [OF b ws(2)]
    using f by (simp add: search_words [OF b ws(2)] qp rs(1) trim_text [OF b ws] result_page_def)
  moreover have "take 8 (search_uri ws) \<noteq> ''/static/''" by (simp add: search_uri_def)
  ultimately show ?thesis using rs(2,3) by (auto simp: ProcessRequest_def)
qed

lemma word_hits_in:
  assumes "word_hits t ws \<noteq> 0"
  shows "\<exists>v p. (v, p) \<in> set ws \<and> str_key v = str_key t"
proof -
  have "with_key (str_key t) (occurrences ws) \<noteq> []" using assms by (simp add: word_hits_def)
  then show ?thesis by (auto simp: with_key_def occurrences_def filter_empty_conv)
qed

lemma no_results:
  assumes "\<forall>docs \<in> set dss. no_collision docs t \<and> t \<notin> doc_words docs" "right_results dss [t] rs"
  shows "rs = []"
proof -
  obtain rss where rss: "list_all2 (\<lambda>docs rs. distinct (map document_name rs) \<and>
      (\<lambda>r. (document_name r, rank r)) ` set rs = ranked docs [t]) dss rss" "mset rs = mset (concat rss)"
    using assms(2) by (auto simp: right_results_def)
  have "ranked docs [t] = {}" if "docs \<in> set dss" for docs
  proof -
    have "word_hits t ws = 0" if "(f, ws) \<in> set docs" for f ws
    proof (rule ccontr)
      assume "word_hits t ws \<noteq> 0"
      then obtain v p where v: "(v, p) \<in> set ws" "str_key v = str_key t" using word_hits_in by blast
      then have "v \<in> doc_words docs" using \<open>(f, ws) \<in> set docs\<close> by (force simp: doc_words_def)
      then show False using assms(1) \<open>docs \<in> set dss\<close> v(2) by (auto simp: no_collision_def)
    qed
    then show ?thesis by (auto simp: ranked_def)
  qed
  then have "list_all2 (\<lambda>docs rs. rs = []) dss rss"
    using rss(1) by (auto simp: list_all2_conv_all_nth)
  then have "\<forall>rs \<in> set rss. rs = []" by (auto simp: list_all2_conv_all_nth in_set_conv_nth)
  then have "set rs = {}" using mset_eq_setD [OF rss(2)] by simp
  then show ?thesis by simp
qed

section \<open>Malformed requests\<close>

text \<open>A line without a blank: other white space in it does not separate.\<close>

definition unseparated :: "string \<Rightarrow> bool" where
  "unseparated l \<longleftrightarrow> CHR '' '' \<notin> set l \<and> CHR 0x0D \<notin> set l \<and> CHR 0x0A \<notin> set l"

lemma malformed_text:
  assumes b: "boost_ok b" and l: "unseparated l"
  shows "parse_text b (l @ CRLF @ rest) = Inl Uncaught_Exception"
proof -
  have free: "set l \<inter> {CHR 0x0D, CHR 0x0A} = {}" using l by (auto simp: unseparated_def)
  have t: "tokens_of {CHR 0x0D, CHR 0x0A} (l @ CRLF @ rest) = l # [] # tokens_of {CHR 0x0D, CHR 0x0A} rest"
    using tokens_append [OF free, of "CHR 0x0D" "CHR 0x0A # rest"] by (simp add: CRLF_def)
  obtain ls where s: "boost_split b (l @ CRLF @ rest) CRLF True = l # ls"
    using t by (simp add: boost_simps [OF b] CRLF_def merge_empty_Cons)
  have "set (rev (dropWhile isspace (rev l))) \<subseteq> set l" using set_dropWhileD by fastforce
  then have "CHR '' '' \<notin> set (boost_trim_right b l)" using l by (auto simp: boost_simps [OF b] unseparated_def)
  then have "boost_split b (boost_trim_right b l) '' '' True = [boost_trim_right b l]"
    by (simp add: boost_simps [OF b] tokens_none merge_empty_def)
  then show ?thesis unfolding parse_text_def ParseRequest_def by (simp add: Let_def s del: append_assoc)
qed

lemma malformed_request:
  assumes b: "boost_ok b" and r: "reads_ok (fd_reads hc)" and l: "unseparated l"
    and s: "stream hc = l @ CRLF @ tail" "string_find CRLF2 (l @ CRLF @ tail) \<noteq> None"
  shows "GetNextRequest b hc = Inl Uncaught_Exception"
proof -
  have "string_find CRLF2 (l @ CRLF @ tail) = map_option (\<lambda>p. length l + p) (string_find CRLF2 (CRLF @ tail))"
    by (rule string_find_skip) (use l in \<open>simp add: unseparated_def\<close>)
  then obtain p where p: "string_find CRLF2 (stream hc) = Some (length l + p)" using s by auto
  have n: "length l + p + 4 = length (l @ CRLF) + (p + 2)" by (simp add: CRLF_def)
  have "take (length l + p + 4) (stream hc) = l @ CRLF @ take (p + 2) tail"
    unfolding s(1) n append_assoc [symmetric] take_append by simp
  then show ?thesis using GetNextRequest_stream [OF r p, of b] malformed_text [OF b l] by auto
qed

lemma server_loop_malformed:
  assumes b: "boost_ok (w_boost w)" and l: "unseparated l" and tail: "string_find CRLF2 (l @ CRLF @ tail) \<noteq> None"
  shows "\<forall>r \<in> set rs. wf_request r \<Longrightarrow> reads_ok (fd_reads hc) \<Longrightarrow> rs = [] \<or> writes_ok (fd_writes hc) \<Longrightarrow>
    stream hc = concat (map text_of rs) @ l @ CRLF @ tail \<Longrightarrow>
    answer_texts w basedir indices m (map parsed rs) = Inr (out, m') \<Longrightarrow> \<forall>t \<in> set out. length t < 2 ^ 31 \<Longrightarrow>
    server_loop w basedir indices m req hc = Inl Uncaught_Exception"
proof (induction rs arbitrary: m req hc out)
  case Nil
  then have "GetNextRequest (w_boost w) hc = Inl Uncaught_Exception" using malformed_request [OF b _ l _ tail] by simp
  then show ?case by (simp add: server_loop.simps [of w basedir indices m req hc])
next
  case (Cons r rs)
  let ?req = "parsed r"
  obtain hp m1 out1 where hp: "ProcessRequest w m ?req basedir indices = Inr (hp, m1)"
    "answer_texts w basedir indices m1 (map parsed rs) = Inr (out1, m')" "out = GenerateResponseString hp # out1"
    using Cons.prems(5) by (auto simp: bindE_eq_Inr)
  have s: "stream hc = text_of r @ concat (map text_of rs) @ l @ CRLF @ tail" using Cons.prems(4) by simp
  obtain hc1 where n: "GetNextRequest (w_boost w) hc = Inr (Some ?req, hc1)"
    "stream hc1 = concat (map text_of rs) @ l @ CRLF @ tail" "reads_ok (fd_reads hc1)" "fd_writes hc1 = fd_writes hc"
    using GetNextRequest_ok [OF b _ Cons.prems(2) s] Cons.prems(1) by auto
  have wo: "writes_ok (fd_writes hc1)" using n(4) Cons.prems(3) by simp
  obtain outs where wr: "writes_ok outs"
    "WriteResponse hc1 hp = (True, hc1\<lparr>fd_writes := outs, fd_sent := fd_sent hc1 @ GenerateResponseString hp\<rparr>)"
    using WriteResponse_ok [OF wo] hp(3) Cons.prems(6) by fastforce
  let ?hc = "hc1\<lparr>fd_writes := outs, fd_sent := fd_sent hc1 @ GenerateResponseString hp\<rparr>"
  have "server_loop w basedir indices m1 ?req ?hc = Inl Uncaught_Exception"
    by (rule Cons.IH [OF _ _ _ _ hp(2)]) (use Cons.prems(1,6) n wr hp(3) in \<open>auto simp: stream_def\<close>)
  moreover have "server_loop w basedir indices m req hc = server_loop w basedir indices m1 ?req ?hc"
    using response_connection [OF hp(1)] by (simp add: server_loop.simps [of w basedir indices m req hc] n(1) hp(1) wr(2))
  ultimately show ?case by simp
qed

section \<open>Properties\<close>

text \<open>
  Property C3: the server answers the requests of a client one by one and in order: whatever the requests are,
  however their bytes are cut into pieces and however the socket takes the answers, what is sent is the answers put
  together.  Only then, when the client has no more requests, the last one (or an empty one) is answered once
  more: the code goes on with the old request when there is no next one.  A request to close the connection makes no difference.
\<close>

theorem server_answers_in_order:
  assumes "boost_ok (w_boost w)" "\<forall>r \<in> set rs. wf_request r" "reads_ok reads" "writes_ok writes"
    and "stream_of reads = concat (map text_of rs) @ tail" "string_find CRLF2 tail = None"
    and "answer_texts w basedir indices m (map parsed rs @ [last (HttpRequest # map parsed rs)]) = Inr (out, m')"
      "\<forall>t \<in> set out. length t < 2 ^ 31"
  shows "\<exists>hc. HttpServer_ThrFn w basedir indices m reads writes = Inr (hc, m') \<and> fd_sent hc = concat out"
  using server_loop_ok [OF assms(1,6,2) _ _ _ assms(7,8), of "HttpConnection reads writes"] assms(3-5)
  by (simp add: HttpServer_ThrFn_def HttpConnection_def stream_def)

definition demo_world :: world where
  "demo_world =
     \<lparr>w_boost = boost_ref, w_realpath = [''w'' \<mapsto> ''/w'', ''w/a.txt'' \<mapsto> ''/w/a.txt'', ''w/b'' \<mapsto> ''/w/b''],
      w_os = \<lparr>os_stat = (\<lambda>f. Some \<lparr>si_isreg = True, si_isdir = False, si_size = 2\<rparr>), os_open = (\<lambda>f. True),
               os_reads = (\<lambda>f. [ReadBytes ''hi'']), os_opendir = Map.empty\<rparr>,
      w_files = Map.empty, w_sort = rank_sort\<rparr>"

lemma demo_boost: "boost_ok (w_boost demo_world)"
  using boost_ref_ok by (simp add: demo_world_def)

definition empty_page :: http_response where
  "empty_page = \<lparr>protocol = ''HTTP/1.1'', response_code = 200, response_message = ''OK'', response_headers = [],
     body = page_head @ page_end\<rparr>"

lemma decimal_length: "length (decimal n) \<le> Suc n"
proof (induction n rule: decimal.induct)
  case (1 n)
  then show ?case by (cases "n < 10") (auto simp: decimal.simps [of n] intro: le_trans)
qed

lemma demo_page: "ProcessRequest demo_world m (parsed demo_request) basedir indices = Inr (empty_page, m)"
  by (simp add: parsed_def demo_request_def ProcessRequest_def ProcessQueryRequest_def empty_page_def)

lemma server_answers_in_order_witness:
  "\<exists>hc. HttpServer_ThrFn demo_world ''w'' [] [] [ReadBytes (text_of demo_request), ReadBytes (text_of demo_request)] [Wrote 100, WriteAgain] =
     Inr (hc, []) \<and> fd_sent hc = concat (replicate 3 (GenerateResponseString empty_page))"
proof -
  let ?t = "GenerateResponseString empty_page"
  have "wf_request demo_request"
    by (simp add: wf_request_def demo_request_def word_of_def wf_header_def wf_line_def isspace_def)
  then have wf: "\<forall>r \<in> set [demo_request, demo_request]. wf_request r" by simp
  have t: "text_of demo_request \<noteq> []" "length (text_of demo_request) \<le> 256"
    by (simp_all add: text_of_def demo_request_def header_text_def request_line_def header_line_def CRLF_def)
  have a: "answer_texts demo_world ''w'' [] [] (map parsed [demo_request, demo_request] @ [last (HttpRequest # map parsed [demo_request, demo_request])]) =
      Inr ([?t, ?t, ?t], [])" by (simp add: demo_page)
  have p: "length (page_head @ page_end) \<le> 2000" by (simp add: page_head_def page_end_def quoted_def CRLF_def)
  have l: "length ?t < 2 ^ 31"
    using p decimal_length [of "length (page_head @ page_end)"] decimal_length [of 200]
    by (simp add: GenerateResponseString_def empty_page_def CRLF_def)
  show ?thesis
    using server_answers_in_order [OF demo_boost wf _ _ _ _ a, of "[ReadBytes (text_of demo_request), ReadBytes (text_of demo_request)]"
        "[Wrote 100, WriteAgain]" "[]"] t l
    by (simp add: reads_ok_def writes_ok_def stream_of_def CRLF_def numeral_3_eq_3)
qed

text \<open>
  Property C20: a request whose first line has no blank in it, whatever the line and the header lines behind it are,
  ends the whole server, not only its connection, be it the first request of the connection or one that
  comes after any number of requests that were answered: the index behind the end throws an exception that
  nothing catches in the thread.
\<close>

theorem malformed_request_ends_server:
  assumes "boost_ok (w_boost w)" "\<forall>r \<in> set rs. wf_request r" "reads_ok reads" "rs = [] \<or> writes_ok writes"
    and "stream_of reads = concat (map text_of rs) @ l @ CRLF @ tail"
    and "CHR '' '' \<notin> set l" "CHR 0x0D \<notin> set l" "CHR 0x0A \<notin> set l" "string_find CRLF2 (l @ CRLF @ tail) \<noteq> None"
    and "answer_texts w basedir indices m (map parsed rs) = Inr (out, m')" "\<forall>t \<in> set out. length t < 2 ^ 31"
  shows "HttpServer_ThrFn w basedir indices m reads writes = Inl Uncaught_Exception"
proof -
  have l: "unseparated l" using assms(6-8) by (simp add: unseparated_def)
  show ?thesis unfolding HttpServer_ThrFn_def
    by (rule server_loop_malformed [OF assms(1) l assms(9,2) _ _ _ assms(10,11)])
      (use assms(3-5) in \<open>simp_all add: HttpConnection_def stream_def\<close>)
qed

lemma malformed_request_ends_server_witness:
  "HttpServer_ThrFn demo_world ''w'' [] []
     [ReadBytes (text_of demo_request), ReadBytes (''x'' @ CRLF @ ''Host: a'' @ CRLF), ReadBytes CRLF] [] = Inl Uncaught_Exception"
proof -
  let ?t = "GenerateResponseString empty_page" and ?l = "''x''" and ?tail = "''Host: a'' @ CRLF @ CRLF"
  let ?reads = "[ReadBytes (text_of demo_request), ReadBytes (''x'' @ CRLF @ ''Host: a'' @ CRLF), ReadBytes CRLF]"
  have wf: "\<forall>r \<in> set [demo_request]. wf_request r"
    by (simp add: wf_request_def demo_request_def word_of_def wf_header_def wf_line_def isspace_def)
  have t: "text_of demo_request \<noteq> []" "length (text_of demo_request) \<le> 256"
    by (simp_all add: text_of_def demo_request_def header_text_def request_line_def header_line_def CRLF_def)
  have reads: "reads_ok ?reads" "stream_of ?reads = concat (map text_of [demo_request]) @ ?l @ CRLF @ ?tail"
    using t by (simp_all add: reads_ok_def stream_of_def CRLF_def)
  have a: "answer_texts demo_world ''w'' [] [] (map parsed [demo_request]) = Inr ([?t], [])" by (simp add: demo_page)
  have p: "length (page_head @ page_end) \<le> 2000" by (simp add: page_head_def page_end_def quoted_def CRLF_def)
  have "length ?t < 2 ^ 31"
    using p decimal_length [of "length (page_head @ page_end)"] decimal_length [of 200]
    by (simp add: GenerateResponseString_def empty_page_def CRLF_def)
  then have short: "\<forall>t \<in> set [?t]. length t < 2 ^ 31" by simp
  have find: "string_find CRLF2 (?l @ CRLF @ ?tail) \<noteq> None" by (simp add: CRLF_def)
  show ?thesis
    by (rule malformed_request_ends_server [OF demo_boost wf reads(1) _ reads(2) _ _ _ find a short])
      (simp_all add: writes_ok_def)
qed

text \<open>
  Property C18: a static file below the root directory is sent byte for byte, with a type that only depends on the
  part of its name between the first two dots; for a name without a dot the code reads behind the end of
  a vector.
\<close>

theorem static_file_is_sent:
  assumes "boost_ok (w_boost w)" "never_fails m" "IsPathSafe (w_realpath w) basedir (basedir @ ''/'' @ requested f)"
    and "file_is (w_os w) (c_str (basedir @ ''/'' @ requested f)) s" "length s < 2 ^ 32"
  shows "\<exists>m'. never_fails m' \<and> ProcessRequest w m \<lparr>URI = ''/static/'' @ f, headers = hs\<rparr> basedir indices =
    (if CHR ''.'' \<in> set (requested f) then Inr (found (requested f) s, m') else Inl Undefined_Behaviour)"
proof -
  obtain m' where "FileReader_ReadFile m (w_os w) basedir (requested f) = Inr (Some s, m')" "never_fails m'"
    using FileReader_ReadFile_ok [OF assms(2,4,5)] by blast
  then show ?thesis unfolding file_request [OF assms(1)] Let_def using assms(3) by auto
qed

lemma static_file_is_sent_witness:
  "\<exists>m'. never_fails m' \<and> ProcessRequest demo_world [] \<lparr>URI = ''/static/'' @ ''a.txt?x'', headers = Map.empty\<rparr> ''w'' [] = Inr (found ''a.txt'' ''hi'', m')"
proof -
  have r: "requested ''a.txt?x'' = ''a.txt''" by (simp add: requested_def Let_def)
  have "IsPathSafe (w_realpath demo_world) ''w'' (''w'' @ ''/'' @ requested ''a.txt?x'')"
    by (simp add: r IsPathSafe_def demo_world_def c_str_def NUL_def)
  moreover have "file_is (w_os demo_world) (c_str (''w'' @ ''/'' @ requested ''a.txt?x'')) ''hi''"
    by (simp add: r demo_world_def file_is_def)
  ultimately show ?thesis
    using static_file_is_sent [OF demo_boost never_fails_Nil, of "''w''" "''a.txt?x''" "''hi''" Map.empty "[]"] r by simp
qed

text \<open>
  Property C19: a static file whose path is not safe is refused: whatever the file system holds, the answer is a 404
  page with the escaped name.
\<close>

theorem unsafe_path_is_refused:
  assumes "boost_ok (w_boost w)" "\<not> IsPathSafe (w_realpath w) basedir (basedir @ ''/'' @ requested f)"
  shows "ProcessRequest (w\<lparr>w_os := sys\<rparr>) m \<lparr>URI = ''/static/'' @ f, headers = hs\<rparr> basedir indices =
    Inr (not_found (w_boost w) (requested f), m)"
  using assms file_request [of "w\<lparr>w_os := sys\<rparr>" m f hs basedir indices] by (simp add: Let_def)

lemma unsafe_path_is_refused_witness:
  "\<forall>sys. ProcessRequest (demo_world\<lparr>w_os := sys\<rparr>) [] \<lparr>URI = ''/static/'' @ ''..'', headers = Map.empty\<rparr> ''w'' [] =
     Inr (not_found boost_ref ''..'', [])"
proof
  fix sys
  have r: "requested ''..'' = ''..''" by (simp add: requested_def Let_def)
  have "\<not> IsPathSafe (w_realpath demo_world) ''w'' (''w'' @ ''/'' @ requested ''..'')"
    by (simp add: r IsPathSafe_def demo_world_def c_str_def NUL_def)
  from unsafe_path_is_refused [OF demo_boost this, of sys "[]" Map.empty "[]"]
  show "ProcessRequest (demo_world\<lparr>w_os := sys\<rparr>) [] \<lparr>URI = ''/static/'' @ ''..'', headers = Map.empty\<rparr> ''w'' [] =
     Inr (not_found boost_ref ''..'', [])" by (simp add: r demo_world_def)
qed

text \<open>
  Property C13: searching over the web: for a query of words typed into the form, over index files of crawled
  documents, the server answers with the page of the right documents with their ranks, the
  highest first, for the one word that the words form when they are joined by blanks.
\<close>

theorem web_query_answers:
  assumes "boost_ok (w_boost w)" "ws \<noteq> []" "\<forall>v \<in> set ws. plain_word v"
    and "list_all2 (\<lambda>name docs. \<exists>B. w_files w name = Some B \<and> crawl_file B docs) names dss" "names \<noteq> []"
    and "sorts (w_sort w)" "\<forall>docs \<in> set dss. no_collision docs (search_text ws)"
  shows "\<exists>rs. ProcessRequest w m \<lparr>URI = search_uri ws, headers = hs\<rparr> basedir names =
       Inr (result_page (w_boost w) (search_text ws) rs, m) \<and>
     right_results dss [search_text ws] rs \<and> sorted_wrt (\<lambda>x y. rank y \<le> rank x) rs"
  using search_request [OF assms] .

lemma web_query_answers_witness:
  "\<exists>B r. document_name r = ''a'' \<and> rank r = 2 \<and>
     ProcessRequest (demo_world\<lparr>w_files := [''i'' \<mapsto> B]\<rparr>) [] \<lparr>URI = search_uri [''Two''], headers = Map.empty\<rparr> ''w'' [''i''] =
       Inr (result_page boost_ref ''two'' [r], [])"
proof -
  obtain B where B: "crawl_file B demo_docs" using demo_file by blast
  let ?w = "demo_world\<lparr>w_files := [''i'' \<mapsto> B]\<rparr>"
  have t: "search_text [''Two''] = ''two''" using low_two by (simp add: search_text_def)
  have nc: "no_collision demo_docs ''two''" by (simp add: no_collision_def doc_words_def demo_docs_def)
  have p: "plain_word ''Two''" by (simp add: plain_word_def word_of_def isspace_def)
  obtain rs where rs: "ProcessRequest ?w [] \<lparr>URI = search_uri [''Two''], headers = Map.empty\<rparr> ''w'' [''i''] =
      Inr (result_page boost_ref ''two'' rs, [])" "right_results [demo_docs] [''two''] rs"
    using web_query_answers [of ?w "[''Two'']" "[''i'']" "[demo_docs]" "[]" Map.empty "''w''"] B p nc t boost_ref_ok rank_sort
    by (auto simp: demo_world_def)
  then have "length rs = 1 \<and> (\<forall>r \<in> set rs. document_name r = ''a'' \<and> rank r = 2)"
    using right_results_demo [of 1 rs] by simp
  then obtain r where "rs = [r]" "document_name r = ''a''" "rank r = 2" by (cases rs) auto
  then show ?thesis using rs(1) by blast
qed

text \<open>
  Property C21: a query of several words never finds anything, even if a document has all of them: the plus signs
  between them have become blanks before the query is split at plus signs, and no document has a word with
  a blank in it.
\<close>

theorem several_words_find_nothing:
  assumes "boost_ok (w_boost w)" "2 \<le> length ws" "\<forall>v \<in> set ws. plain_word v"
    and "list_all2 (\<lambda>name docs. \<exists>B. w_files w name = Some B \<and> crawl_file B docs) names dss" "names \<noteq> []"
    and "sorts (w_sort w)" "\<forall>docs \<in> set dss. no_collision docs (search_text ws)"
    and "\<forall>docs \<in> set dss. \<forall>v \<in> doc_words docs. CHR '' '' \<notin> set v"
  shows "ProcessRequest w m \<lparr>URI = search_uri ws, headers = hs\<rparr> basedir names =
    Inr (result_page (w_boost w) (search_text ws) [], m)"
proof -
  obtain v v' vs where ws: "ws = v # v' # vs" using assms(2) by (cases ws; cases "tl ws") auto
  have "tolower CHR '' '' = CHR '' ''" by (simp add: tolower_def)
  then have "CHR '' '' \<in> set (search_text ws)" by (force simp: ws search_text_def)
  then have "\<forall>docs \<in> set dss. no_collision docs (search_text ws) \<and> search_text ws \<notin> doc_words docs" using assms(7,8) by blast
  moreover have "ws \<noteq> []" by (simp add: ws)
  ultimately show ?thesis using search_request [OF assms(1) _ assms(3-7)] no_results by blast
qed

lemma several_words_find_nothing_witness:
  "\<exists>B. crawl_file B demo_docs \<and>
     ProcessRequest (demo_world\<lparr>w_files := [''i'' \<mapsto> B]\<rparr>) [] \<lparr>URI = search_uri [''two'', ''two''], headers = Map.empty\<rparr> ''w'' [''i''] =
       Inr (result_page boost_ref ''two two'' [], [])"
proof -
  obtain B where B: "crawl_file B demo_docs" using demo_file by blast
  let ?w = "demo_world\<lparr>w_files := [''i'' \<mapsto> B]\<rparr>"
  have t: "search_text [''two'', ''two''] = ''two two''" by code_simp
  have "str_key ''two two'' \<noteq> str_key ''two''" by code_simp
  then have nc: "no_collision demo_docs ''two two''" by (simp add: no_collision_def doc_words_def demo_docs_def)
  have p: "plain_word ''two''" by (simp add: plain_word_def word_of_def isspace_def)
  have d: "\<forall>v \<in> doc_words demo_docs. CHR '' '' \<notin> set v" by (simp add: doc_words_def demo_docs_def)
  have "ProcessRequest ?w [] \<lparr>URI = search_uri [''two'', ''two''], headers = Map.empty\<rparr> ''w'' [''i''] =
      Inr (result_page (w_boost ?w) (search_text [''two'', ''two'']) [], [])"
    by (rule several_words_find_nothing [where dss = "[demo_docs]"])
      (use B p nc t d boost_ref_ok rank_sort in \<open>simp_all add: demo_world_def\<close>)
  then show ?thesis using B t by (auto simp: demo_world_def)
qed

end
