(* ===== verification/ServerSocket.thy ===== *)
theory ServerSocket
  imports HttpServer
begin

text \<open>
  The listening socket of src/hw4/ServerSocket.cc, the loop of \<open>HttpServer::Run\<close> that accepts connections, and
  the main program of src/hw4/http333d.cc.

  The results of the calls of the socket interface are parameters: what \<open>getaddrinfo\<close> found, with the results of
  \<open>socket\<close> and \<open>bind\<close> for each address, and the outcomes of the calls of \<open>accept\<close>.  \<open>open_fds\<close> is the set
  of open descriptors.  As elsewhere the host is little-endian.
\<close>

section \<open>The listening socket\<close>

datatype ai_family = AF_INET | AF_INET6 | AF_UNSPEC

text \<open>\<open>sock_family\<close> is \<open>None\<close> until it is set.\<close>

record server_socket =
  ss_port :: "16 word"
  listen_sock_fd :: int
  sock_family :: "ai_family option"

definition ServerSocket :: "16 word \<Rightarrow> server_socket" where
  "ServerSocket port = \<lparr>ss_port = port, listen_sock_fd = -1, sock_family = None\<rparr>"

definition ServerSocket_destructor :: "server_socket \<Rightarrow> int set \<Rightarrow> server_socket \<times> int set" where
  "ServerSocket_destructor ss open_fds =
     (ss\<lparr>listen_sock_fd := -1\<rparr>, if listen_sock_fd ss \<noteq> -1 then open_fds - {listen_sock_fd ss} else open_fds)"

text \<open>The loop over the addresses: the descriptor, if \<open>socket\<close> succeeds, and whether \<open>bind\<close> does.\<close>

fun bind_loop :: "(int option \<times> bool) list \<Rightarrow> int set \<Rightarrow> int \<times> int set" where
  "bind_loop [] open_fds = (-1, open_fds)"
| "bind_loop ((None, _) # rps) open_fds = bind_loop rps open_fds"
| "bind_loop ((Some ret_fd, bound) # rps) open_fds =
     (if bound then (ret_fd, insert ret_fd open_fds)
      else bind_loop rps (insert ret_fd open_fds - {ret_fd}))"

text \<open>\<open>addresses\<close> is \<open>None\<close> if \<open>getaddrinfo\<close> fails; \<open>listens\<close> is the success of \<open>listen\<close>.\<close>

definition BindAndListen ::
  "server_socket \<Rightarrow> ai_family \<Rightarrow> (int option \<times> bool) list option \<Rightarrow> bool \<Rightarrow> int set \<Rightarrow>
   bool \<times> server_socket \<times> int set" where
  "BindAndListen ss ai_family addresses listens open_fds =
     (case addresses of
        None \<Rightarrow> (False, ss, open_fds)
      | Some result \<Rightarrow>
          let (ret_fd, open_fds) = bind_loop result open_fds in
          if ret_fd = -1 then (False, ss, open_fds)
          else if \<not> listens then (False, ss, open_fds)
          else (True, ss\<lparr>listen_sock_fd := ret_fd, sock_family := Some ai_family\<rparr>, open_fds))"

section \<open>Accepting a connection\<close>

text \<open>
  A socket address has the bytes of an IP address and a port.  The structure holds the port in network order, so the
  code that reads it as it is finds its bytes swapped.
\<close>

datatype sockaddr = Sockaddr_in "8 word list" "16 word" | Sockaddr_in6 "8 word list" "16 word" | Sockaddr_other

definition network_port :: "16 word \<Rightarrow> 16 word" where
  "network_port p = or (push_bit 8 p) (drop_bit 8 p)"

datatype accept_outcome = Accepted int sockaddr | Accept_Again | Accept_Error

text \<open>
  The network library: \<open>inet_ntop\<close> for IPv6, \<open>getnameinfo\<close>, which may fail, and \<open>getsockname\<close>.
\<close>

record net =
  n_ntop6 :: "8 word list \<Rightarrow> string"
  n_nameinfo :: "sockaddr \<Rightarrow> string option"
  n_sockname :: "int \<Rightarrow> sockaddr option"

fun dotted :: "8 word list \<Rightarrow> string" where
  "dotted [] = []"
| "dotted [b] = decimal (unat b)"
| "dotted (b # bs) = decimal (unat b) @ CHR ''.'' # dotted bs"

text \<open>A task for the pool; \<open>None\<close> stands for a member that has not been set.\<close>

record http_task =
  client_fd :: "int option"
  cport :: "16 word option"
  caddr :: string
  cdns :: string
  saddr :: string
  sdns :: string
  task_basedir :: string
  task_indices :: "string list"

definition HttpServerTask :: "string \<Rightarrow> string list \<Rightarrow> http_task" where
  "HttpServerTask basedir indices =
     \<lparr>client_fd = None, cport = None, caddr = [], cdns = [], saddr = [], sdns = [],
      task_basedir = basedir, task_indices = indices\<rparr>"

text \<open>Past the end of the outcomes \<open>accept\<close> fails.\<close>

fun accept_loop :: "accept_outcome list \<Rightarrow> (int \<times> sockaddr) option \<times> accept_outcome list" where
  "accept_loop [] = (None, [])"
| "accept_loop (Accept_Again # outs) = accept_loop outs"
| "accept_loop (Accept_Error # outs) = (None, outs)"
| "accept_loop (Accepted fd addr # outs) = (Some (fd, addr), outs)"

text \<open>
  The address of the server.  The name of a connection has the family of the listening socket; in the branch for
  IPv6 the address is printed with \<open>inet_ntop(AF_INET, ...)\<close>, which reads four bytes.
\<close>

definition server_name :: "net \<Rightarrow> ai_family option \<Rightarrow> int \<Rightarrow> http_task \<Rightarrow> http_task res" where
  "server_name n family fd t =
     (if family = Some AF_INET \<or> family = Some AF_INET6 then
        case n_sockname n fd of
          None \<Rightarrow> Inl Verify333_Failed
        | Some addr \<Rightarrow>
            bindE (case addr of
                     Sockaddr_in bs p \<Rightarrow> if family = Some AF_INET then Inr (dotted bs) else Inl Undefined_Behaviour
                   | Sockaddr_in6 bs p \<Rightarrow>
                       if family = Some AF_INET6 then Inr (dotted (take 4 bs)) else Inl Undefined_Behaviour
                   | Sockaddr_other \<Rightarrow> Inl Undefined_Behaviour) (\<lambda>server_addr.
            case n_nameinfo n addr of
              None \<Rightarrow> Inl Verify333_Failed
            | Some host_name_buf \<Rightarrow> Inr (t\<lparr>saddr := server_addr, sdns := host_name_buf\<rparr>))
      else Inr t)"

definition Accept ::
  "net \<Rightarrow> server_socket \<Rightarrow> accept_outcome list \<Rightarrow> http_task \<Rightarrow> (bool \<times> http_task \<times> accept_outcome list) res" where
  "Accept n ss outs t =
     (case accept_loop outs of
        (None, outs) \<Rightarrow> Inr (False, t, outs)
      | (Some (fd, addr), outs) \<Rightarrow>
          let t = t\<lparr>client_fd := Some fd\<rparr>;
              t = (case addr of
                     Sockaddr_in bs p \<Rightarrow> t\<lparr>caddr := dotted bs, cport := Some (network_port p)\<rparr>
                   | Sockaddr_in6 bs p \<Rightarrow> t\<lparr>caddr := n_ntop6 n bs, cport := Some (network_port p)\<rparr>
                   | Sockaddr_other \<Rightarrow> t)
          in case n_nameinfo n addr of
               None \<Rightarrow> Inl Verify333_Failed
             | Some host_name_buf \<Rightarrow>
                 bindE (server_name n (sock_family ss) fd (t\<lparr>cdns := host_name_buf\<rparr>)) (\<lambda>t. Inr (True, t, outs)))"

lemma accept_loop_shorter: "accept_loop outs = (Some c, outs') \<Longrightarrow> length outs' < length outs"
  by (induction outs rule: accept_loop.induct) auto

lemma Accept_shorter: "Accept n ss outs t = Inr (True, t', outs') \<Longrightarrow> length outs' < length outs"
  by (auto simp: Accept_def bindE_eq_Inr Let_def accept_loop_shorter split: prod.splits option.splits sockaddr.splits)

section \<open>Running the server\<close>

text \<open>The tasks that the loop dispatches to the thread pool, in order, until \<open>Accept\<close> fails.\<close>

function run_loop :: "net \<Rightarrow> server_socket \<Rightarrow> string \<Rightarrow> string list \<Rightarrow> accept_outcome list \<Rightarrow> http_task list res" where
  "run_loop n ss basedir indices outs =
     (case Accept n ss outs (HttpServerTask basedir indices) of
        Inl e \<Rightarrow> Inl e
      | Inr (False, hst, outs) \<Rightarrow> Inr []
      | Inr (True, hst, outs) \<Rightarrow> bindE (run_loop n ss basedir indices outs) (\<lambda>hsts. Inr (hst # hsts)))"
  by pat_completeness auto
termination by (relation "measure (\<lambda>(n, ss, basedir, indices, outs). length outs)") (auto dest: Accept_shorter)

declare run_loop.simps [simp del]

definition HttpServer_Run ::
  "net \<Rightarrow> 16 word \<Rightarrow> string \<Rightarrow> string list \<Rightarrow> (int option \<times> bool) list option \<Rightarrow> bool \<Rightarrow> accept_outcome list \<Rightarrow>
   (bool \<times> http_task list) res" where
  "HttpServer_Run n port basedir indices addresses listens outs =
     (case BindAndListen (ServerSocket port) AF_INET6 addresses listens {} of
        (False, ss, open_fds) \<Rightarrow> Inr (False, [])
      | (True, ss, open_fds) \<Rightarrow> bindE (run_loop n ss basedir indices outs) (\<lambda>hsts. Inr (True, hsts)))"

section \<open>The main program\<close>

text \<open>
  \<open>sscanf\<close> with \<open>%hu\<close>.  Without a number the variable stays uninitialised and is read then; a
  number that does not fit has undefined behaviour.
\<close>

definition scan_hu :: "string \<Rightarrow> 16 word res" where
  "scan_hu s =
     (let s = dropWhile isspace s;
          neg = (take 1 s = ''-'');
          s = (if take 1 s = ''-'' \<or> take 1 s = ''+'' then drop 1 s else s);
          ds = takeWhile (\<lambda>c. 48 \<le> (of_char c :: nat) \<and> (of_char c :: nat) \<le> 57) s;
          v = foldl (\<lambda>v c. 10 * v + (of_char c - 48)) 0 ds
      in if ds = [] \<or> 65535 < v \<or> neg \<and> v \<noteq> 0 then Inl Undefined_Behaviour else Inr (of_nat v))"

fun check_indices :: "os \<Rightarrow> string list \<Rightarrow> string list \<Rightarrow> string list res" where
  "check_indices sys [] indices = Inr indices"
| "check_indices sys (arg # args) indices =
     (case os_stat sys arg of
        None \<Rightarrow> Inl Exit_Failure
      | Some file_stat \<Rightarrow>
          if \<not> si_isreg file_stat then Inl Exit_Failure else check_indices sys args (indices @ [arg]))"

definition GetPortAndPath :: "os \<Rightarrow> string list \<Rightarrow> (16 word \<times> string \<times> string list) res" where
  "GetPortAndPath sys argv =
     (if length argv < 4 then Inl Exit_Failure
      else
        bindE (scan_hu (argv ! 1)) (\<lambda>port_num.
        if port_num < 1024 \<or> port_num > 49151 then Inl Exit_Failure
        else case os_stat sys (argv ! 2) of
          None \<Rightarrow> Inl Exit_Failure
        | Some path_stat \<Rightarrow>
            if \<not> si_isdir path_stat then Inl Exit_Failure
            else bindE (check_indices sys (drop 3 argv) []) (\<lambda>indices. Inr (port_num, argv ! 2, indices))))"

text \<open>The exit status is 0 whether or not the server could run.\<close>

definition http333d_main ::
  "net \<Rightarrow> os \<Rightarrow> string list \<Rightarrow> (int option \<times> bool) list option \<Rightarrow> bool \<Rightarrow> accept_outcome list \<Rightarrow>
   (int \<times> http_task list) res" where
  "http333d_main n sys argv addresses listens outs =
     bindE (GetPortAndPath sys argv) (\<lambda>(portnum, staticdir, indices).
     bindE (HttpServer_Run n portnum staticdir indices addresses listens outs) (\<lambda>(ok, hsts). Inr (0, hsts)))"

end
