(* ===== verification/ServerSocketSpec.thy ===== *)
theory ServerSocketSpec
  imports ServerSocket ThreadPoolSpec HttpServerSpec
begin

text \<open>
  Properties of the main program and its socket: which arguments are accepted, which tasks reach the thread
  pool, and which descriptors stay open.
\<close>

section \<open>Reading a number\<close>

definition digit_value :: "string \<Rightarrow> nat" where
  "digit_value ds = foldl (\<lambda>v c. 10 * v + (of_char c - 48)) 0 ds"

definition is_digit :: "char \<Rightarrow> bool" where
  "is_digit c \<longleftrightarrow> 48 \<le> (of_char c :: nat) \<and> (of_char c :: nat) \<le> 57"

lemma decimal_digits: "decimal n \<noteq> [] \<and> (\<forall>c \<in> set (decimal n). is_digit c) \<and> digit_value (decimal n) = n"
proof (induction n rule: decimal.induct)
  case (1 n)
  have d: "of_char (char_of (48 + k)) = 48 + k" if "k < 10" for k :: nat
    using that by (simp add: of_char_of take_bit_nat_eq_self)
  show ?case
  proof (cases "n < 10")
    case True
    then show ?thesis using d [of n] by (simp add: decimal.simps [of n] is_digit_def digit_value_def)
  next
    case False
    then show ?thesis using 1 [OF False] d [of "n mod 10"] by (auto simp: decimal.simps [of n] is_digit_def digit_value_def)
  qed
qed

lemma digit_first: "is_digit c \<Longrightarrow> \<not> isspace c \<and> c \<noteq> CHR ''-'' \<and> c \<noteq> CHR ''+''"
  by (auto simp: is_digit_def isspace_def)

lemma scan_decimal: "scan_hu (decimal n) = (if 65535 < n then Inl Undefined_Behaviour else Inr (of_nat n))"
proof -
  obtain c cs where c: "decimal n = c # cs" using decimal_digits [of n] by (cases "decimal n") auto
  note f = digit_first [of c]
  have "takeWhile is_digit (decimal n) = decimal n" using decimal_digits [of n] by (simp add: takeWhile_eq_all_conv)
  then have t: "takeWhile (\<lambda>c. 48 \<le> (of_char c :: nat) \<and> (of_char c :: nat) \<le> 57) (c # cs) = c # cs"
    by (simp add: c is_digit_def [abs_def])
  have v: "foldl (\<lambda>v c. 10 * v + (of_char c - 48)) 0 (c # cs) = n"
    using decimal_digits [of n] by (simp only: c digit_value_def)
  have "is_digit c" using decimal_digits [of n] by (simp add: c)
  then have s: "dropWhile isspace (c # cs) = c # cs" "take 1 (c # cs) \<noteq> ''-''" "take 1 (c # cs) \<noteq> ''+''" using f by simp_all
  show ?thesis unfolding scan_hu_def c Let_def s(1) using s(2,3) t v by simp
qed

section \<open>Arguments\<close>

definition is_dir :: "os \<Rightarrow> string \<Rightarrow> bool" where
  "is_dir sys f \<longleftrightarrow> (\<exists>st. os_stat sys f = Some st \<and> si_isdir st)"

definition is_reg :: "os \<Rightarrow> string \<Rightarrow> bool" where
  "is_reg sys f \<longleftrightarrow> (\<exists>st. os_stat sys f = Some st \<and> si_isreg st)"

lemma check_indices_ok:
  "check_indices sys args indices = (if \<forall>f \<in> set args. is_reg sys f then Inr (indices @ args) else Inl Exit_Failure)"
  by (induction args arbitrary: indices) (auto simp: is_reg_def split: option.splits)

section \<open>Connections\<close>

text \<open>The connections that are accepted before the first error.\<close>

fun accepted :: "accept_outcome list \<Rightarrow> (int \<times> sockaddr) list" where
  "accepted [] = []"
| "accepted (Accept_Again # outs) = accepted outs"
| "accepted (Accept_Error # outs) = []"
| "accepted (Accepted fd addr # outs) = (fd, addr) # accepted outs"

lemma accepted_cases:
  "accepted outs = (case accept_loop outs of (None, outs) \<Rightarrow> [] | (Some c, outs) \<Rightarrow> c # accepted outs)"
  by (induction outs rule: accepted.induct) auto

text \<open>Every name the server asks for is found; a connection's own name is an IPv6 address.\<close>

definition named_peer :: "net \<Rightarrow> int \<times> sockaddr \<Rightarrow> bool" where
  "named_peer n c \<longleftrightarrow> n_nameinfo n (snd c) \<noteq> None \<and>
     (\<exists>bs p. n_sockname n (fst c) = Some (Sockaddr_in6 bs p) \<and> n_nameinfo n (Sockaddr_in6 bs p) \<noteq> None)"

definition task_for :: "net \<Rightarrow> string \<Rightarrow> string list \<Rightarrow> int \<times> sockaddr \<Rightarrow> http_task" where
  "task_for n basedir indices c =
     (let name = the (n_sockname n (fst c)) in
      \<lparr>client_fd = Some (fst c),
       cport = (case snd c of Sockaddr_in bs p \<Rightarrow> Some (network_port p) | Sockaddr_in6 bs p \<Rightarrow> Some (network_port p)
                | Sockaddr_other \<Rightarrow> None),
       caddr = (case snd c of Sockaddr_in bs p \<Rightarrow> dotted bs | Sockaddr_in6 bs p \<Rightarrow> n_ntop6 n bs | Sockaddr_other \<Rightarrow> []),
       cdns = the (n_nameinfo n (snd c)),
       saddr = (case name of Sockaddr_in bs p \<Rightarrow> dotted bs | Sockaddr_in6 bs p \<Rightarrow> dotted (take 4 bs) | Sockaddr_other \<Rightarrow> []),
       sdns = the (n_nameinfo n name), task_basedir = basedir, task_indices = indices\<rparr>)"

lemma Accept_ok:
  assumes "sock_family ss = Some AF_INET6" "\<forall>c \<in> set (accepted outs). named_peer n c"
  shows "Accept n ss outs (HttpServerTask basedir indices) =
    Inr (case accept_loop outs of (None, outs) \<Rightarrow> (False, HttpServerTask basedir indices, outs)
         | (Some c, outs) \<Rightarrow> (True, task_for n basedir indices c, outs))"
proof -
  obtain r outs' where r: "accept_loop outs = (r, outs')" by (cases "accept_loop outs") auto
  show ?thesis
  proof (cases r)
    case None
    then show ?thesis by (simp add: Accept_def r)
  next
    case (Some c)
    obtain fd addr where c: "c = (fd, addr)" by (cases c)
    have "named_peer n (fd, addr)" using assms(2) by (simp add: accepted_cases [of outs] r Some c)
    then obtain bs p h hs where "n_nameinfo n addr = Some h" "n_sockname n fd = Some (Sockaddr_in6 bs p)"
      "n_nameinfo n (Sockaddr_in6 bs p) = Some hs" by (auto simp: named_peer_def)
    then show ?thesis
      by (cases addr) (simp_all add: Accept_def r Some c assms(1) server_name_def task_for_def HttpServerTask_def Let_def)
  qed
qed

lemma run_loop_ok:
  "sock_family ss = Some AF_INET6 \<Longrightarrow> \<forall>c \<in> set (accepted outs). named_peer n c \<Longrightarrow>
   run_loop n ss basedir indices outs = Inr (map (task_for n basedir indices) (accepted outs))"
proof (induction n ss basedir indices outs rule: run_loop.induct)
  case (1 n ss basedir indices outs)
  note a = Accept_ok [OF 1(2,3), of basedir indices]
  obtain r outs' where r: "accept_loop outs = (r, outs')" by (cases "accept_loop outs") auto
  show ?case
  proof (cases r)
    case None
    then show ?thesis using a by (simp add: run_loop.simps [of n ss basedir indices outs] accepted_cases [of outs] r)
  next
    case (Some c)
    have e: "Accept n ss outs (HttpServerTask basedir indices) = Inr (True, task_for n basedir indices c, outs')"
      using a by (simp add: r Some)
    have acc: "accepted outs = c # accepted outs'" by (simp add: accepted_cases [of outs] r Some)
    have "run_loop n ss basedir indices outs' = Inr (map (task_for n basedir indices) (accepted outs'))"
      by (rule 1(1) [OF e]) (use 1(2,3) acc in simp_all)
    then show ?thesis by (simp add: run_loop.simps [of n ss basedir indices outs] e acc)
  qed
qed

lemma bind_loop_finds:
  "(Some fd, True) \<in> set rps \<Longrightarrow> \<forall>r \<in> set rps. fst r \<noteq> Some (-1) \<Longrightarrow> fst (bind_loop rps open_fds) \<noteq> -1"
  by (induction rps open_fds rule: bind_loop.induct) auto

text \<open>Descriptors: the one that is recorded is the only one that stays open, unless \<open>listen\<close> fails.\<close>

lemma bind_loop_opens:
  "\<forall>r \<in> set rps. fst r \<noteq> Some (-1) \<and> (\<forall>fd \<in> open_fds. fst r \<noteq> Some fd) \<Longrightarrow>
   snd (bind_loop rps open_fds) = (if fst (bind_loop rps open_fds) = -1 then open_fds else insert (fst (bind_loop rps open_fds)) open_fds)"
proof (induction rps open_fds rule: bind_loop.induct)
  case (3 ret_fd bound rps open_fds)
  then have "insert ret_fd open_fds - {ret_fd} = open_fds" by auto
  then show ?case using 3 by (auto simp del: insert_Diff_single)
qed simp_all

lemma listen_failure_leaks_socket:
  assumes "bind_loop result open_fds = (fd, open_fds')" "fd \<noteq> -1" "open_fds' = insert fd open_fds"
    and "\<forall>r \<in> set result. fst r \<noteq> Some (-1) \<and> (\<forall>fd \<in> open_fds. fst r \<noteq> Some fd)" "listen_sock_fd ss = -1"
  shows "snd (ServerSocket_destructor (fst (snd (BindAndListen ss f (Some result) False open_fds)))
    (snd (snd (BindAndListen ss f (Some result) False open_fds)))) = insert fd open_fds"
  using assms by (simp add: BindAndListen_def ServerSocket_destructor_def)

lemma digit_chars:
  "char_of (48 :: nat) = CHR ''0''" "char_of (49 :: nat) = CHR ''1''" "char_of (50 :: nat) = CHR ''2''"
  "char_of (55 :: nat) = CHR ''7''" "char_of (56 :: nat) = CHR ''8''"
  by code_simp+

lemma arguments_ok:
  assumes "files \<noteq> []"
  shows "GetPortAndPath sys (prog # decimal p # dir # files) =
    (if 65535 < p then Inl Undefined_Behaviour
     else if 1024 \<le> p \<and> p \<le> 49151 \<and> is_dir sys dir \<and> (\<forall>f \<in> set files. is_reg sys f)
     then Inr (of_nat p, dir, files) else Inl Exit_Failure)"
proof (cases "65535 < p")
  case False
  obtain f fs where files: "files = f # fs" using assms by (cases files) auto
  have u: "unat (of_nat p :: 16 word) = p" using False by (simp add: unsigned_of_nat take_bit_nat_eq_self)
  then have "(of_nat p :: 16 word) < 1024 \<longleftrightarrow> p < 1024" "49151 < (of_nat p :: 16 word) \<longleftrightarrow> 49151 < p"
    by (simp_all add: word_less_nat_alt)
  then show ?thesis using False
    by (auto simp: GetPortAndPath_def files scan_decimal check_indices_ok is_dir_def split: option.splits)
qed (use assms in \<open>auto simp: GetPortAndPath_def scan_decimal Suc_le_eq\<close>)

section \<open>Properties\<close>

lemma permissions_not_asked:
  "is_dir (sys\<lparr>os_open := may_open, os_opendir := may_list\<rparr>) = is_dir sys"
  "is_reg (sys\<lparr>os_open := may_open, os_opendir := may_list\<rparr>) = is_reg sys"
  by (simp_all add: fun_eq_iff is_dir_def is_reg_def)

text \<open>
  Property C23: the arguments of the server, with a number for the port.  The program goes on exactly if there is
  an index file, the port is a user or registered one, the directory is one and all the files are regular; whether
  the directory and the files can be read makes no difference, so an unreadable one is accepted.
  A number that does not fit into 16 bits is undefined behaviour rather than an error.
\<close>

theorem arguments_are_checked:
  "GetPortAndPath (sys\<lparr>os_open := may_open, os_opendir := may_list\<rparr>) (prog # decimal p # dir # files) =
    (if files = [] then Inl Exit_Failure
     else if 65535 < p then Inl Undefined_Behaviour
     else if 1024 \<le> p \<and> p \<le> 49151 \<and> is_dir sys dir \<and> (\<forall>f \<in> set files. is_reg sys f)
     then Inr (of_nat p, dir, files) else Inl Exit_Failure)"
proof (cases files)
  case Nil
  then show ?thesis by (simp add: GetPortAndPath_def)
next
  case (Cons f fs)
  let ?sys = "sys\<lparr>os_open := may_open, os_opendir := may_list\<rparr>"
  have "GetPortAndPath ?sys (prog # decimal p # dir # files) =
    (if 65535 < p then Inl Undefined_Behaviour
     else if 1024 \<le> p \<and> p \<le> 49151 \<and> is_dir ?sys dir \<and> (\<forall>f \<in> set files. is_reg ?sys f)
     then Inr (of_nat p, dir, files) else Inl Exit_Failure)"
    using Cons by (intro arguments_ok) simp
  then show ?thesis unfolding permissions_not_asked using Cons by simp
qed

lemma arguments_are_checked_witness:
  "GetPortAndPath ((w_os demo_world)\<lparr>os_stat := [''d'' \<mapsto> \<lparr>si_isreg = False, si_isdir = True, si_size = 0\<rparr>,
      ''i'' \<mapsto> \<lparr>si_isreg = True, si_isdir = False, si_size = 0\<rparr>], os_open := \<lambda>f. False, os_opendir := Map.empty\<rparr>)
    [''p'', ''8080'', ''d'', ''i''] = Inr (8080, ''d'', [''i''])"
proof -
  have d: "decimal 8080 = ''8080''" by (simp add: decimal.simps digit_chars)
  show ?thesis using arguments_are_checked [of Map.empty "\<lambda>f. False" "(w_os demo_world)\<lparr>os_stat := [''d'' \<mapsto> \<lparr>si_isreg = False, si_isdir = True, si_size = 0\<rparr>,
      ''i'' \<mapsto> \<lparr>si_isreg = True, si_isdir = False, si_size = 0\<rparr>]\<rparr>" "''p''" 8080 "''d''" "[''i'']"]
    by (simp add: d is_dir_def is_reg_def)
qed

text \<open>
  Property C15: every client is served once: when an address can be bound and every lookup of names for a
  connection (the server's own and the client's) succeeds, where a failing one would end the process, the server dispatches
  to its pool exactly one task for each connection it accepts, in order, until accepting fails; and when a pool that
  was given these tasks has been destroyed, however its threads were scheduled, each of them has been run exactly once.
\<close>

theorem server_serves_every_connection:
  assumes "(Some fd, True) \<in> set result" "\<forall>r \<in> set result. fst r \<noteq> Some (-1)" "\<forall>c \<in> set (accepted outs). named_peer n c"
  shows "\<exists>hsts. HttpServer_Run n port basedir indices (Some result) True outs = Inr (True, hsts) \<and>
     hsts = map (task_for n basedir indices) (accepted outs) \<and>
     (\<forall>s. reachable 100 s \<and> owner s = Owner_Done \<and> dispatched s = hsts \<longrightarrow> mset (finished s) = mset hsts)"
proof -
  obtain ret open_fds where b: "bind_loop result {} = (ret, open_fds)" by (cases "bind_loop result {}")
  have ret: "ret \<noteq> -1" using bind_loop_finds [OF assms(1,2), of "{}"] b by simp
  let ?ss = "ServerSocket port\<lparr>listen_sock_fd := ret, sock_family := Some AF_INET6\<rparr>"
  have "run_loop n ?ss basedir indices outs = Inr (map (task_for n basedir indices) (accepted outs))"
    by (rule run_loop_ok [OF _ assms(3)]) simp
  then have "HttpServer_Run n port basedir indices (Some result) True outs =
      Inr (True, map (task_for n basedir indices) (accepted outs))"
    using b ret by (simp add: HttpServer_Run_def BindAndListen_def)
  then show ?thesis by (auto dest!: pool_finishes)
qed

lemma server_serves_every_connection_witness:
  "\<exists>hst. HttpServer_Run \<lparr>n_ntop6 = (\<lambda>bs. ''::1''), n_nameinfo = (\<lambda>a. Some ''h''),
       n_sockname = (\<lambda>fd. Some (Sockaddr_in6 (replicate 15 0 @ [1]) 8080))\<rparr> 8080 ''d'' [''i''] (Some [(Some 3, True)]) True
       [Accept_Again, Accepted 4 (Sockaddr_in [127, 0, 0, 1] 80), Accept_Error] = Inr (True, [hst]) \<and>
     client_fd hst = Some 4 \<and> caddr hst = ''127.0.0.1'' \<and> cport hst = Some 20480 \<and> saddr hst = ''0.0.0.0''"
proof -
  let ?n = "\<lparr>n_ntop6 = (\<lambda>bs. ''::1''), n_nameinfo = (\<lambda>a. Some ''h''),
       n_sockname = (\<lambda>fd. Some (Sockaddr_in6 (replicate 15 0 @ [1]) 8080))\<rparr>"
  let ?outs = "[Accept_Again, Accepted 4 (Sockaddr_in [127, 0, 0, 1] 80), Accept_Error]"
  let ?t = "task_for ?n ''d'' [''i''] (4, Sockaddr_in [127, 0, 0, 1] 80)"
  have "HttpServer_Run ?n 8080 ''d'' [''i''] (Some [(Some 3, True)]) True ?outs = Inr (True, [?t])"
    using server_serves_every_connection [of 3 "[(Some 3, True)]" ?outs ?n 8080 "''d''" "[''i'']"]
    by (auto simp: named_peer_def)
  moreover have "dotted [127, 0, 0, 1] = ''127.0.0.1''" "dotted [0, 0, 0, 0] = ''0.0.0.0''" by (simp_all add: decimal.simps digit_chars)
  moreover have "network_port 80 = 20480" by (simp add: network_port_def)
  moreover have "take 4 (replicate 15 0 @ [1]) = [0, 0, 0, 0 :: 8 word]" by (simp add: numeral_eq_Suc)
  ultimately show ?thesis by (simp add: task_for_def)
qed

end
