(* ===== verification/Spec2Isabelle.thy ===== *)
theory Spec2Isabelle
  imports Prelude LinkedList LinkedListRep LinkedListOps LinkedListSort LinkedListSpec HashTable HashTableRep HashTableSpec CString DocTable DocTableSpec StoreTable
    FileParser FileParserSpec MemIndex MemIndexSpec FileCrawler FileCrawlerSpec SearchShell SearchShellSpec
    FileLayout FileLayoutSpec FileIndexWriter IndexFormat FileIndexWriterSpec IndexReaders IndexReadersSpec FileSearch FileSearchSpec BuildFileIndex BuildFileIndexSpec IndexFileProperties
    ReaderHandles ReaderHandlesSpec ReaderHandlesProperties IndexChecker IndexCheckerSpec IndexCheckerProperties
    ThreadPool ThreadPoolSpec HttpUtils HttpUtilsSpec HttpConnection HttpConnectionSpec HttpServer HttpServerSpec ServerSocket ServerSocketSpec
begin

text \<open>
  A verification of the web search engine of this repository: hw1 (containers), hw2 (crawling and indexing in memory),
  hw3 (index files) and hw4 (the web server).

  \<^bold>\<open>The program and its theories.\<close>  Every theory named after a component holds its state, its data and one
  definition for each of its functions, under the name the code gives it; a loop of a function is a definition of its
  own, and so is a block that is long.  The theory with \<open>Spec\<close> behind its name states what the component is for and
  proves it.

  \<^item> \<open>Prelude\<close>: 32-bit sizes, the ways a call can fail (\<open>Verify333_Failed\<close>, \<open>Undefined_Behaviour\<close>,
    \<open>Exit_Failure\<close>, \<open>Uncaught_Exception\<close>), the result monad, the allocator (a list of outcomes of the next
    calls of \<open>malloc\<close>).
  \<^item> \<open>LinkedList\<close> (src/hw1/LinkedList.c): a list object with its own store of nodes; \<open>LinkedListRep\<close> and
    \<open>LinkedListOps\<close> relate it to a list, \<open>LinkedListSort\<close> has the bubble sort.
  \<^item> \<open>HashTable\<close> (src/hw1/HashTable.c): chains of linked lists, resizing, iterators, FNV hashing;
    \<open>HashTableRep\<close> relates it to a finite map.
  \<^item> \<open>CString\<close>, \<open>StoreTable\<close>: C strings, and tables whose values are pointers into a store.
  \<^item> \<open>DocTable\<close>, \<open>FileParser\<close>, \<open>MemIndex\<close>, \<open>FileCrawler\<close>, \<open>SearchShell\<close> (src/hw2): documents and their
    ids, words of a file, the inverted index, the walk over a directory tree, the query shell.
  \<^item> \<open>FileLayout\<close>, \<open>FileIndexWriter\<close>, \<open>IndexReaders\<close>, \<open>FileSearch\<close>, \<open>BuildFileIndex\<close> (src/hw3): the
    bytes of an index file and its checksum, writing, reading, querying several files, the two
    programs.  \<open>IndexFormat\<close> is the contract between writer and readers: where the elements of a table lie.
  \<^item> \<open>ReaderHandles\<close> (src/hw3): the file handles that the readers and the query processor open, duplicate and close.
  \<^item> \<open>IndexChecker\<close> (src/hw3/hw3fsck): the program that checks an index file; its messages are a list.
  \<^item> \<open>ThreadPool\<close> (src/hw4/ThreadPool.cc): a step relation over all interleavings of the threads and their owner.
  \<^item> \<open>HttpUtils\<close>, \<open>HttpConnection\<close>, \<open>HttpServer\<close>, \<open>ServerSocket\<close> (src/hw4): paths, escaping and URLs;
    requests and responses on a descriptor; static files, query pages and the loop that serves a
    connection; listening, accepting and the main program.

  \<^bold>\<open>How the parts interact.\<close>  The crawler fills the document table and the index through the parser; the shell and the
  writer read them; the readers and the query processor answer from files what the index answers in memory; the
  server parses a URL, asks the query processor and renders a page, on the threads of the pool.  The chain of theorems
  follows: a list refines a sequence, a table a map, an index the hits of a list of documents (\<open>crawl_rep\<close>), a file the
  index (\<open>written_file\<close>), and \<open>ranked\<close> says what the right answer to a query is; the theorems about the programs at
  the end of each stage state their output in terms of it.  What a word of a text is and how often it occurs is
  defined on the text alone (\<open>is_word_at\<close>, \<open>times_in\<close>): the words that the parser finds are shown to be these, and the
  right answers of the search shell (\<open>right_answer\<close>) are stated in these terms.  Words and paths are
  compared by their 64-bit keys everywhere, so such statements ask that the words in question have
  different ones.  The interfaces are locales, each interpreted on the code's definitions:
  \<open>list_store\<close>, \<open>map_store\<close>, \<open>payload_comparator\<close>, \<open>element_writer\<close> (by the three element
  writers of an index file) and \<open>element_checker\<close> (by its three element checkers).

  \<^bold>\<open>What the lemmas show.\<close>  For hw1 to hw3: invariants and what each operation does to the abstract value, on every
  branch, with failing allocations and writes; round trips through the index file; that the CRC table is
  right and damage is noticed; that the checker accepts what the writer wrote, and the reader what the checker
  accepts; the answers of the programs; that the query processor closes what it opens, with the number of descriptors
  it needs.  For the pool: an invariant of all reachable states, that no
  wakeup is lost, and that tasks are run exactly once.  For the server: that the
  cutting of the stream into pieces does not matter, that the answers are sent in order, what files and queries are
  answered with, and which requests end the process.  Where the code is wrong a theorem states what it does: words at the
  end of a file that are missed, queries with capital letters, a path that is printed after it was freed.

  \<^bold>\<open>Fuel and termination.\<close>  All definitions are total.  The walk over directories has fuel for its depth, since a tree with
  a cycle has none, and so has the loop that empties a word table while it moves an iterator; running
  out is the result \<open>Out_Of_Fuel\<close>.  The theorems show that for a finite tree all fuel from some bound on gives
  the result.  Every other loop is a terminating recursion, on the input that is left or on the length of a list;
  for the thread pool termination is a property (\<open>every_task_gets_run\<close>).  Numbers have the width of the code; the loop over
  the results of a query counts in an \<open>int\<close>, so the statements about queries are for fewer than \<open>2 ^ 31\<close> documents.

  \<^bold>\<open>Parameters.\<close>  The operating system (files, directories, the outcomes of reads, writes and \<open>accept\<close>), \<open>malloc\<close>,
  \<open>realpath\<close>, name resolution, the order in which \<open>std::sort\<close> puts equal elements, and the string
  algorithms of Boost, with what their documentation promises (\<open>boost_ok\<close>).  The host is little-endian.

  \<^bold>\<open>Not modelled.\<close>  Messages on the console, \<open>errno\<close>, socket options, failing \<open>pthread\<close> calls, failing
  \<open>new\<close>, the release of memory by C++ destructors, a failing \<open>fclose\<close> of a reader, the four bytes of the stack
  that the writer of a position overwrites (src/hw3/fileindexwriter.cc), strings of 4 GiB in the URL parser; data races
  outside the pool (the tasks share only constants).  The test suites, the example
  programs (of hw1, and the greeting of hw0), Google Test, the style checkers and the documents under src/projdocs are not part of the program.
\<close>

section \<open>The search program as a whole\<close>

text \<open>
  Property C1: the search program, on a directory tree without cycles whose subdirectories can be
  opened, and on input that is a sequence of queries, one to a line, runs to its end.  For each
  query in lower case it prints exactly the files of the tree that are plain text and in which
  every word of the query occurs with another character behind it, each once, with the number of
  such occurrences, best first; so a word that a file ends with is missed.  For a query with a capital
  letter it prints nothing.  The words of a query may not have the key of another word of
  the files, the paths must have different keys, and there are fewer than \<open>2 ^ 31\<close> files and
  \<open>2 ^ 32\<close> bytes.
\<close>

theorem searchshell_answers:
  assumes "os_stat sys root = Some st" "si_isdir st" "os_opendir sys root = Some es" "root \<noteq> []"
    and "crawls sys root es fs" "\<forall>f \<in> set fs. readable sys texts f"
    and "distinct (map str_key fs)" "size_of texts fs < 2 ^ 32" "length fs < 2 ^ 31"
    and "\<forall>q \<in> set queries. good_query q \<and> (\<forall>w \<in> set q. own_key texts fs w)" "never_fails m"
  shows "\<exists>n. \<forall>fuel \<ge> n. \<exists>out.
     searchshell_main fuel m sys [prog, root] (concat (map query_line queries)) = Inr (Indexing root # out) \<and>
     right_answers texts fs queries out"
proof -
  let ?docs = "documents texts fs"
  obtain n where n: "\<forall>fuel \<ge> n. \<exists>m' c. CrawlFileTree fuel m sys root = Inr (m', Some c) \<and> never_fails m' \<and> crawl_rep c ?docs"
    using crawl_tree_ok [OF assms(1-8,11)] by blast
  have good: "\<forall>q \<in> set queries. good_query q" "\<forall>q \<in> set queries. q \<noteq> [] \<and> (\<forall>w \<in> set q. own_key texts fs w)"
    using assms(10) by (simp_all add: good_query_def)
  have few: "length ?docs < 2 ^ 31"
    using le_less_trans [OF length_filter_le assms(9), of "indexed texts"] by (simp add: documents_indexed)
  show ?thesis
  proof (intro exI [of _ n] allI impI)
    fix fuel assume "n \<le> fuel"
    then obtain m1 c where c: "CrawlFileTree fuel m sys root = Inr (m1, Some c)" "never_fails m1" "crawl_rep c ?docs"
      using n by blast
    obtain out m2 where out: "shell_loop m1 c (concat (map query_line queries)) = Inr (out, m2)" "answers ?docs queries out"
      using shell_loop_ok [OF c(3) few good(1) c(2)] by blast
    have "mi_inv (cr_index c)" "dt_rep (cr_doctable c) (map fst ?docs)" using c(3) by (simp_all add: crawl_rep_def)
    then obtain s r where "FreeMemIndex (cr_index c) = Inr s" "FreeDocTable (cr_doctable c) = Inr r"
      using FreeMemIndex_ok FreeDocTable_ok by metis
    then show "\<exists>out. searchshell_main fuel m sys [prog, root] (concat (map query_line queries)) = Inr (Indexing root # out) \<and>
        right_answers texts fs queries out"
      using c(1) out(1) answers_right [OF out(2) good(2)] by (simp add: searchshell_main_def)
  qed
qed

lemma two_results:
  assumes "set rs = {x, y}" "x \<noteq> y" "distinct rs" "sorted_wrt (\<lambda>x y. snd y \<le> snd x) rs" "\<not> (snd x \<le> snd y)"
  shows "rs = [x, y]"
proof -
  have "length rs = card {x, y}" using assms(1,3) by (metis distinct_card)
  then obtain a b where "rs = [a, b]" using assms(2) by (auto simp: length_Suc_conv numeral_2_eq_2)
  then show ?thesis using assms by (auto simp: doubleton_eq_iff)
qed

lemma tree_times:
  "times_in ''two'' ''one two. '' = 1" "times_in ''two'' ''two two!'' = 2"
  "plain_text ''one two. ''" "plain_text ''two two!''"
proof -
  have "words_of ''one two. '' = [(''one'', 0), (''two'', 4)]" "words_of ''two two!'' = [(''two'', 0), (''two'', 4)]"
    by code_simp+
  then show "times_in ''two'' ''one two. '' = 1" "times_in ''two'' ''two two!'' = 2"
    by (simp_all add: times_in_offsets word_offsets_words)
qed code_simp+

lemma queries_have_own_keys:
  "own_key (map_of tree_files) [''d/a'', ''d/s/b''] ''two''" "own_key (map_of tree_files) [''d/a'', ''d/s/b''] ''Two''"
proof -
  have words: "words_of ''one two. '' = [(''one'', 0), (''two'', 4)]" "words_of ''two two!'' = [(''two'', 0), (''two'', 4)]"
    by code_simp+
  have "(str_key ''one'' = str_key ''two'') = False" "(str_key ''one'' = str_key ''Two'') = False"
    "(str_key ''two'' = str_key ''Two'') = False" by code_simp+
  then show "own_key (map_of tree_files) [''d/a'', ''d/s/b''] ''two''" "own_key (map_of tree_files) [''d/a'', ''d/s/b''] ''Two''"
    by (auto simp: own_key_def tree_files_def words_are_maximal_runs [symmetric] words)
qed

lemma searchshell_answers_witness:
  "\<exists>n. \<forall>fuel \<ge> n. searchshell_main fuel [] tree_os [''searchshell'', ''d''] (''two'' @ [CHR 0x0A] @ ''Two'' @ [CHR 0x0A]) =
     Inr [Indexing ''d'', Enter_Query, Search_Hit ''d/s/b'' 2, Search_Hit ''d/a'' 1, Enter_Query, Enter_Query]"
proof -
  let ?t = "map_of tree_files" and ?fs = "[''d/a'', ''d/s/b'']" and ?qs = "[[''two''], [''Two'']]"
  have small: "size_of ?t ?fs < 2 ^ 32" "length ?fs < 2 ^ 31" by (simp_all add: tree_files_def)
  have os: "os_stat tree_os ''d'' = Some \<lparr>si_isreg = False, si_isdir = True, si_size = 0\<rparr>"
    "os_opendir tree_os ''d'' = Some [''.'', ''..'', ''a'', ''s'']"
    by (simp_all add: tree_os_def os_of_def tree_files_def)
  have good: "\<forall>q \<in> set ?qs. good_query q \<and> (\<forall>w \<in> set q. own_key ?t ?fs w)"
    using queries_have_own_keys by (simp add: good_query_def is_word_def NUL_def)
  have line: "concat (map query_line ?qs) = ''two'' @ [CHR 0x0A] @ ''Two'' @ [CHR 0x0A]" by (simp add: query_line_def)
  have dir: "si_isdir \<lparr>si_isreg = False, si_isdir = True, si_size = 0\<rparr>" "''d'' \<noteq> []" by simp_all
  obtain n where n: "\<forall>fuel \<ge> n. \<exists>out. searchshell_main fuel [] tree_os [''searchshell'', ''d'']
      (''two'' @ [CHR 0x0A] @ ''Two'' @ [CHR 0x0A]) = Inr (Indexing ''d'' # out) \<and> right_answers ?t ?fs ?qs out"
    using searchshell_answers [OF os(1) dir(1) os(2) dir(2) tree_crawls tree_readable tree_keys small good never_fails_Nil,
        of "''searchshell''"] unfolding line by blast
  have found: "found_in ?t ?fs [''two''] = {(''d/s/b'', 2 :: HWSize_t), (''d/a'', 1)}"
    by (auto simp: found_in_def tree_files_def tree_times)
  have low: "map tolower ''two'' = ''two''" "map tolower ''Two'' \<noteq> ''Two''" by code_simp+
  have one: "out = [Search_Hit ''d/s/b'' 2, Search_Hit ''d/a'' 1]" if a: "right_answer ?t ?fs [''two''] out" for out
  proof -
    obtain rs where rs: "out = map (\<lambda>(f, r). Search_Hit f r) rs" "distinct (map fst rs)"
      "set rs = {(''d/s/b'', 2), (''d/a'', 1)}" "sorted_wrt (\<lambda>x y. snd y \<le> snd x) rs"
      using a low(1) unfolding right_answer_def found by auto
    have "distinct rs" using rs(2) by (simp add: distinct_map)
    moreover have "\<not> ((2 :: HWSize_t) \<le> 1)" by (simp add: word_le_nat_alt)
    ultimately have "rs = [(''d/s/b'', 2), (''d/a'', 1)]" using rs(3,4) by (intro two_results) simp_all
    then show ?thesis using rs(1) by simp
  qed
  have none: "out = []" if "right_answer ?t ?fs [''Two''] out" for out
    using that low(2) by (auto simp: right_answer_def)
  have res: "out = [Enter_Query, Search_Hit ''d/s/b'' 2, Search_Hit ''d/a'' 1, Enter_Query, Enter_Query]"
    if right: "right_answers ?t ?fs ?qs out" for out
  proof -
    obtain out1 out2 where "out = Enter_Query # out1 @ Enter_Query # out2 @ [Enter_Query]"
      "right_answer ?t ?fs [''two''] out1" "right_answer ?t ?fs [''Two''] out2" using right by auto
    moreover from this have "out1 = [Search_Hit ''d/s/b'' 2, Search_Hit ''d/a'' 1]" "out2 = []" using one none by blast+
    ultimately show ?thesis by simp
  qed
  show ?thesis
  proof (intro exI [of _ n] allI impI)
    fix fuel assume "n \<le> fuel"
    then obtain out where "searchshell_main fuel [] tree_os [''searchshell'', ''d'']
      (''two'' @ [CHR 0x0A] @ ''Two'' @ [CHR 0x0A]) = Inr (Indexing ''d'' # out)" "right_answers ?t ?fs ?qs out" using n by blast
    then show "searchshell_main fuel [] tree_os [''searchshell'', ''d''] (''two'' @ [CHR 0x0A] @ ''Two'' @ [CHR 0x0A]) =
      Inr [Indexing ''d'', Enter_Query, Search_Hit ''d/s/b'' 2, Search_Hit ''d/a'' 1, Enter_Query, Enter_Query]"
      using res [of out] by simp
  qed
qed

end
